(* ===== verification/Prelude.thy ===== *)
theory Prelude
  imports Main "HOL-Library.Word" "HOL-Library.Monad_Syntax"
begin

text \<open>
  Shared vocabulary of the development: bytes and C strings, memory blocks with
  bounds-checked access, the little-endian layout of C integers, and the conversions
  between C integer types.

  A block of heap memory is a list of bytes. Every read, write or move of the models goes
  through \<open>mem_read\<close>, \<open>mem_write\<close> and \<open>mem_move\<close>, whose result is \<open>None\<close> when the C
  code would touch a byte outside of the block. An operation of a component returns
  \<open>None\<close> as soon as one of its accesses does (the \<open>option\<close> monad), so that a theorem
  \<open>op x = Some y\<close> states memory safety together with the functional behaviour.
\<close>

unbundle bit_operations_syntax

type_synonym byte = "8 word"

named_theorems mem_simps "accesses that stay inside of a memory block"
named_theorems le_simps "the little-endian layout of integers"

section \<open>Lists\<close>

lemma chunk_le: "i < n \<Longrightarrow> k + i * k \<le> n * (k :: nat)"
  using mult_le_mono1 [of "Suc i" n k] by simp

lemma length_oneE:
  assumes "length xs = Suc 0"
  obtains a where "xs = [a]"
  using assms by (cases xs) auto

lemma length_twoE:
  assumes "length xs = Suc (Suc 0)"
  obtains a b where "xs = [a, b]"
  using assms by (cases xs; cases "tl xs") auto

lemma length_concat_const:
  assumes "\<And>x. x \<in> set xs \<Longrightarrow> length (f x) = k"
  shows "length (concat (map f xs)) = length xs * k"
  using assms by (induction xs) auto

lemma take_concat_const:
  assumes "\<And>x. x \<in> set xs \<Longrightarrow> length (f x) = k"
  shows "take (i * k) (concat (map f xs)) = concat (map f (take i xs))"
  using assms
proof (induction xs arbitrary: i)
  case Nil
  then show ?case by simp
next
  case (Cons x xs)
  have len: "length (f x) = k" by (simp add: Cons.prems)
  show ?case
  proof (cases i)
    case 0
    then show ?thesis by simp
  next
    case (Suc j)
    have "take (j * k) (concat (map f xs)) = concat (map f (take j xs))"
      by (rule Cons.IH) (simp add: Cons.prems)
    with Suc len show ?thesis by simp
  qed
qed

lemma drop_concat_const:
  assumes "\<And>x. x \<in> set xs \<Longrightarrow> length (f x) = k"
  shows "drop (i * k) (concat (map f xs)) = concat (map f (drop i xs))"
  using assms
proof (induction xs arbitrary: i)
  case Nil
  then show ?case by simp
next
  case (Cons x xs)
  have len: "length (f x) = k" by (simp add: Cons.prems)
  show ?case
  proof (cases i)
    case 0
    then show ?thesis by simp
  next
    case (Suc j)
    have "drop (j * k) (concat (map f xs)) = concat (map f (drop j xs))"
      by (rule Cons.IH) (simp add: Cons.prems)
    with Suc len show ?thesis by simp
  qed
qed

lemma take_drop_concat_const:
  assumes "\<And>x. x \<in> set xs \<Longrightarrow> length (f x) = k" and "i < length xs"
  shows "take k (drop (i * k) (concat (map f xs))) = f (xs ! i)"
proof -
  have "drop (i * k) (concat (map f xs)) = concat (map f (drop i xs))"
    by (rule drop_concat_const) (rule assms(1))
  also have "\<dots> = f (xs ! i) @ concat (map f (drop (Suc i) xs))"
    using assms(2) by (simp flip: Cons_nth_drop_Suc)
  finally show ?thesis using assms by simp
qed

section \<open>Memory blocks\<close>

definition mem_read :: "'a list \<Rightarrow> nat \<Rightarrow> nat \<Rightarrow> 'a list option" where
  "mem_read m off n = (if off + n \<le> length m then Some (take n (drop off m)) else None)"

definition mem_write :: "'a list \<Rightarrow> nat \<Rightarrow> 'a list \<Rightarrow> 'a list option" where
  "mem_write m off bs =
     (if off + length bs \<le> length m
      then Some (take off m @ bs @ drop (off + length bs) m) else None)"

text \<open>\<open>memmove(m+dst, m+src, n)\<close> inside of one block: the regions may overlap.\<close>

definition mem_move :: "'a list \<Rightarrow> nat \<Rightarrow> nat \<Rightarrow> nat \<Rightarrow> 'a list option" where
  "mem_move m dst src n = do { bs \<leftarrow> mem_read m src n; mem_write m dst bs }"

text \<open>
  \<open>zrealloc\<close>: the bytes up to the smaller of both sizes are kept, the bytes of a grown
  block are unspecified (\<open>fill\<close> gives the value the allocator happens to leave there).
\<close>

definition zrealloc :: "(nat \<Rightarrow> 'a) \<Rightarrow> 'a list \<Rightarrow> nat \<Rightarrow> 'a list" where
  "zrealloc fill m n = take n m @ map fill [length m..<n]"

lemma mem_read_Some [mem_simps]:
  "off + n \<le> length m \<Longrightarrow> mem_read m off n = Some (take n (drop off m))"
  by (simp add: mem_read_def)

lemma mem_write_Some [mem_simps]:
  "off + length bs \<le> length m \<Longrightarrow>
   mem_write m off bs = Some (take off m @ bs @ drop (off + length bs) m)"
  by (simp add: mem_write_def)

lemma mem_write_append [mem_simps]:
  "length bs = length old \<Longrightarrow> off = length pre \<Longrightarrow>
   mem_write (pre @ old @ post) off bs = Some (pre @ bs @ post)"
  by (simp add: mem_write_def)

text \<open>Opening a gap before \<open>b\<close>, and closing one, inside of a block.\<close>

lemma mem_move_up [mem_simps]:
  assumes "src = length a" and "dst = length a + length j" and "n = length b"
  shows "mem_move (a @ b @ j) dst src n = Some (a @ take (length j) (b @ j) @ b)"
  using assms by (simp add: mem_move_def mem_read_def mem_write_def)

lemma mem_move_down [mem_simps]:
  assumes "dst = length a" and "src = length a + length x" and "n = length b"
  shows "mem_move (a @ x @ b) dst src n = Some (a @ b @ drop (length b) (x @ b))"
  using assms by (simp add: mem_move_def mem_read_def mem_write_def)

lemma mem_write_length [simp]: "mem_write m off bs = Some m' \<Longrightarrow> length m' = length m"
  by (auto simp: mem_write_def split: if_splits)

lemma length_zrealloc [simp]: "length (zrealloc fill m n) = n"
  by (simp add: zrealloc_def)

lemma zrealloc_shrink [mem_simps]: "n \<le> length m \<Longrightarrow> zrealloc fill m n = take n m"
  by (simp add: zrealloc_def)

lemma zrealloc_grow [mem_simps]:
  "length m \<le> n \<Longrightarrow> zrealloc fill m n = m @ map fill [length m..<n]"
  by (simp add: zrealloc_def)

section \<open>C integers\<close>

text \<open>Conversion to a signed 32-bit and 64-bit type keeps the value modulo the width.\<close>

definition s32 :: "int \<Rightarrow> int" where
  "s32 x = signed_take_bit 31 x"

definition s64 :: "int \<Rightarrow> int" where
  "s64 x = signed_take_bit 63 x"

lemma s32_id: "- (2 ^ 31) \<le> x \<Longrightarrow> x < 2 ^ 31 \<Longrightarrow> s32 x = x"
  unfolding s32_def by (rule signed_take_bit_int_eq_self) simp_all

lemma s64_id: "- (2 ^ 63) \<le> x \<Longrightarrow> x < 2 ^ 63 \<Longrightarrow> s64 x = x"
  unfolding s64_def by (rule signed_take_bit_int_eq_self) simp_all

text \<open>
  The bytes of an \<open>n\<close>-byte integer in memory, least significant first, and the values
  read back from them as an unsigned and as a two's complement integer.
\<close>

fun to_le :: "nat \<Rightarrow> int \<Rightarrow> byte list" where
  "to_le 0 v = []"
| "to_le (Suc n) v = word_of_int v # to_le n (v div 256)"

fun of_le :: "byte list \<Rightarrow> int" where
  "of_le [] = 0"
| "of_le (b # bs) = uint b + 256 * of_le bs"

definition of_le_signed :: "byte list \<Rightarrow> int" where
  "of_le_signed bs =
     (let u = of_le bs; w = 8 * length bs
      in if u < 2 ^ (w - 1) then u else u - 2 ^ w)"

lemma length_to_le [simp]: "length (to_le n v) = n"
  by (induction n arbitrary: v) auto

lemma of_le_bounds: "0 \<le> of_le bs \<and> of_le bs < 256 ^ length bs"
proof (induction bs)
  case Nil
  then show ?case by simp
next
  case (Cons b bs)
  have "0 \<le> uint b" and "uint b < 256"
    using uint_bounded [of b] by simp_all
  with Cons show ?case by simp
qed

lemma of_le_to_le [le_simps]: "of_le (to_le n v) = v mod 256 ^ n"
proof (induction n arbitrary: v)
  case 0
  then show ?case by simp
next
  case (Suc n)
  have "of_le (to_le (Suc n) v) = v mod 256 + 256 * (v div 256 mod 256 ^ n)"
    by (simp add: Suc uint_word_of_int)
  also have "\<dots> = v mod (256 * 256 ^ n)"
    by (simp add: zmod_zmult2_eq)
  finally show ?case by simp
qed

lemma to_le_of_le [le_simps]: "to_le (length bs) (of_le bs) = bs"
proof (induction bs)
  case Nil
  then show ?case by simp
next
  case (Cons b bs)
  have b: "uint b < 256" "0 \<le> uint b" using uint_bounded [of b] by simp_all
  have "uint (word_of_int (uint b + 256 * of_le bs) :: byte) = (uint b + 256 * of_le bs) mod 256"
    unfolding uint_word_of_int by simp
  with b have "word_of_int (uint b + 256 * of_le bs) = b"
    by (intro word_uint_eqI) simp
  moreover have "(uint b + 256 * of_le bs) div 256 = of_le bs"
    using b by simp
  ultimately show ?case using Cons by simp
qed

lemma pow256: "(256 :: int) ^ n = 2 ^ (8 * n)"
  by (simp add: power_mult)

definition fits_signed :: "nat \<Rightarrow> int \<Rightarrow> bool" where
  "fits_signed n v \<longleftrightarrow> - (2 ^ (8 * n - 1)) \<le> v \<and> v < 2 ^ (8 * n - 1)"

lemma of_le_signed_to_le [le_simps]:
  assumes "0 < n" and "fits_signed n v"
  shows "of_le_signed (to_le n v) = v"
proof -
  let ?h = "2 ^ (8 * n - 1) :: int"
  have w: "2 ^ (8 * n) = 2 * ?h"
    using assms(1) by (simp flip: power_Suc)
  have v: "- ?h \<le> v" "v < ?h" using assms(2) by (auto simp: fits_signed_def)
  show ?thesis
  proof (cases "0 \<le> v")
    case True
    then have "v mod 2 ^ (8 * n) = v" using v w by simp
    then show ?thesis using v by (simp add: of_le_signed_def of_le_to_le pow256 Let_def)
  next
    case False
    have "v mod 2 ^ (8 * n) = (v + 2 ^ (8 * n)) mod 2 ^ (8 * n)" by simp
    also have "\<dots> = v + 2 ^ (8 * n)"
      using v w False by (intro mod_pos_pos_trivial) simp_all
    finally show ?thesis using v w by (simp add: of_le_signed_def of_le_to_le pow256 Let_def)
  qed
qed

lemma fits_signed_mono: "n \<le> m \<Longrightarrow> fits_signed n v \<Longrightarrow> fits_signed m v"
proof -
  assume "n \<le> m" and v: "fits_signed n v"
  then have "(2 :: int) ^ (8 * n - 1) \<le> 2 ^ (8 * m - 1)"
    by (intro power_increasing) auto
  with v show ?thesis unfolding fits_signed_def by linarith
qed

end
