(* ===== verification/Interfaces.thy ===== *)
theory Interfaces
  imports Prelude
begin

text \<open>
  The contracts between the components, as locales. A locale fixes the operations a client
  calls and assumes what the provider promises; the theory of every provider interprets it
  on its own definitions.
\<close>

section \<open>Mutable sets\<close>

text \<open>
  The loop of \<open>saddCommand\<close> (\<open>t_set.c\<close>): apply an operation to each argument and count the
  calls that changed the set.
\<close>

fun count_each :: "('s \<Rightarrow> 'a \<Rightarrow> ('s \<times> bool) option) \<Rightarrow> 's \<Rightarrow> 'a list \<Rightarrow> ('s \<times> nat) option" where
  "count_each f s [] = Some (s, 0)"
| "count_each f s (x # xs) =
     do { (s, changed) \<leftarrow> f s x;
          (s, n) \<leftarrow> count_each f s xs;
          Some (s, (if changed then n + 1 else n)) }"

text \<open>
  \<open>ok\<close> are the values the implementation can hold, \<open>cap\<close> bounds how many of them it can.
  Every operation returns \<open>Some\<close>: no access outside of the structure's memory.
\<close>

locale set_impl =
  fixes invar :: "'s \<Rightarrow> bool"
    and elems :: "'s \<Rightarrow> 'a set"
    and ok :: "'a \<Rightarrow> bool"
    and cap :: nat
    and add :: "'s \<Rightarrow> 'a \<Rightarrow> ('s \<times> bool) option"
    and remove :: "'s \<Rightarrow> 'a \<Rightarrow> ('s \<times> bool) option"
    and is_member :: "'s \<Rightarrow> 'a \<Rightarrow> bool option"
  assumes finite_elems: "invar s \<Longrightarrow> finite (elems s)"
    and add_law: "invar s \<Longrightarrow> ok x \<Longrightarrow> Suc (card (elems s)) < cap \<Longrightarrow>
      \<exists>s'. add s x = Some (s', x \<notin> elems s) \<and> invar s' \<and> elems s' = insert x (elems s)"
    and remove_law: "invar s \<Longrightarrow> ok x \<Longrightarrow>
      \<exists>s'. remove s x = Some (s', x \<in> elems s) \<and> invar s' \<and> elems s' = elems s - {x}"
    and is_member_law: "invar s \<Longrightarrow> ok x \<Longrightarrow> is_member s x = Some (x \<in> elems s)"
begin

lemma add_each:
  assumes "invar s" and "\<forall>x \<in> set xs. ok x" and "card (elems s) + length xs < cap"
  shows "\<exists>s'. count_each add s xs = Some (s', card (set xs - elems s)) \<and> invar s' \<and>
    elems s' = elems s \<union> set xs"
  using assms
proof (induction xs arbitrary: s)
  case Nil
  then show ?case by simp
next
  case (Cons x xs)
  have "Suc (card (elems s)) < cap" and "ok x" using Cons.prems by simp_all
  then obtain s1 where s1: "add s x = Some (s1, x \<notin> elems s)" "invar s1"
    "elems s1 = insert x (elems s)"
    using add_law [OF Cons.prems(1)] by blast
  have fin: "finite (elems s)" by (rule finite_elems [OF Cons.prems(1)])
  have "card (elems s1) + length xs < cap"
    using Cons.prems(3) s1(3) card_insert_if [OF fin, of x] by (simp split: if_splits)
  then obtain s2 where s2: "count_each add s1 xs = Some (s2, card (set xs - elems s1))" "invar s2"
    "elems s2 = elems s1 \<union> set xs"
    using Cons.IH [OF s1(2)] Cons.prems(2) by auto
  have "card (set (x # xs) - elems s) =
      (if x \<notin> elems s then card (set xs - elems s1) + 1 else card (set xs - elems s1))"
  proof (cases "x \<in> elems s")
    case True
    then have "set (x # xs) - elems s = set xs - elems s1" using s1(3) by auto
    with True show ?thesis by simp
  next
    case False
    then have "set (x # xs) - elems s = insert x (set xs - elems s1)" using s1(3) by auto
    with False show ?thesis using s1(3) by simp
  qed
  with s1 s2 show ?case by auto
qed

lemma remove_each:
  assumes "invar s" and "\<forall>x \<in> set xs. ok x"
  shows "\<exists>s'. count_each remove s xs = Some (s', card (set xs \<inter> elems s)) \<and> invar s' \<and>
    elems s' = elems s - set xs"
  using assms
proof (induction xs arbitrary: s)
  case Nil
  then show ?case by simp
next
  case (Cons x xs)
  then obtain s1 where s1: "remove s x = Some (s1, x \<in> elems s)" "invar s1"
    "elems s1 = elems s - {x}"
    using remove_law [OF Cons.prems(1), of x] by auto
  then obtain s2 where s2: "count_each remove s1 xs = Some (s2, card (set xs \<inter> elems s1))"
    "invar s2" "elems s2 = elems s1 - set xs"
    using Cons.IH [OF s1(2)] Cons.prems(2) by auto
  have "card (set (x # xs) \<inter> elems s) =
      (if x \<in> elems s then card (set xs \<inter> elems s1) + 1 else card (set xs \<inter> elems s1))"
  proof (cases "x \<in> elems s")
    case True
    then have "set (x # xs) \<inter> elems s = insert x (set xs \<inter> elems s1)" using s1(3) by auto
    with True show ?thesis using s1(3) by simp
  next
    case False
    then have "set (x # xs) \<inter> elems s = set xs \<inter> elems s1" using s1(3) by auto
    with False show ?thesis by simp
  qed
  with s1 s2 show ?case by auto
qed

end

section \<open>Growing strings\<close>

text \<open>
  What the code that assembles a string piece by piece relies on: an append that keeps the
  invariant and adds the piece at the end, as long as the string stays below a quarter of the
  address space. \<open>append_each\<close> appends a list of pieces, \<open>join_loop\<close> is the loop shared by
  \<open>sdsjoin\<close> and \<open>sdsjoinsds\<close>.
\<close>

primrec append_each :: "('s \<Rightarrow> string \<Rightarrow> 's option) \<Rightarrow> 's \<Rightarrow> string list \<Rightarrow> 's option" where
  "append_each app s [] = Some s"
| "append_each app s (t # ts) = do { s \<leftarrow> app s t; append_each app s ts }"

primrec join_loop ::
  "('s \<Rightarrow> 'a \<Rightarrow> 's option) \<Rightarrow> ('s \<Rightarrow> 's option) \<Rightarrow> 's \<Rightarrow> 'a list \<Rightarrow> 's option" where
  "join_loop cat catsep join [] = Some join"
| "join_loop cat catsep join (a # argv) =
     do { join \<leftarrow> cat join a;
          join \<leftarrow> (if argv \<noteq> [] then catsep join else Some join);
          join_loop cat catsep join argv }"

fun separated :: "'b list \<Rightarrow> 'b list list \<Rightarrow> 'b list" where
  "separated sep [] = []"
| "separated sep [t] = t"
| "separated sep (t # ts) = t @ sep @ separated sep ts"

locale string_builder =
  fixes invar :: "'s \<Rightarrow> bool" and contents :: "'s \<Rightarrow> string"
    and append :: "'s \<Rightarrow> string \<Rightarrow> 's option"
  assumes append_law: "invar s \<Longrightarrow> length (contents s) + length t < 2 ^ 62 \<Longrightarrow>
    \<exists>s'. append s t = Some s' \<and> invar s' \<and> contents s' = contents s @ t"
begin

lemma append_each_correct:
  assumes "invar s" and "length (contents s) + length (concat ts) < 2 ^ 62"
  shows "\<exists>s'. append_each append s ts = Some s' \<and> invar s' \<and> contents s' = contents s @ concat ts"
  using assms
proof (induction ts arbitrary: s)
  case (Cons t ts)
  obtain s1 where s1: "append s t = Some s1" "invar s1" "contents s1 = contents s @ t"
    using append_law [of s t] Cons.prems by auto
  then show ?case using Cons.IH [of s1] Cons.prems by simp
qed simp

lemma join_loop_correct:
  assumes "\<And>s a. a \<in> set argv \<Longrightarrow> cat s a = append s (txt a)" and "\<And>s. catsep s = append s sep"
    and "invar s" and "length (contents s) + length (separated sep (map txt argv)) < 2 ^ 62"
  shows "\<exists>s'. join_loop cat catsep s argv = Some s' \<and> invar s' \<and>
    contents s' = contents s @ separated sep (map txt argv)"
  using assms
proof (induction argv arbitrary: s)
  case (Cons a argv)
  have len: "length (contents s) + length (txt a) < 2 ^ 62"
    using Cons.prems(4) by (cases argv) auto
  obtain s1 where s1: "append s (txt a) = Some s1" "invar s1" "contents s1 = contents s @ txt a"
    using append_law [OF Cons.prems(3) len] by blast
  show ?case
  proof (cases argv)
    case Nil
    then show ?thesis using s1 Cons.prems(1) by simp
  next
    case (Cons b bs)
    have sep: "separated sep (map txt (a # argv)) = txt a @ sep @ separated sep (map txt argv)"
      using Cons by simp
    have "length (contents s1) + length sep < 2 ^ 62"
      using Cons.prems(4) s1(3) unfolding sep by simp
    then obtain s2 where s2: "append s1 sep = Some s2" "invar s2" "contents s2 = contents s1 @ sep"
      using append_law [OF s1(2)] by blast
    have "\<exists>s'. join_loop cat catsep s2 argv = Some s' \<and> invar s' \<and>
        contents s' = contents s2 @ separated sep (map txt argv)"
    proof (rule Cons.IH)
      show "length (contents s2) + length (separated sep (map txt argv)) < 2 ^ 62"
        using Cons.prems(4) s1(3) s2(3) unfolding sep by simp
    qed (use Cons.prems(1,2) s2 in simp_all)
    moreover have "argv \<noteq> []" using Cons by simp
    ultimately show ?thesis
      using s1 s2 Cons.prems(1) [of a s] Cons.prems(2) [of s1] unfolding sep by auto
  qed
qed simp

end

section \<open>Keys of dictionaries\<close>

text \<open>
  What a dictionary relies on in the functions of its \<open>dictType\<close>: on the keys in use,
  \<open>keyCompare\<close> is an equivalence and equal keys have the same hash.
\<close>

locale dict_type =
  fixes valid :: "'k \<Rightarrow> bool" and hashFunction :: "'k \<Rightarrow> 64 word" and keyCompare :: "'k \<Rightarrow> 'k \<Rightarrow> bool"
  assumes cmp_refl: "valid a \<Longrightarrow> keyCompare a a"
    and cmp_sym: "valid a \<Longrightarrow> valid b \<Longrightarrow> keyCompare a b \<Longrightarrow> keyCompare b a"
    and cmp_trans: "valid a \<Longrightarrow> valid b \<Longrightarrow> valid c \<Longrightarrow> keyCompare a b \<Longrightarrow> keyCompare b c \<Longrightarrow> keyCompare a c"
    and cmp_hash: "valid a \<Longrightarrow> valid b \<Longrightarrow> keyCompare a b \<Longrightarrow> hashFunction a = hashFunction b"

end
