(* ===== verification/Intset.thy ===== *)
theory Intset
  imports Interfaces
begin

text \<open>
  The integer set of \<open>intset.c\<close>: a sorted array of integers, all stored at the width
  (2, 4 or 8 bytes) of the widest value ever added, in one heap block. The model works on
  the bytes of that block, on a little-endian host (where the \<open>intrev32ifbe\<close> and
  \<open>memrev*ifbe\<close> macros of \<open>endianconv.h\<close> do nothing).

  Values are C \<open>int64_t\<close>, modelled as \<open>int\<close>; the fields \<open>encoding\<close> and \<open>length\<close> are
  \<open>uint32_t\<close>, and products with them wrap modulo \<open>2 ^ 32\<close>, as in \<open>intsetResize\<close>.
\<close>

section \<open>The model\<close>

record intset =
  encoding :: nat
  is_length :: nat
  contents :: "byte list"

definition INTSET_ENC_INT16 :: nat where "INTSET_ENC_INT16 = 2"
definition INTSET_ENC_INT32 :: nat where "INTSET_ENC_INT32 = 4"
definition INTSET_ENC_INT64 :: nat where "INTSET_ENC_INT64 = 8"

lemmas enc_defs = INTSET_ENC_INT16_def INTSET_ENC_INT32_def INTSET_ENC_INT64_def

definition intsetValueEncoding :: "int \<Rightarrow> nat" where
  "intsetValueEncoding v =
     (if v < - (2 ^ 31) \<or> v > 2 ^ 31 - 1 then INTSET_ENC_INT64
      else if v < - (2 ^ 15) \<or> v > 2 ^ 15 - 1 then INTSET_ENC_INT32
      else INTSET_ENC_INT16)"

text \<open>Each branch of the C code reads \<open>sizeof\<close> bytes at \<open>pos\<close> elements of that size.\<close>

definition intsetGetEncoded :: "intset \<Rightarrow> nat \<Rightarrow> nat \<Rightarrow> int option" where
  "intsetGetEncoded is pos enc =
     (if enc = INTSET_ENC_INT64 then map_option of_le_signed (mem_read (contents is) (pos * 8) 8)
      else if enc = INTSET_ENC_INT32 then map_option of_le_signed (mem_read (contents is) (pos * 4) 4)
      else map_option of_le_signed (mem_read (contents is) (pos * 2) 2))"

definition intsetGet_at :: "intset \<Rightarrow> nat \<Rightarrow> int option" where
  "intsetGet_at is pos = intsetGetEncoded is pos (encoding is)"

definition intsetSet_at :: "intset \<Rightarrow> nat \<Rightarrow> int \<Rightarrow> intset option" where
  "intsetSet_at is pos value =
     do { c \<leftarrow> (if encoding is = INTSET_ENC_INT64
                 then mem_write (contents is) (pos * 8) (to_le 8 value)
                 else if encoding is = INTSET_ENC_INT32
                 then mem_write (contents is) (pos * 4) (to_le 4 value)
                 else mem_write (contents is) (pos * 2) (to_le 2 value));
          Some (is\<lparr>contents := c\<rparr>) }"

definition intsetNew :: intset where
  "intsetNew = \<lparr>encoding = INTSET_ENC_INT16, is_length = 0, contents = []\<rparr>"

definition intsetResize :: "(nat \<Rightarrow> byte) \<Rightarrow> intset \<Rightarrow> nat \<Rightarrow> intset" where
  "intsetResize fill is len =
     (let size = (len * encoding is) mod 2 ^ 32
      in is\<lparr>contents := zrealloc fill (contents is) size\<rparr>)"

text \<open>
  The binary search. \<open>None\<close> also stands for a search that does not return; the theorems
  below show that it returns on every well-formed set.
\<close>

partial_function (option) intsetSearch_loop ::
  "intset \<Rightarrow> int \<Rightarrow> int \<Rightarrow> int \<Rightarrow> int \<Rightarrow> int \<Rightarrow> (int \<times> int \<times> int) option" where
  "intsetSearch_loop is value mn mx mid cur =
     (if mx \<ge> mn then
        (let mid = ((mn + mx) mod 2 ^ 32) div 2
         in Option.bind (intsetGet_at is (nat mid)) (\<lambda>cur.
              if value > cur then intsetSearch_loop is value (mid + 1) mx mid cur
              else if value < cur then intsetSearch_loop is value mn (mid - 1) mid cur
              else Some (mn, mid, cur)))
      else Some (mn, mid, cur))"

definition intsetSearch :: "intset \<Rightarrow> int \<Rightarrow> (bool \<times> nat) option" where
  "intsetSearch is value =
     (let mx = s32 (int (is_length is) - 1)
      in if is_length is = 0 then Some (False, 0)
         else do {
           hi \<leftarrow> intsetGet_at is (nat mx);
           if value > hi then Some (False, is_length is)
           else do {
             lo \<leftarrow> intsetGet_at is 0;
             if value < lo then Some (False, 0)
             else do {
               (mn, mid, cur) \<leftarrow> intsetSearch_loop is value 0 mx (- 1) (- 1);
               if value = cur then Some (True, nat mid) else Some (False, nat mn) } } })"

text \<open>\<open>while(length--) _intsetSet(is,length+prepend,_intsetGetEncoded(is,length,curenc))\<close>\<close>

fun intsetUpgrade_loop :: "intset \<Rightarrow> nat \<Rightarrow> nat \<Rightarrow> nat \<Rightarrow> intset option" where
  "intsetUpgrade_loop is 0 prepend curenc = Some is"
| "intsetUpgrade_loop is (Suc len) prepend curenc =
     do { v \<leftarrow> intsetGetEncoded is len curenc;
          is' \<leftarrow> intsetSet_at is (len + prepend) v;
          intsetUpgrade_loop is' len prepend curenc }"

definition intsetUpgradeAndAdd :: "(nat \<Rightarrow> byte) \<Rightarrow> intset \<Rightarrow> int \<Rightarrow> intset option" where
  "intsetUpgradeAndAdd fill is value =
     (let curenc = encoding is;
          newenc = intsetValueEncoding value;
          len = is_length is;
          prepend = (if value < 0 then 1 else 0);
          is = is\<lparr>encoding := newenc\<rparr>;
          is = intsetResize fill is (is_length is + 1)
      in do {
           is \<leftarrow> intsetUpgrade_loop is len prepend curenc;
           is \<leftarrow> (if prepend \<noteq> 0 then intsetSet_at is 0 value
                   else intsetSet_at is (is_length is) value);
           Some (is\<lparr>is_length := (is_length is + 1) mod 2 ^ 32\<rparr>) })"

definition intsetMoveTail :: "intset \<Rightarrow> nat \<Rightarrow> nat \<Rightarrow> intset option" where
  "intsetMoveTail is from to =
     (let n = nat ((int (is_length is) - int from) mod 2 ^ 32);
          width = (if encoding is = INTSET_ENC_INT64 then 8
                   else if encoding is = INTSET_ENC_INT32 then 4 else 2)
      in do { c \<leftarrow> mem_move (contents is) (to * width) (from * width) ((n * width) mod 2 ^ 32);
              Some (is\<lparr>contents := c\<rparr>) })"

definition intsetAdd :: "(nat \<Rightarrow> byte) \<Rightarrow> intset \<Rightarrow> int \<Rightarrow> (intset \<times> bool) option" where
  "intsetAdd fill is value =
     (let valenc = intsetValueEncoding value
      in if valenc > encoding is
         then do { is \<leftarrow> intsetUpgradeAndAdd fill is value; Some (is, True) }
         else do {
           (found, pos) \<leftarrow> intsetSearch is value;
           if found then Some (is, False)
           else do {
             let is = intsetResize fill is (is_length is + 1);
             is \<leftarrow> (if pos < is_length is then intsetMoveTail is pos (pos + 1) else Some is);
             is \<leftarrow> intsetSet_at is pos value;
             Some (is\<lparr>is_length := (is_length is + 1) mod 2 ^ 32\<rparr>, True) } })"

definition intsetRemove :: "(nat \<Rightarrow> byte) \<Rightarrow> intset \<Rightarrow> int \<Rightarrow> (intset \<times> bool) option" where
  "intsetRemove fill is value =
     (let valenc = intsetValueEncoding value
      in if \<not> valenc \<le> encoding is then Some (is, False)
         else do {
           (found, pos) \<leftarrow> intsetSearch is value;
           if \<not> found then Some (is, False)
           else do {
             let len = is_length is;
             is \<leftarrow> (if pos < len - 1 then intsetMoveTail is (pos + 1) pos else Some is);
             let is = intsetResize fill is (len - 1);
             Some (is\<lparr>is_length := len - 1\<rparr>, True) } })"

definition intsetFind :: "intset \<Rightarrow> int \<Rightarrow> bool option" where
  "intsetFind is value =
     (let valenc = intsetValueEncoding value
      in if \<not> valenc \<le> encoding is then Some False
         else map_option fst (intsetSearch is value))"

text \<open>The value of \<open>rand()\<close> is an argument; the division by a zero length traps.\<close>

definition intsetRandom :: "nat \<Rightarrow> intset \<Rightarrow> int option" where
  "intsetRandom r is =
     (if is_length is = 0 then None else intsetGet_at is (r mod is_length is))"

definition intsetGet :: "intset \<Rightarrow> nat \<Rightarrow> int option option" where
  "intsetGet is pos =
     (if pos < is_length is then map_option Some (intsetGet_at is pos) else Some None)"

definition intsetLen :: "intset \<Rightarrow> nat" where
  "intsetLen is = is_length is"

definition intsetBlobLen :: "intset \<Rightarrow> nat" where
  "intsetBlobLen is = 8 + (is_length is * encoding is) mod 2 ^ 32"

section \<open>The sorted list of the values\<close>

text \<open>
  \<open>intset_values\<close> decodes the block; \<open>intset_inv\<close> is the invariant of the data structure:
  a valid width, a block of exactly the size of the values, and values that are strictly
  increasing. The bound on the length keeps the byte size of the block (at eight bytes a
  value) inside of the \<open>uint32_t\<close> that \<open>intsetResize\<close> computes it in.
\<close>

definition intset_values :: "intset \<Rightarrow> int list" where
  "intset_values is =
     map (\<lambda>i. of_le_signed (take (encoding is) (drop (i * encoding is) (contents is))))
       [0..<is_length is]"

definition intset_inv :: "intset \<Rightarrow> bool" where
  "intset_inv is \<longleftrightarrow>
     encoding is \<in> {2, 4, 8} \<and> length (contents is) = is_length is * encoding is \<and>
     is_length is < 2 ^ 29 \<and> sorted_wrt (<) (intset_values is)"

definition intset_rep :: "intset \<Rightarrow> int list \<Rightarrow> bool" where
  "intset_rep is xs \<longleftrightarrow>
     encoding is \<in> {2, 4, 8} \<and> is_length is = length xs \<and>
     contents is = concat (map (to_le (encoding is)) xs) \<and>
     (\<forall>x \<in> set xs. fits_signed (encoding is) x)"

lemma length_intset_values [simp]: "length (intset_values is) = is_length is"
  by (simp add: intset_values_def)

lemma intset_repD:
  assumes "intset_rep is xs"
  shows "intset_values is = xs"
proof (rule nth_equalityI)
  show "length (intset_values is) = length xs"
    using assms by (simp add: intset_rep_def)
next
  fix i assume "i < length (intset_values is)"
  then have i: "i < length xs" using assms by (simp add: intset_rep_def)
  let ?e = "encoding is"
  have "take ?e (drop (i * ?e) (contents is)) = to_le ?e (xs ! i)"
    using assms i by (simp add: intset_rep_def take_drop_concat_const)
  moreover have "fits_signed ?e (xs ! i)" "0 < ?e"
    using assms i by (auto simp: intset_rep_def)
  ultimately show "intset_values is ! i = xs ! i"
    using assms i by (simp add: intset_values_def of_le_signed_to_le intset_rep_def)
qed

lemma of_le_signed_fits:
  assumes "bs \<noteq> []"
  shows "fits_signed (length bs) (of_le_signed bs)"
proof -
  let ?h = "2 ^ (8 * length bs - 1) :: int"
  have "2 ^ (8 * length bs) = 2 * ?h"
    using assms by (cases bs) (simp_all flip: power_Suc)
  moreover have "0 \<le> of_le bs" "of_le bs < 2 ^ (8 * length bs)"
    using of_le_bounds [of bs] by (simp_all add: pow256)
  ultimately show ?thesis
    by (auto simp: fits_signed_def of_le_signed_def Let_def)
qed

lemma to_le_of_le_signed: "to_le (length bs) (of_le_signed bs) = bs"
proof -
  have "to_le n (v - 2 ^ (8 * n)) = to_le n v" for n v
  proof -
    have "length bs = n \<Longrightarrow> of_le bs mod 256 ^ n = of_le bs" for bs
      using of_le_bounds [of bs] by simp
    moreover have "of_le (to_le n (v - 2 ^ (8 * n))) = of_le (to_le n v)"
      by (simp add: of_le_to_le pow256)
    ultimately show ?thesis
      using to_le_of_le [of "to_le n (v - 2 ^ (8 * n))"] to_le_of_le [of "to_le n v"] by simp
  qed
  then show ?thesis by (simp add: of_le_signed_def Let_def to_le_of_le)
qed

lemma concat_chunks:
  assumes "length bs = n * k"
  shows "concat (map (\<lambda>i. take k (drop (i * k) bs)) [0..<n]) = bs"
  using assms
proof (induction n arbitrary: bs)
  case 0
  then show ?case by simp
next
  case (Suc n)
  have "concat (map (\<lambda>i. take k (drop (i * k) (take (n * k) bs))) [0..<n]) = take (n * k) bs"
    using Suc.prems by (intro Suc.IH) simp
  moreover have "map (\<lambda>i. take k (drop (i * k) (take (n * k) bs))) [0..<n] =
      map (\<lambda>i. take k (drop (i * k) bs)) [0..<n]"
  proof (rule map_cong [OF refl])
    fix i assume "i \<in> set [0..<n]"
    then have "k + i * k \<le> n * k" by (simp add: chunk_le)
    then have "k \<le> n * k - i * k" by linarith
    then show "take k (drop (i * k) (take (n * k) bs)) = take k (drop (i * k) bs)"
      by (simp only: drop_take take_take min.absorb1)
  qed
  moreover have "take k (drop (n * k) bs) = drop (n * k) bs"
    using Suc.prems by simp
  ultimately show ?case by simp
qed

lemma intset_inv_rep:
  assumes "intset_inv is"
  shows "intset_rep is (intset_values is)"
proof -
  let ?e = "encoding is" and ?n = "is_length is"
  let ?ch = "\<lambda>i. take ?e (drop (i * ?e) (contents is))"
  have e: "?e \<in> {2, 4, 8}" and len: "length (contents is) = ?n * ?e"
    using assms by (auto simp: intset_inv_def)
  have ch: "length (?ch i) = ?e" if "i < ?n" for i
  proof -
    have "?e + i * ?e \<le> ?n * ?e" using that by (rule chunk_le)
    then show ?thesis using len by simp
  qed
  have "map (to_le ?e) (intset_values is) = map ?ch [0..<?n]"
    unfolding intset_values_def map_map
  proof (rule map_cong [OF refl])
    fix i assume "i \<in> set [0..<?n]"
    then have "length (?ch i) = ?e" using ch by simp
    then show "(to_le ?e \<circ> (\<lambda>i. of_le_signed (?ch i))) i = ?ch i"
      using to_le_of_le_signed [of "?ch i"] by simp
  qed
  then have "contents is = concat (map (to_le ?e) (intset_values is))"
    using concat_chunks [OF len] by simp
  moreover have "fits_signed ?e x" if "x \<in> set (intset_values is)" for x
  proof -
    from that obtain i where i: "i < ?n" and x: "x = of_le_signed (?ch i)"
      by (auto simp: intset_values_def)
    have "length (?ch i) \<noteq> 0" using e unfolding ch [OF i] by auto
    then have "fits_signed (length (?ch i)) (of_le_signed (?ch i))"
      by (intro of_le_signed_fits) simp
    then show ?thesis unfolding x ch [OF i] .
  qed
  ultimately show ?thesis using e by (simp add: intset_rep_def)
qed

lemma intset_inv_iff:
  "intset_inv is \<longleftrightarrow>
     (\<exists>xs. intset_rep is xs \<and> sorted_wrt (<) xs \<and> length xs < 2 ^ 29)"
proof
  assume "intset_inv is"
  moreover from this have "intset_rep is (intset_values is)" by (rule intset_inv_rep)
  ultimately show "\<exists>xs. intset_rep is xs \<and> sorted_wrt (<) xs \<and> length xs < 2 ^ 29"
    by (intro exI [of _ "intset_values is"]) (simp add: intset_inv_def)
next
  assume "\<exists>xs. intset_rep is xs \<and> sorted_wrt (<) xs \<and> length xs < 2 ^ 29"
  then obtain xs where xs: "intset_rep is xs" "sorted_wrt (<) xs" "length xs < 2 ^ 29" by blast
  moreover have "length (contents is) = length xs * encoding is"
    using xs(1) by (simp add: intset_rep_def length_concat_const)
  ultimately show "intset_inv is"
    using intset_repD [OF xs(1)] by (simp add: intset_inv_def intset_rep_def)
qed

section \<open>Element access\<close>

lemma intsetGetEncoded_eq:
  "enc \<in> {2, 4, 8} \<Longrightarrow>
   intsetGetEncoded is pos enc = map_option of_le_signed (mem_read (contents is) (pos * enc) enc)"
  by (auto simp: intsetGetEncoded_def enc_defs)

lemma intsetSet_at_eq:
  "encoding is \<in> {2, 4, 8} \<Longrightarrow>
   intsetSet_at is pos value =
     map_option (\<lambda>c. is\<lparr>contents := c\<rparr>)
       (mem_write (contents is) (pos * encoding is) (to_le (encoding is) value))"
  by (cases "mem_write (contents is) (pos * encoding is) (to_le (encoding is) value)")
     (auto simp: intsetSet_at_def enc_defs simp del: to_le.simps)

lemma intsetGetEncoded_prefix:
  assumes "enc \<in> {2, 4, 8}" and "contents is = concat (map (to_le enc) xs) @ rest"
    and "i < length xs" and "fits_signed enc (xs ! i)"
  shows "intsetGetEncoded is i enc = Some (xs ! i)"
proof -
  have le: "enc + i * enc \<le> length xs * enc" using assms(3) by (rule chunk_le)
  have len: "length (concat (map (to_le enc) xs)) = length xs * enc"
    by (simp add: length_concat_const)
  have "take enc (drop (i * enc) (contents is)) = to_le enc (xs ! i)"
    using le len assms(3) by (simp add: assms(2) take_drop_concat_const)
  moreover have "i * enc + enc \<le> length (contents is)"
    using le len assms(2) by simp
  moreover have "0 < enc" using assms(1) by auto
  ultimately show ?thesis
    using assms by (simp add: intsetGetEncoded_eq mem_read_Some of_le_signed_to_le)
qed

lemma intsetGet_at_rep:
  "intset_rep is xs \<Longrightarrow> i < length xs \<Longrightarrow> intsetGet_at is i = Some (xs ! i)"
  unfolding intsetGet_at_def
  by (rule intsetGetEncoded_prefix [where rest = "[]"]) (auto simp: intset_rep_def)

section \<open>Search\<close>

text \<open>
  \<open>slot xs v p\<close>: \<open>p\<close> is the position of \<open>v\<close> in the sorted list, or the one at which
  \<open>v\<close> is to be inserted.
\<close>

definition slot :: "int list \<Rightarrow> int \<Rightarrow> nat \<Rightarrow> bool" where
  "slot xs v p \<longleftrightarrow> p \<le> length xs \<and> (\<forall>x \<in> set (take p xs). x < v) \<and> (\<forall>x \<in> set (drop p xs). v < x)"

lemma slotI:
  assumes "p \<le> length xs" and "\<And>i. i < p \<Longrightarrow> xs ! i < v"
    and "\<And>i. p \<le> i \<Longrightarrow> i < length xs \<Longrightarrow> v < xs ! i"
  shows "slot xs v p"
proof -
  have "x < v" if "x \<in> set (take p xs)" for x
    using that assms(1,2) by (auto simp: in_set_conv_nth)
  moreover have "v < x" if "x \<in> set (drop p xs)" for x
  proof -
    from that obtain i where "i < length xs - p" "x = xs ! (p + i)"
      by (auto simp: in_set_conv_nth)
    then show ?thesis using assms(3) [of "p + i"] by simp
  qed
  ultimately show ?thesis using assms(1) by (simp add: slot_def)
qed

text \<open>What the loop leaves in \<open>min\<close>, \<open>mid\<close> and \<open>cur\<close>.\<close>

definition search_result :: "int list \<Rightarrow> int \<Rightarrow> int \<times> int \<times> int \<Rightarrow> bool" where
  "search_result xs v r = (case r of (mn, mid, cur) \<Rightarrow>
     if cur = v then 0 \<le> mid \<and> nat mid < length xs \<and> xs ! nat mid = v
     else 0 \<le> mn \<and> slot xs v (nat mn))"

lemma strict_sorted_nth_le:
  "sorted_wrt (<) xs \<Longrightarrow> i \<le> j \<Longrightarrow> j < length xs \<Longrightarrow> xs ! i \<le> (xs ! j :: int)"
  by (cases "i = j") (auto dest: sorted_wrt_nth_less [of "(<)" xs i j])

lemma intsetSearch_loop_correct:
  assumes rep: "intset_rep is xs" and srt: "sorted_wrt (<) xs" and len: "length xs < 2 ^ 29"
    and "0 \<le> mn" and "mx < int (length xs)" and "mn \<le> mx + 1"
    and lo: "\<And>i. int i < mn \<Longrightarrow> xs ! i < v"
    and hi: "\<And>i. mx < int i \<Longrightarrow> i < length xs \<Longrightarrow> v < xs ! i"
    and cur: "mn \<le> mx \<or> cur \<noteq> v"
  shows "\<exists>r. intsetSearch_loop is v mn mx mid cur = Some r \<and> search_result xs v r"
  using assms(4-)
proof (induction "nat (mx - mn + 1)" arbitrary: mn mx mid cur rule: less_induct)
  case less
  show ?case
  proof (cases "mn \<le> mx")
    case False
    have "slot xs v (nat mn)"
    proof (rule slotI)
      show "nat mn \<le> length xs" using False less.prems by simp
    next
      fix i assume "i < nat mn"
      then show "xs ! i < v" using less.prems(4) by simp
    next
      fix i assume "nat mn \<le> i" "i < length xs"
      then show "v < xs ! i" using False less.prems(1,5) by simp
    qed
    then have "search_result xs v (mn, mid, cur)"
      using False less.prems by (simp add: search_result_def)
    moreover have "intsetSearch_loop is v mn mx mid cur = Some (mn, mid, cur)"
      using False by (subst intsetSearch_loop.simps) simp
    ultimately show ?thesis by blast
  next
    case True
    define m where "m = (mn + mx) div 2"
    have m: "mn \<le> m" "m \<le> mx" using True by (auto simp: m_def)
    have "int (length xs) < 2 ^ 29" using len by simp
    then have "0 \<le> mn + mx" "mn + mx < 2 ^ 32"
      using less.prems True by simp_all
    then have mid: "((mn + mx) mod 2 ^ 32) div 2 = m" by (simp add: m_def)
    have ml: "nat m < length xs" using m less.prems by linarith
    then have get: "intsetGet_at is (nat m) = Some (xs ! nat m)"
      by (rule intsetGet_at_rep [OF rep])
    have step: "intsetSearch_loop is v mn mx mid cur =
      (if v > xs ! nat m then intsetSearch_loop is v (m + 1) mx m (xs ! nat m)
       else if v < xs ! nat m then intsetSearch_loop is v mn (m - 1) m (xs ! nat m)
       else Some (mn, m, xs ! nat m))"
      using True by (subst intsetSearch_loop.simps) (simp only: mid get Let_def if_True bind.bind_lunit)
    consider (gt) "v > xs ! nat m" | (lt) "v < xs ! nat m" | (eq) "v = xs ! nat m"
      by linarith
    then show ?thesis
    proof cases
      case gt
      have "\<exists>r. intsetSearch_loop is v (m + 1) mx m (xs ! nat m) = Some r \<and> search_result xs v r"
      proof (rule less.hyps)
        fix i assume "int i < m + 1"
        then have "xs ! i \<le> xs ! nat m"
          using strict_sorted_nth_le [OF srt _ ml] by simp
        with gt show "xs ! i < v" by simp
      next
        show "v < xs ! i" if "mx < int i" "i < length xs" for i
          using that by (rule less.prems(5))
      qed (use less.prems(1-3) m gt in simp_all)
      with gt show ?thesis unfolding step by simp
    next
      case lt
      have "\<exists>r. intsetSearch_loop is v mn (m - 1) m (xs ! nat m) = Some r \<and> search_result xs v r"
      proof (rule less.hyps)
        fix i assume i: "m - 1 < int i" "i < length xs"
        then have "xs ! nat m \<le> xs ! i"
          using strict_sorted_nth_le [OF srt _ i(2)] by simp
        with lt show "v < xs ! i" by simp
      next
        show "xs ! i < v" if "int i < mn" for i
          using that by (rule less.prems(4))
      qed (use less.prems(1-3) m lt in simp_all)
      with lt show ?thesis unfolding step by simp
    next
      case eq
      then show ?thesis
        using m ml less.prems(1) unfolding step by (simp add: search_result_def)
    qed
  qed
qed

lemma intsetSearch_correct:
  assumes rep: "intset_rep is xs" and srt: "sorted_wrt (<) xs" and len: "length xs < 2 ^ 29"
  shows "\<exists>p. intsetSearch is v = Some (v \<in> set xs, p) \<and>
    (if v \<in> set xs then p < length xs \<and> xs ! p = v else slot xs v p)"
proof (cases "xs = []")
  case True
  then show ?thesis
    using rep by (simp add: intsetSearch_def intset_rep_def slot_def Let_def)
next
  case False
  have il: "is_length is = length xs" using rep by (simp add: intset_rep_def)
  have "int (length xs) < 2 ^ 29" using len by simp
  then have mx: "s32 (int (length xs) - 1) = int (length xs) - 1"
    by (intro s32_id) simp_all
  have last: "nat (int (length xs) - 1) = length xs - Suc 0" "length xs - Suc 0 < length xs"
    using False by (simp_all add: nat_diff_distrib)
  have hi: "intsetGet_at is (length xs - Suc 0) = Some (xs ! (length xs - Suc 0))"
    and lo: "intsetGet_at is 0 = Some (xs ! 0)"
    using False last by (simp_all add: intsetGet_at_rep [OF rep])
  have bounds: "xs ! 0 \<le> x \<and> x \<le> xs ! (length xs - Suc 0)" if "x \<in> set xs" for x
    using that strict_sorted_nth_le [OF srt] by (force simp: in_set_conv_nth)
  consider (above) "v > xs ! (length xs - Suc 0)" | (below) "v < xs ! 0"
    | (inside) "xs ! 0 \<le> v" "v \<le> xs ! (length xs - Suc 0)" by linarith
  then show ?thesis
  proof cases
    case above
    then have "intsetSearch is v = Some (False, length xs)"
      using False by (simp add: intsetSearch_def il mx last hi)
    moreover have "v \<notin> set xs" "slot xs v (length xs)"
      using above bounds by (force simp: slot_def)+
    ultimately show ?thesis by simp
  next
    case below
    have "xs ! 0 \<le> xs ! (length xs - Suc 0)" using bounds False by simp
    with below have "intsetSearch is v = Some (False, 0)"
      using False by (simp add: intsetSearch_def il mx last hi lo)
    moreover have "v \<notin> set xs" "slot xs v 0"
      using below bounds by (force simp: slot_def)+
    ultimately show ?thesis by simp
  next
    case inside
    have "\<exists>r. intsetSearch_loop is v 0 (int (length xs) - 1) (- 1) (- 1) = Some r \<and>
        search_result xs v r"
      using False by (intro intsetSearch_loop_correct [OF rep srt len]) auto
    then obtain mn mid cur where
      r: "intsetSearch_loop is v 0 (int (length xs) - 1) (- 1) (- 1) = Some (mn, mid, cur)"
      "search_result xs v (mn, mid, cur)" by (metis prod_cases3)
    have res: "intsetSearch is v = Some (if v = cur then (True, nat mid) else (False, nat mn))"
      using False inside by (simp add: intsetSearch_def il mx last hi lo r(1))
    show ?thesis
    proof (cases "cur = v")
      case True
      then have "v \<in> set xs" using r(2) by (auto simp: search_result_def)
      with True r(2) res show ?thesis by (simp add: search_result_def)
    next
      case ne: False
      then have s: "slot xs v (nat mn)" using r(2) by (simp add: search_result_def)
      then have "v \<notin> set xs"
        unfolding slot_def by (metis append_take_drop_id Un_iff set_append less_irrefl)
      with ne s res show ?thesis by auto
    qed
  qed
qed

lemma slot_insert:
  assumes "slot xs v p" and "sorted_wrt (<) xs"
  shows "sorted_wrt (<) (take p xs @ v # drop p xs)"
    and "set (take p xs @ v # drop p xs) = insert v (set xs)"
    and "length (take p xs @ v # drop p xs) = Suc (length xs)"
proof -
  have "sorted_wrt (<) (take p xs @ drop p xs)" using assms(2) by simp
  then have "\<forall>x \<in> set (take p xs). \<forall>y \<in> set (drop p xs). x < y"
    and "sorted_wrt (<) (take p xs)" and "sorted_wrt (<) (drop p xs)"
    unfolding sorted_wrt_append by blast+
  with assms(1) show "sorted_wrt (<) (take p xs @ v # drop p xs)"
    by (auto simp: slot_def sorted_wrt_append)
  show "set (take p xs @ v # drop p xs) = insert v (set xs)"
    by (metis Un_insert_right append_take_drop_id list.simps(15) set_append)
  show "length (take p xs @ v # drop p xs) = Suc (length xs)" using assms(1) by (simp add: slot_def)
qed

lemma nth_remove:
  assumes "sorted_wrt (<) xs" and "p < length xs" and "xs ! p = v"
  shows "sorted_wrt (<) (take p xs @ drop (Suc p) xs)"
    and "set (take p xs @ drop (Suc p) xs) = set xs - {v :: int}"
    and "length (take p xs @ drop (Suc p) xs) = length xs - 1"
proof -
  let ?ys = "take p xs @ v # drop (Suc p) xs"
  have xs: "xs = ?ys" using id_take_nth_drop [OF assms(2)] assms(3) by simp
  then have srt: "sorted_wrt (<) ?ys" using assms(1) by metis
  then show "sorted_wrt (<) (take p xs @ drop (Suc p) xs)"
    by (simp add: sorted_wrt_append)
  have "set (take p xs @ drop (Suc p) xs) = set ?ys - {v}"
    using srt by (auto simp: sorted_wrt_append)
  then show "set (take p xs @ drop (Suc p) xs) = set xs - {v}" by (metis xs)
  show "length (take p xs @ drop (Suc p) xs) = length xs - 1" using assms(2) by simp
qed

section \<open>Insertion and deletion\<close>

lemma valueEncoding_le_iff:
  assumes "enc \<in> {2, 4, 8}" and "fits_signed 8 v"
  shows "intsetValueEncoding v \<le> enc \<longleftrightarrow> fits_signed enc v"
  using assms by (auto simp: intsetValueEncoding_def enc_defs fits_signed_def)

lemma valueEncoding_range: "intsetValueEncoding v \<in> {2, 4, 8}"
  by (simp add: intsetValueEncoding_def enc_defs)

lemma intsetMoveTail_eq:
  assumes "encoding is \<in> {2, 4, 8}" and "from \<le> is_length is" and "is_length is < 2 ^ 29"
  shows "intsetMoveTail is from to =
    map_option (\<lambda>c. is\<lparr>contents := c\<rparr>)
      (mem_move (contents is) (to * encoding is) (from * encoding is)
         ((is_length is - from) * encoding is))"
proof -
  have "int (is_length is) < 2 ^ 29" using assms(3) by simp
  then have n: "nat ((int (is_length is) - int from) mod 2 ^ 32) = is_length is - from"
    using assms(2) by (simp add: nat_diff_distrib flip: of_nat_diff)
  have w: "(if encoding is = INTSET_ENC_INT64 then 8
            else if encoding is = INTSET_ENC_INT32 then 4 else 2) = encoding is"
    using assms(1) by (auto simp: enc_defs)
  have "(is_length is - from) * encoding is \<le> (is_length is - from) * 8"
    using assms(1) by auto
  also have "\<dots> < 2 ^ 32" using assms(3) by simp
  finally have b: "(is_length is - from) * encoding is mod 2 ^ 32 = (is_length is - from) * encoding is"
    by simp
  show ?thesis
    unfolding intsetMoveTail_def Let_def n w b
    by (cases "mem_move (contents is) (to * encoding is) (from * encoding is)
         ((is_length is - from) * encoding is)") simp_all
qed

lemma intsetResize_rep:
  assumes "intset_rep is xs" and "len * 8 < 2 ^ 32"
  shows "intsetResize fill is len =
    is\<lparr>contents := zrealloc fill (contents is) (len * encoding is)\<rparr>"
proof -
  have "len * encoding is \<le> len * 8" using assms(1) by (auto simp: intset_rep_def)
  with assms(2) have "len * encoding is < 2 ^ 32" by linarith
  then show ?thesis by (simp add: intsetResize_def)
qed

abbreviation enc_list :: "nat \<Rightarrow> int list \<Rightarrow> byte list" where
  "enc_list e xs \<equiv> concat (map (to_le e) xs)"

lemma length_enc_list [simp]: "length (enc_list e xs) = length xs * e"
  by (simp add: length_concat_const)

lemma intset_insert_at:
  fixes fill :: "nat \<Rightarrow> byte"
  assumes rep: "intset_rep is xs" and p: "p \<le> length xs" and len: "Suc (length xs) < 2 ^ 29"
    and v: "fits_signed (encoding is) v"
  defines "is1 \<equiv> intsetResize fill is (is_length is + 1)"
  shows "\<exists>is2 is3. (if p < is_length is1 then intsetMoveTail is1 p (p + 1) else Some is1) = Some is2 \<and>
    intsetSet_at is2 p v = Some is3 \<and>
    intset_rep (is3\<lparr>is_length := (is_length is3 + 1) mod 2 ^ 32\<rparr>) (take p xs @ v # drop p xs)"
proof -
  let ?e = "encoding is" and ?n = "length xs"
  let ?a = "enc_list ?e (take p xs)" and ?b = "enc_list ?e (drop p xs)"
  have e: "?e \<in> {2, 4, 8}" and n: "is_length is = ?n"
    and c: "contents is = ?a @ ?b" and fit: "\<forall>x \<in> set xs. fits_signed ?e x"
    using rep by (auto simp: intset_rep_def simp flip: concat_append map_append)
  define j where "j = map fill [length (contents is)..<Suc ?n * ?e]"
  have lc: "length (contents is) = ?n * ?e" using rep by (simp add: intset_rep_def)
  have lj: "length j = ?e" by (simp add: j_def lc)
  have is1: "is1 = is\<lparr>contents := ?a @ ?b @ j\<rparr>"
    using len lc c unfolding is1_def n
    by (simp add: intsetResize_rep [OF rep] zrealloc_grow j_def)
  have la: "length ?a = p * ?e" using p by simp
  define x where "x = (if p < ?n then take ?e (?b @ j) else j)"
  have "?e \<le> (?n - p) * ?e + ?e" by simp
  then have lx: "length x = ?e" by (auto simp: x_def lj)
  have mv: "(if p < is_length is1 then intsetMoveTail is1 p (p + 1) else Some is1) =
      Some (is\<lparr>contents := ?a @ x @ ?b\<rparr>)"
  proof (cases "p < ?n")
    case True
    have "mem_move (?a @ ?b @ j) ((p + 1) * ?e) (p * ?e) ((?n - p) * ?e) =
        Some (?a @ take (length j) (?b @ j) @ ?b)"
      by (rule mem_move_up) (use p lj in simp_all)
    with True show ?thesis
      using e n len by (simp add: is1 intsetMoveTail_eq x_def lj)
  next
    case False
    then show ?thesis using n p by (simp add: is1 x_def)
  qed
  have st: "intsetSet_at (is\<lparr>contents := ?a @ x @ ?b\<rparr>) p v =
      Some (is\<lparr>contents := ?a @ to_le ?e v @ ?b\<rparr>)"
    using e lx mem_write_append [where pre = ?a and old = x and post = ?b and bs = "to_le ?e v"] p
    by (simp add: intsetSet_at_eq)
  have "intset_rep (is\<lparr>contents := ?a @ to_le ?e v @ ?b, is_length := Suc ?n mod 2 ^ 32\<rparr>)
      (take p xs @ v # drop p xs)"
    using e fit v p len by (auto simp: intset_rep_def dest: in_set_takeD in_set_dropD)
  with mv st show ?thesis by (simp add: n)
qed

lemma intset_remove_at:
  fixes fill :: "nat \<Rightarrow> byte"
  assumes rep: "intset_rep is xs" and p: "p < length xs" and len: "length xs < 2 ^ 29"
  shows "\<exists>is2. (if p < is_length is - 1 then intsetMoveTail is (p + 1) p else Some is) = Some is2 \<and>
    intset_rep ((intsetResize fill is2 (is_length is - 1))\<lparr>is_length := is_length is - 1\<rparr>)
      (take p xs @ drop (Suc p) xs)"
proof -
  let ?e = "encoding is" and ?n = "length xs"
  let ?a = "enc_list ?e (take p xs)" and ?x = "to_le ?e (xs ! p)"
    and ?b = "enc_list ?e (drop (Suc p) xs)"
  have e: "?e \<in> {2, 4, 8}" and n: "is_length is = ?n" and c0: "contents is = enc_list ?e xs"
    and fit: "\<forall>x \<in> set xs. fits_signed ?e x"
    using rep by (auto simp: intset_rep_def)
  have c: "contents is = ?a @ ?x @ ?b"
    unfolding c0 by (subst (1) id_take_nth_drop [OF p]) simp
  have la: "length ?a = p * ?e" using p by simp
  have lb: "length ?b = (?n - Suc p) * ?e" by simp
  define y where "y = (if p < ?n - 1 then ?b @ drop (length ?b) (?x @ ?b) else ?x @ ?b)"
  have mv: "(if p < is_length is - 1 then intsetMoveTail is (p + 1) p else Some is) =
      Some (is\<lparr>contents := ?a @ y\<rparr>)"
  proof (cases "p < ?n - 1")
    case True
    have "mem_move (?a @ ?x @ ?b) (p * ?e) ((p + 1) * ?e) ((?n - (p + 1)) * ?e) =
        Some (?a @ ?b @ drop (length ?b) (?x @ ?b))"
      by (rule mem_move_down) (use p in simp_all)
    with True show ?thesis
      using e n len c by (simp add: intsetMoveTail_eq y_def)
  next
    case False
    then show ?thesis using n c by (simp add: y_def)
  qed
  have "take (length ?b) y = ?b"
    using p by (auto simp: y_def)
  then have tk: "take ((?n - 1) * ?e) (?a @ y) = ?a @ ?b"
  proof -
    have "(?n - 1) * ?e = length ?a + length ?b"
      using p unfolding la lb by (simp flip: add_mult_distrib)
    then show ?thesis using \<open>take (length ?b) y = ?b\<close> by (simp only: take_add) simp
  qed
  have ly: "length (?a @ y) = ?n * ?e"
  proof -
    have "length y = length ?x + length ?b" by (simp add: y_def del: drop_append)
    then show ?thesis using c c0 by (metis length_append length_enc_list)
  qed
  have sz: "(?n - 1) * ?e < 2 ^ 32" and le: "(?n - 1) * ?e \<le> ?n * ?e"
  proof -
    have "(?n - 1) * ?e \<le> ?n * 8" using e by (intro mult_mono) auto
    also have "\<dots> < 2 ^ 32" using len by simp
    finally show "(?n - 1) * ?e < 2 ^ 32" .
  qed simp
  have "intsetResize fill (is\<lparr>contents := ?a @ y\<rparr>) (?n - 1) = is\<lparr>contents := ?a @ ?b\<rparr>"
    using sz le ly tk by (simp add: intsetResize_def zrealloc_shrink)
  moreover have "intset_rep (is\<lparr>contents := ?a @ ?b, is_length := ?n - 1\<rparr>)
      (take p xs @ drop (Suc p) xs)"
    using e fit p by (auto simp: intset_rep_def dest: in_set_takeD in_set_dropD)
  ultimately show ?thesis using mv by (simp add: n)
qed

section \<open>Widening\<close>

lemma intsetUpgrade_loop_correct:
  assumes "curenc \<in> {2, 4, 8}" and "newenc \<in> {2, 4, 8}" and "curenc \<le> newenc"
    and "\<forall>x \<in> set xs. fits_signed curenc x"
    and "n \<le> length xs" and "encoding is = newenc"
    and "contents is = enc_list curenc (take n xs) @ m @ enc_list newenc (drop n xs) @ post"
    and "length m = (n + prepend) * newenc - n * curenc"
  shows "\<exists>m'. intsetUpgrade_loop is n prepend curenc =
      Some (is\<lparr>contents := m' @ enc_list newenc xs @ post\<rparr>) \<and> length m' = prepend * newenc"
  using assms(5-)
proof (induction n arbitrary: "is" m)
  case 0
  moreover from this have "is\<lparr>contents := m @ enc_list newenc xs @ post\<rparr> = is" by simp
  ultimately show ?case by (metis add.left_neutral diff_zero intsetUpgrade_loop.simps(1) mult_zero_left)
next
  case (Suc n)
  let ?post = "enc_list newenc (drop (Suc n) xs) @ post"
  have n: "n < length xs" using Suc.prems(1) by simp
  have read: "intsetGetEncoded is n curenc = Some (xs ! n)"
  proof -
    have "intsetGetEncoded is n curenc = Some (take (Suc n) xs ! n)"
      using assms(1,4) n Suc.prems(3)
      by (intro intsetGetEncoded_prefix [where rest = "m @ ?post"]) simp_all
    then show ?thesis by simp
  qed
  have le: "n * curenc \<le> (n + prepend) * newenc" "Suc n * curenc \<le> (Suc n + prepend) * newenc"
    using assms(3) by (intro mult_le_mono; simp)+
  let ?front = "enc_list curenc (take (Suc n) xs) @ m"
  have lf: "length ?front = (n + prepend) * newenc + newenc"
    using Suc.prems(1,4) le(2) by simp
  let ?old = "drop ((n + prepend) * newenc) ?front"
  have tn: "take (n * curenc) ?front = enc_list curenc (take n xs)"
  proof -
    have "take (n * curenc) (enc_list curenc (take (Suc n) xs)) = enc_list curenc (take n xs)"
      by (subst take_concat_const) (simp_all add: min_def)
    moreover have "n * curenc \<le> length (enc_list curenc (take (Suc n) xs))"
      using n by simp
    ultimately show ?thesis by simp
  qed
  have "take (n * curenc) (take ((n + prepend) * newenc) ?front) = enc_list curenc (take n xs)"
    using tn le(1) by (simp only: take_take min.absorb1)
  then obtain m2 where pre: "take ((n + prepend) * newenc) ?front = enc_list curenc (take n xs) @ m2"
    by (metis append_take_drop_id)
  have "contents is = (take ((n + prepend) * newenc) ?front) @ ?old @ ?post"
    using Suc.prems(3) by (simp only: append.assoc [symmetric] append_take_drop_id)
  moreover have "length ?old = newenc" using lf by simp
  moreover have "length (take ((n + prepend) * newenc) ?front) = (n + prepend) * newenc"
    using lf by simp
  ultimately have wr: "mem_write (contents is) ((n + prepend) * newenc) (to_le newenc (xs ! n)) =
      Some (take ((n + prepend) * newenc) ?front @ to_le newenc (xs ! n) @ ?post)"
    by (simp add: mem_write_append del: take_append drop_append)
  let ?s2 = "is\<lparr>contents := enc_list curenc (take n xs) @ m2 @ enc_list newenc (drop n xs) @ post\<rparr>"
  have "to_le newenc (xs ! n) @ ?post = enc_list newenc (drop n xs) @ post"
    using n by (simp flip: Cons_nth_drop_Suc)
  with wr have st: "intsetSet_at is (n + prepend) (xs ! n) = Some ?s2"
    using assms(2) Suc.prems(2) unfolding pre by (simp add: intsetSet_at_eq)
  have lm: "length m2 = (n + prepend) * newenc - n * curenc"
    using arg_cong [OF pre, of length] lf n by (simp del: take_append drop_append)
  have "\<exists>m'. intsetUpgrade_loop ?s2 n prepend curenc =
      Some (?s2\<lparr>contents := m' @ enc_list newenc xs @ post\<rparr>) \<and> length m' = prepend * newenc"
    by (rule Suc.IH [OF _ _ _ lm]) (use n Suc.prems(2) in simp_all)
  then show ?case using read st by simp
qed

lemma intsetUpgradeAndAdd_correct:
  assumes rep: "intset_rep is xs" and len: "Suc (length xs) < 2 ^ 29"
    and v: "fits_signed 8 v" and up: "encoding is < intsetValueEncoding v"
  shows "\<exists>is'. intsetUpgradeAndAdd fill is v = Some is' \<and>
    intset_rep is' (if v < 0 then v # xs else xs @ [v])"
proof -
  let ?c = "encoding is" and ?w = "intsetValueEncoding v" and ?n = "length xs"
  let ?p = "if v < 0 then 1 else 0 :: nat"
  have c: "?c \<in> {2, 4, 8}" and n: "is_length is = ?n" and cont: "contents is = enc_list ?c xs"
    and fit: "\<forall>x \<in> set xs. fits_signed ?c x"
    using rep by (auto simp: intset_rep_def)
  have w: "?w \<in> {2, 4, 8}" by (rule valueEncoding_range)
  have vfit: "fits_signed ?w v" using valueEncoding_le_iff [OF w v] by simp
  have wfit: "\<forall>x \<in> set xs. fits_signed ?w x"
    using fit fits_signed_mono up less_imp_le by blast
  have mono: "?n * ?c \<le> ?n * ?w" using up by simp
  have "Suc ?n * ?w \<le> Suc ?n * 8" using w by (intro mult_le_mono) auto
  also have "\<dots> < 2 ^ 32" using len by simp
  finally have sz: "Suc ?n * ?w < 2 ^ 32" .
  define j where "j = map fill [?n * ?c..<Suc ?n * ?w]"
  define s1 where "s1 = is\<lparr>encoding := ?w, contents := enc_list ?c xs @ j\<rparr>"
  have s1: "intsetResize fill (is\<lparr>encoding := ?w\<rparr>) (?n + 1) = s1"
  proof -
    have "?n * ?c \<le> Suc ?n * ?w" by (rule order_trans [OF mono]) simp
    then have "zrealloc fill (contents is) (Suc ?n * ?w) = enc_list ?c xs @ j"
      unfolding cont j_def by (subst zrealloc_grow) simp_all
    with sz show ?thesis by (simp add: intsetResize_def s1_def)
  qed
  have lj: "length j = Suc ?n * ?w - ?n * ?c" by (simp add: j_def)
  let ?m = "take ((?n + ?p) * ?w - ?n * ?c) j" and ?post = "drop ((?n + ?p) * ?w - ?n * ?c) j"
  have "\<exists>m'. intsetUpgrade_loop s1 ?n ?p ?c =
      Some (s1\<lparr>contents := m' @ enc_list ?w xs @ ?post\<rparr>) \<and> length m' = ?p * ?w"
    by (rule intsetUpgrade_loop_correct [where m = ?m])
       (use c w fit up lj in \<open>auto simp: s1_def\<close>)
  then obtain m' where loop: "intsetUpgrade_loop s1 ?n ?p ?c =
      Some (s1\<lparr>contents := m' @ enc_list ?w xs @ ?post\<rparr>)" and lm: "length m' = ?p * ?w" by blast
  define s2 where "s2 = s1\<lparr>contents := m' @ enc_list ?w xs @ ?post\<rparr>"
  have s2: "encoding s2 = ?w" "is_length s2 = ?n" "contents s2 = m' @ enc_list ?w xs @ ?post"
    using n by (simp_all add: s2_def s1_def)
  define ys where "ys = (if v < 0 then v # xs else xs @ [v])"
  have st: "(if ?p \<noteq> 0 then intsetSet_at s2 0 v else intsetSet_at s2 (is_length s2) v) =
      Some (s2\<lparr>contents := enc_list ?w ys\<rparr>)"
  proof (cases "v < 0")
    case True
    then have "?post = []" using lj by simp
    then have "mem_write (contents s2) (0 * ?w) (to_le ?w v) = Some ([] @ to_le ?w v @ enc_list ?w xs)"
      using True lm mem_write_append [where pre = "[]" and old = m'] by (simp add: s2(3))
    with True w show ?thesis by (simp add: intsetSet_at_eq s2 ys_def)
  next
    case False
    have "length ?post = ?w" using False lj mono by simp
    moreover have "m' = []" using False lm by simp
    ultimately have "mem_write (contents s2) (?n * ?w) (to_le ?w v) =
        Some (enc_list ?w xs @ to_le ?w v @ [])"
      using mem_write_append [where pre = "enc_list ?w xs" and old = ?post and post = "[]"]
      by (simp add: s2(3))
    with False w show ?thesis by (simp add: intsetSet_at_eq s2 ys_def)
  qed
  have "intsetUpgradeAndAdd fill is v =
      Some (s2\<lparr>contents := enc_list ?w ys, is_length := Suc ?n mod 2 ^ 32\<rparr>)"
    using s1 loop st n s2(2) by (simp add: intsetUpgradeAndAdd_def Let_def s2_def [symmetric])
  moreover have "intset_rep (s2\<lparr>contents := enc_list ?w ys, is_length := Suc ?n mod 2 ^ 32\<rparr>) ys"
    using w wfit vfit len by (auto simp: intset_rep_def s2 ys_def)
  ultimately show ?thesis unfolding ys_def by blast
qed

section \<open>The contract\<close>

lemma intsetAdd_correct:
  assumes inv: "intset_inv is" and v: "fits_signed 8 v" and len: "Suc (is_length is) < 2 ^ 29"
  shows "\<exists>is'. intsetAdd fill is v = Some (is', v \<notin> set (intset_values is)) \<and> intset_inv is' \<and>
    set (intset_values is') = insert v (set (intset_values is))"
proof -
  define xs where "xs = intset_values is"
  have rep: "intset_rep is xs" and srt: "sorted_wrt (<) xs" and l: "Suc (length xs) < 2 ^ 29"
    using inv len by (simp_all add: xs_def intset_inv_rep) (simp add: intset_inv_def)
  have enc: "encoding is \<in> {2, 4, 8}" and fit: "\<forall>x \<in> set xs. fits_signed (encoding is) x"
    using rep by (auto simp: intset_rep_def)
  show ?thesis
  proof (cases "encoding is < intsetValueEncoding v")
    case True
    then have nofit: "\<not> fits_signed (encoding is) v"
      using valueEncoding_le_iff [OF enc v] by simp
    obtain is' where is': "intsetUpgradeAndAdd fill is v = Some is'"
      "intset_rep is' (if v < 0 then v # xs else xs @ [v])"
      using intsetUpgradeAndAdd_correct [OF rep l v True] by blast
    have "if v < 0 then \<forall>x \<in> set xs. v < x else \<forall>x \<in> set xs. x < v"
      using nofit fit by (fastforce simp: fits_signed_def)
    then have "sorted_wrt (<) (if v < 0 then v # xs else xs @ [v])" "v \<notin> set xs"
      using srt by (auto simp: sorted_wrt_append split: if_splits)
    moreover have "length (if v < 0 then v # xs else xs @ [v]) < 2 ^ 29" using l by simp
    ultimately have "intset_inv is'"
      using is'(2) unfolding intset_inv_iff by blast
    then show ?thesis
      using True is' \<open>v \<notin> set xs\<close> intset_repD [OF is'(2)]
      by (auto simp: intsetAdd_def xs_def split: if_splits)
  next
    case False
    then have vf: "fits_signed (encoding is) v" using valueEncoding_le_iff [OF enc v] by simp
    have "length xs < 2 ^ 29" using l by simp
    then obtain p where p: "intsetSearch is v = Some (v \<in> set xs, p)"
      "if v \<in> set xs then p < length xs \<and> xs ! p = v else slot xs v p"
      using intsetSearch_correct [OF rep srt] by blast
    show ?thesis
    proof (cases "v \<in> set xs")
      case True
      then show ?thesis using False p(1) inv by (auto simp: intsetAdd_def xs_def)
    next
      case new: False
      then have s: "slot xs v p" using p(2) by simp
      then have "p \<le> length xs" by (simp add: slot_def)
      from intset_insert_at [OF rep this l vf, of fill]
      obtain is2 is3 where upd:
        "(if p < is_length (intsetResize fill is (is_length is + 1))
          then intsetMoveTail (intsetResize fill is (is_length is + 1)) p (p + 1)
          else Some (intsetResize fill is (is_length is + 1))) = Some is2"
        "intsetSet_at is2 p v = Some is3"
        "intset_rep (is3\<lparr>is_length := (is_length is3 + 1) mod 2 ^ 32\<rparr>) (take p xs @ v # drop p xs)"
        by blast
      have "intsetAdd fill is v = Some (is3\<lparr>is_length := (is_length is3 + 1) mod 2 ^ 32\<rparr>, True)"
        using False p(1) new upd(1,2) by (auto simp: intsetAdd_def Let_def split: if_splits)
      moreover have "intset_inv (is3\<lparr>is_length := (is_length is3 + 1) mod 2 ^ 32\<rparr>)"
        using upd(3) slot_insert [OF s srt] l unfolding intset_inv_iff by metis
      ultimately show ?thesis
        using new intset_repD [OF upd(3)] slot_insert(2) [OF s srt] by (simp add: xs_def)
    qed
  qed
qed

lemma intsetRemove_correct:
  assumes inv: "intset_inv is" and v: "fits_signed 8 v"
  shows "\<exists>is'. intsetRemove fill is v = Some (is', v \<in> set (intset_values is)) \<and> intset_inv is' \<and>
    set (intset_values is') = set (intset_values is) - {v}"
proof -
  define xs where "xs = intset_values is"
  have rep: "intset_rep is xs" and srt: "sorted_wrt (<) xs" and l: "length xs < 2 ^ 29"
    using inv by (simp_all add: xs_def intset_inv_rep) (simp_all add: intset_inv_def)
  have enc: "encoding is \<in> {2, 4, 8}" and fit: "\<forall>x \<in> set xs. fits_signed (encoding is) x"
    using rep by (auto simp: intset_rep_def)
  obtain p where p: "intsetSearch is v = Some (v \<in> set xs, p)"
    "if v \<in> set xs then p < length xs \<and> xs ! p = v else slot xs v p"
    using intsetSearch_correct [OF rep srt l] by blast
  show ?thesis
  proof (cases "v \<in> set xs")
    case False
    then show ?thesis using p(1) inv by (auto simp: intsetRemove_def xs_def)
  next
    case True
    then have pv: "p < length xs" "xs ! p = v" using p(2) by simp_all
    have enc_ok: "intsetValueEncoding v \<le> encoding is"
      using True fit valueEncoding_le_iff [OF enc v] by blast
    from intset_remove_at [OF rep pv(1) l, of fill] obtain is2 where upd:
      "(if p < is_length is - 1 then intsetMoveTail is (p + 1) p else Some is) = Some is2"
      "intset_rep ((intsetResize fill is2 (is_length is - 1))\<lparr>is_length := is_length is - 1\<rparr>)
        (take p xs @ drop (Suc p) xs)"
      by blast
    have "intsetRemove fill is v =
        Some ((intsetResize fill is2 (is_length is - 1))\<lparr>is_length := is_length is - 1\<rparr>, True)"
      using enc_ok p(1) True upd(1) by (simp add: intsetRemove_def Let_def)
    moreover have "intset_inv ((intsetResize fill is2 (is_length is - 1))\<lparr>is_length := is_length is - 1\<rparr>)"
      using upd(2) nth_remove [OF srt pv] l unfolding intset_inv_iff
      by (intro exI [of _ "take p xs @ drop (Suc p) xs"]) simp
    ultimately show ?thesis
      using True intset_repD [OF upd(2)] nth_remove(2) [OF srt pv] by (simp add: xs_def)
  qed
qed

lemma intsetFind_correct:
  assumes inv: "intset_inv is" and v: "fits_signed 8 v"
  shows "intsetFind is v = Some (v \<in> set (intset_values is))"
proof -
  define xs where "xs = intset_values is"
  have rep: "intset_rep is xs" and srt: "sorted_wrt (<) xs" and l: "length xs < 2 ^ 29"
    using inv by (simp_all add: xs_def intset_inv_rep) (simp_all add: intset_inv_def)
  have enc: "encoding is \<in> {2, 4, 8}" and fit: "\<forall>x \<in> set xs. fits_signed (encoding is) x"
    using rep by (auto simp: intset_rep_def)
  from intsetSearch_correct [OF rep srt l, of v] obtain p
    where "intsetSearch is v = Some (v \<in> set xs, p)" by blast
  then show ?thesis
    using fit valueEncoding_le_iff [OF enc v] by (auto simp: intsetFind_def xs_def)
qed

lemma intset_card: "intset_inv is \<Longrightarrow> card (set (intset_values is)) = is_length is"
  unfolding intset_inv_def
  using distinct_card [of "intset_values is"] strict_sorted_iff [of "intset_values is"] by simp

interpretation iset: set_impl intset_inv "\<lambda>is. set (intset_values is)" "fits_signed 8" "2 ^ 29"
  "intsetAdd fill" "intsetRemove fill" intsetFind
  for fill
proof unfold_locales
  fix s x
  assume "intset_inv s" and "fits_signed 8 x"
  then show "intsetFind s x = Some (x \<in> set (intset_values s))"
    by (rule intsetFind_correct)
next
  fix s x
  assume "intset_inv s" "fits_signed 8 x" "Suc (card (set (intset_values s))) < 2 ^ 29"
  then show "\<exists>s'. intsetAdd fill s x = Some (s', x \<notin> set (intset_values s)) \<and> intset_inv s' \<and>
      set (intset_values s') = insert x (set (intset_values s))"
    by (simp add: intset_card intsetAdd_correct)
qed (auto intro: intsetRemove_correct)

section \<open>Properties\<close>

text \<open>C9: adding an integer to a well-formed set never touches memory outside of the block,
  reports success exactly if the integer was absent, keeps the array strictly sorted at one
  width (widening it in place when the value needs it) and yields the old values plus the
  new one.\<close>

theorem intset_add_inserts:
  assumes "intset_inv is" and "fits_signed 8 v" and "Suc (is_length is) < 2 ^ 29"
  shows "\<exists>is'. intsetAdd fill is v = Some (is', v \<notin> set (intset_values is)) \<and> intset_inv is' \<and>
    set (intset_values is') = insert v (set (intset_values is))"
  using iset.add_law [OF assms(1,2)] assms by (simp add: intset_card)

theorem intset_add_inserts_witness:
  "\<exists>is'. intsetAdd (\<lambda>_. 7) \<lparr>encoding = 2, is_length = 2, contents = [255, 255, 5, 0]\<rparr> 70000 =
      Some (is', True) \<and> intset_inv is' \<and> set (intset_values is') = {70000, -1, 5}"
proof -
  let ?s = "\<lparr>encoding = 2, is_length = 2, contents = [255, 255, 5, 0]\<rparr>"
  have v: "intset_values ?s = [-1, 5]"
    by (simp add: intset_values_def of_le_signed_def upt_rec)
  then have "intset_inv ?s" by (simp add: intset_inv_def)
  moreover have "fits_signed 8 70000" by (simp add: fits_signed_def)
  ultimately show ?thesis
    using intset_add_inserts [of ?s 70000 "\<lambda>_. 7"] v by simp
qed

text \<open>C19: removing an integer reports whether it was present, stays inside of the block,
  keeps the invariant and deletes exactly that value.\<close>

theorem intset_remove_deletes:
  assumes "intset_inv is" and "fits_signed 8 v"
  shows "\<exists>is'. intsetRemove fill is v = Some (is', v \<in> set (intset_values is)) \<and> intset_inv is' \<and>
    set (intset_values is') = set (intset_values is) - {v}"
  using assms by (rule iset.remove_law)

theorem intset_remove_deletes_witness:
  "\<exists>is'. intsetRemove (\<lambda>_. 7) \<lparr>encoding = 2, is_length = 2, contents = [255, 255, 5, 0]\<rparr> (- 1) =
      Some (is', True) \<and> intset_inv is' \<and> set (intset_values is') = {5}"
proof -
  let ?s = "\<lparr>encoding = 2, is_length = 2, contents = [255, 255, 5, 0]\<rparr>"
  have v: "intset_values ?s = [-1, 5]"
    by (simp add: intset_values_def of_le_signed_def upt_rec)
  then have "intset_inv ?s" by (simp add: intset_inv_def)
  moreover have "fits_signed 8 (- 1)" by (simp add: fits_signed_def)
  ultimately show ?thesis
    using intset_remove_deletes [of ?s "- 1" "\<lambda>_. 7"] v by simp
qed

text \<open>C20: the binary search returns on every well-formed set, \<open>intsetFind\<close> answers
  membership for every 64-bit integer, and \<open>intsetGet\<close> reads the value of every valid
  position in increasing order and rejects the others.\<close>

theorem intset_find_iff_member:
  assumes "intset_inv is" and "fits_signed 8 v"
  shows "intsetFind is v = Some (v \<in> set (intset_values is)) \<and>
    intsetGet is pos = Some (if pos < intsetLen is then Some (intset_values is ! pos) else None) \<and>
    sorted_wrt (<) (intset_values is)"
proof -
  have "intsetFind is v = Some (v \<in> set (intset_values is))"
    using assms by (rule iset.is_member_law)
  moreover have "sorted_wrt (<) (intset_values is)" using assms(1) by (simp add: intset_inv_def)
  ultimately show ?thesis
    using intsetGet_at_rep [OF intset_inv_rep [OF assms(1)], of pos]
    by (simp add: intsetGet_def intsetLen_def)
qed

theorem intset_find_iff_member_witness:
  "intsetFind \<lparr>encoding = 2, is_length = 2, contents = [255, 255, 5, 0]\<rparr> 5 = Some True \<and>
   intsetGet \<lparr>encoding = 2, is_length = 2, contents = [255, 255, 5, 0]\<rparr> 0 = Some (Some (- 1))"
proof -
  let ?s = "\<lparr>encoding = 2, is_length = 2, contents = [255, 255, 5, 0]\<rparr>"
  have v: "intset_values ?s = [-1, 5]"
    by (simp add: intset_values_def of_le_signed_def upt_rec)
  then have "intset_inv ?s" by (simp add: intset_inv_def)
  moreover have "fits_signed 8 5" by (simp add: fits_signed_def)
  ultimately show ?thesis
    using intset_find_iff_member [of ?s 5 0] v by (simp add: intsetLen_def)
qed

end
