(* ===== verification/Util.thy ===== *)
theory Util
  imports Prelude
begin

text \<open>
  Number and string utilities of \<open>util.c\<close>: decimal conversion of 64-bit integers
  (\<open>digits10\<close>, \<open>ll2string\<close>, \<open>string2ll\<close>), memory sizes (\<open>memtoll\<close>) and the glob
  matcher \<open>stringmatchlen\<close>. Unsigned 64-bit values are \<open>nat\<close>s with the reduction modulo
  \<open>2 ^ 64\<close> written out, signed ones are \<open>int\<close>s converted by \<open>s64\<close>.
\<close>

section \<open>Decimal conversion\<close>

definition LLONG_MIN :: int where "LLONG_MIN = - (2 ^ 63)"
definition LLONG_MAX :: int where "LLONG_MAX = 2 ^ 63 - 1"
definition ULLONG_MAX :: nat where "ULLONG_MAX = 2 ^ 64 - 1"

fun digits10 :: "nat \<Rightarrow> nat" where
  "digits10 v =
     (if v < 10 then 1
      else if v < 100 then 2
      else if v < 1000 then 3
      else if v < 1000000000000 then
        (if v < 100000000 then
           (if v < 1000000 then
              (if v < 10000 then 4 else 5 + (if v \<ge> 100000 then 1 else 0))
            else 7 + (if v \<ge> 10000000 then 1 else 0))
         else if v < 10000000000 then 9 + (if v \<ge> 1000000000 then 1 else 0)
         else 11 + (if v \<ge> 100000000000 then 1 else 0))
      else 12 + digits10 (v div 1000000000000))"

declare digits10.simps [simp del]

definition sdigits10 :: "int \<Rightarrow> nat" where
  "sdigits10 v =
     (if v < 0 then
        (let uv = (if v \<noteq> LLONG_MIN then nat (- v) else nat LLONG_MAX + 1)
         in digits10 uv + 1)
      else digits10 (nat v))"

definition digits :: string where
  "digits =
     ''0001020304050607080910111213141516171819'' @
     ''2021222324252627282930313233343536373839'' @
     ''4041424344454647484950515253545556575859'' @
     ''6061626364656667686970717273747576777879'' @
     ''8081828384858687888990919293949596979899''"

text \<open>The main loop: two digits of \<open>value\<close> a turn, from the end of \<open>dst\<close>; \<open>next\<close> is a
  \<open>uint32_t\<close>.\<close>

function ll2string_loop :: "string \<Rightarrow> nat \<Rightarrow> nat \<Rightarrow> (string \<times> nat \<times> nat) option" where
  "ll2string_loop dst nxt value =
     (if value \<ge> 100 then
        (let i = (value mod 100) * 2; value = value div 100
         in do { dst \<leftarrow> mem_write dst nxt [digits ! (i + 1)];
                 dst \<leftarrow> mem_write dst ((nxt + 2 ^ 32 - 1) mod 2 ^ 32) [digits ! i];
                 ll2string_loop dst ((nxt + 2 ^ 32 - 2) mod 2 ^ 32) value })
      else Some (dst, nxt, value))"
  by pat_completeness auto
termination
  by (relation "measure (\<lambda>(dst, nxt, value). value)") auto

declare ll2string_loop.simps [simp del]

text \<open>\<open>dst\<close> is the destination buffer, of \<open>dstlen\<close> bytes; the result is its new content and
  the number of characters, 0 if they do not fit.\<close>

definition ll2string :: "string \<Rightarrow> int \<Rightarrow> (string \<times> nat) option" where
  "ll2string dst svalue =
     (let dstlen = length dst;
          (value, negative) =
            (if svalue < 0 then
               (if svalue \<noteq> LLONG_MIN then nat (- svalue) else nat LLONG_MAX + 1, 1)
             else (nat svalue, 0));
          len = digits10 value + negative
      in if len \<ge> dstlen then Some (dst, 0)
         else do {
           dst \<leftarrow> mem_write dst len [CHR 0x00];
           (dst, nxt, value) \<leftarrow> ll2string_loop dst (len - 1) value;
           dst \<leftarrow> (if value < 10 then mem_write dst nxt [char_of (48 + value)]
                    else do {
                      let i = value * 2;
                      dst \<leftarrow> mem_write dst nxt [digits ! (i + 1)];
                      mem_write dst ((nxt + 2 ^ 32 - 1) mod 2 ^ 32) [digits ! i] });
           dst \<leftarrow> (if negative = 1 then mem_write dst 0 ''-'' else Some dst);
           Some (dst, len) })"

text \<open>The numeric value of a C \<open>char\<close>, which is signed on the supported hosts.\<close>

definition cval :: "char \<Rightarrow> int" where
  "cval c = (let u = int (of_char c) in if u < 128 then u else u - 256)"

definition is_digit :: "char \<Rightarrow> bool" where
  "is_digit c \<longleftrightarrow> cval c \<ge> cval (CHR ''0'') \<and> cval c \<le> cval (CHR ''9'')"

text \<open>The digit loop: \<open>None\<close> on overflow, else the value and the unread rest.\<close>

primrec string2ll_loop :: "string \<Rightarrow> nat \<Rightarrow> (nat \<times> string) option" where
  "string2ll_loop [] v = Some (v, [])"
| "string2ll_loop (c # p) v =
     (if is_digit c then
        (if v > ULLONG_MAX div 10 then None
         else
           (let v = (v * 10) mod 2 ^ 64; d = nat (cval c - cval (CHR ''0''))
            in if v > ULLONG_MAX - d then None
               else string2ll_loop p ((v + d) mod 2 ^ 64)))
      else Some (v, c # p))"

definition string2ll :: "string \<Rightarrow> int option" where
  "string2ll s =
     (if length s = 0 then None
      else if length s = 1 \<and> s ! 0 = CHR ''0'' then Some 0
      else
        (let negative = (s ! 0 = CHR ''-''); p = (if negative then drop 1 s else s)
         in case p of
              [] \<Rightarrow> None
            | c # p \<Rightarrow>
                if cval c \<ge> cval (CHR ''1'') \<and> cval c \<le> cval (CHR ''9'') then
                  (case string2ll_loop p (nat (cval c - cval (CHR ''0''))) of
                     None \<Rightarrow> None
                   | Some (v, rest) \<Rightarrow>
                       if rest \<noteq> [] then None
                       else if negative then
                         (if v > nat (- (LLONG_MIN + 1)) + 1 then None else Some (s64 (- int v)))
                       else
                         (if int v > LLONG_MAX then None else Some (s64 (int v))))
                else None))"

text \<open>\<open>LONG_MIN\<close> and \<open>LONG_MAX\<close> are those of \<open>long long\<close> on 64-bit hosts.\<close>

definition string2l :: "string \<Rightarrow> int option" where
  "string2l s =
     (case string2ll s of
        None \<Rightarrow> None
      | Some llval \<Rightarrow> if llval < LLONG_MIN \<or> llval > LLONG_MAX then None else Some llval)"

section \<open>The decimal numeral of a number\<close>

definition digit_char :: "nat \<Rightarrow> char" where
  "digit_char d = char_of (48 + d)"

fun dec :: "nat \<Rightarrow> string" where
  "dec n = (if n < 10 then [digit_char n] else dec (n div 10) @ [digit_char (n mod 10)])"

declare dec.simps [simp del]

definition sdec :: "int \<Rightarrow> string" where
  "sdec v = (if v < 0 then CHR ''-'' # dec (nat (- v)) else dec (nat v))"

lemma dec_nonempty [simp]: "dec n \<noteq> []"
  by (subst dec.simps) simp

lemma dec_small: "n < 10 \<Longrightarrow> dec n = [digit_char n]"
  by (subst dec.simps) simp

lemma dec_step: "10 \<le> n \<Longrightarrow> dec n = dec (n div 10) @ [digit_char (n mod 10)]"
  by (subst dec.simps) simp

lemma length_dec_step: "10 \<le> n \<Longrightarrow> length (dec n) = Suc (length (dec (n div 10)))"
  by (simp add: dec_step)

lemma dec_step2:
  assumes "100 \<le> n"
  shows "dec n = dec (n div 100) @ [digit_char (n mod 100 div 10), digit_char (n mod 100 mod 10)]"
proof -
  have "10 \<le> n div 10" using assms by simp
  then have "dec n = dec (n div 10 div 10) @ [digit_char (n div 10 mod 10), digit_char (n mod 10)]"
    using assms by (simp add: dec_step)
  moreover have "n div 10 div 10 = n div 100" by (simp flip: div_mult2_eq)
  moreover have "n div 10 mod 10 = n mod 100 div 10"
    using mod_mult2_eq [of n 10 10] by simp
  moreover have "n mod 100 mod 10 = n mod 10" by (simp add: mod_mod_cancel)
  ultimately show ?thesis by simp
qed

lemma length_dec_div: "10 ^ k \<le> v \<Longrightarrow> length (dec v) = k + length (dec (v div 10 ^ k))"
proof (induction k arbitrary: v)
  case 0
  then show ?case by simp
next
  case (Suc k)
  have ge: "10 \<le> v"
    using Suc.prems one_le_power [of "10 :: nat" k] by (simp add: order_trans [of 10 "10 * 10 ^ k"])
  have "10 ^ k \<le> v div 10"
    using Suc.prems by (simp add: less_eq_div_iff_mult_less_eq mult.commute)
  then have "length (dec (v div 10)) = k + length (dec (v div 10 div 10 ^ k))" by (rule Suc.IH)
  then show ?case using ge by (simp add: length_dec_step div_mult2_eq)
qed

lemma length_dec_range:
  assumes "10 ^ k \<le> v" and "v < 10 ^ Suc k"
  shows "length (dec v) = Suc k"
proof -
  have "v div 10 ^ k < 10" using assms(2) by (simp add: less_mult_imp_div_less mult.commute)
  then show ?thesis using length_dec_div [OF assms(1)] by (simp add: dec_small)
qed

lemma if_eqI: "(b \<Longrightarrow> x = z) \<Longrightarrow> (\<not> b \<Longrightarrow> y = z) \<Longrightarrow> (if b then x else y) = z"
  by simp

lemma add_if_eqI: "(b \<Longrightarrow> n + x = z) \<Longrightarrow> (\<not> b \<Longrightarrow> n + y = z) \<Longrightarrow> n + (if b then x else y) = z"
  by simp

lemma digits10_eq: "digits10 v = length (dec v)"
proof (induction v rule: digits10.induct)
  case (1 v)
  have r: "k = length (dec v)" if "0 < k" "k = 1 \<or> 10 ^ (k - 1) \<le> v" "v < 10 ^ k" for k
    using length_dec_range [of "k - 1" v] that by (auto simp: dec_small)
  have big: "12 + length (dec (v div 1000000000000)) = length (dec v)" if "1000000000000 \<le> v"
    using length_dec_div [of 12 v] that by simp
  show ?case
  proof (cases "v < 1000000000000")
    case False
    with 1 have "digits10 (v div 1000000000000) = length (dec (v div 1000000000000))" by simp
    with False big show ?thesis by (subst digits10.simps) simp
  next
    case True
    show ?thesis
      by (subst digits10.simps, intro if_eqI add_if_eqI)
         ((rule r; simp; fail | use True in \<open>simp; fail\<close>)+)
  qed
qed

lemma digit_chars:
  "digit_char 0 = CHR ''0''" "digit_char 1 = CHR ''1''" "digit_char 2 = CHR ''2''"
  "digit_char 3 = CHR ''3''" "digit_char 4 = CHR ''4''" "digit_char 5 = CHR ''5''"
  "digit_char 6 = CHR ''6''" "digit_char 7 = CHR ''7''" "digit_char 8 = CHR ''8''"
  "digit_char 9 = CHR ''9''" "digit_char (Suc 0) = CHR ''1''" "digit_char (Suc (Suc 0)) = CHR ''2''"
  by (simp_all add: digit_char_def char_of_def bit_0)

lemma digits_concat:
  "digits = concat (map (\<lambda>k. [digit_char (k div 10), digit_char (k mod 10)]) [0..<100])"
  by (simp add: digits_def upt_rec digit_chars)

lemma digits_table:
  assumes "k < 100"
  shows "digits ! (k * 2) = digit_char (k div 10)" and "digits ! (k * 2 + 1) = digit_char (k mod 10)"
proof -
  have "take 2 (drop (k * 2) digits) = [digit_char (k div 10), digit_char (k mod 10)]"
    unfolding digits_concat using assms by (subst take_drop_concat_const) simp_all
  moreover have "digits ! (k * 2) = take 2 (drop (k * 2) digits) ! 0"
    and "digits ! (k * 2 + 1) = take 2 (drop (k * 2) digits) ! 1"
    using assms by (simp_all add: digits_concat length_concat_const [where k = 2] nth_append)
  ultimately show "digits ! (k * 2) = digit_char (k div 10)"
    and "digits ! (k * 2 + 1) = digit_char (k mod 10)" by simp_all
qed

section \<open>Printing\<close>

lemma wrap_sub: "k \<le> n \<Longrightarrow> n < 2 ^ 32 \<Longrightarrow> (n + 2 ^ 32 - k) mod 2 ^ 32 = n - (k :: nat)"
proof -
  assume "k \<le> n" and "n < 2 ^ 32"
  then have "n + 2 ^ 32 - k = (n - k) + 2 ^ 32" by simp
  with \<open>n < 2 ^ 32\<close> show ?thesis by (simp only: mod_add_self2) simp
qed

text \<open>
  After the loop, the last digits of the number are in place behind \<open>next\<close>; \<open>pre\<close> is the
  room for the sign and \<open>old\<close> the buffer under the digits still to be written.
\<close>

lemma ll2string_loop_correct:
  assumes "length old = length (dec v)" and "length pre + length old < 2 ^ 32"
  shows "\<exists>old' v'. ll2string_loop (pre @ old @ post) (length pre + length old - 1) v =
      Some (pre @ old' @ drop (length (dec v')) (dec v) @ post, length pre + length (dec v') - 1, v') \<and>
    length old' = length (dec v') \<and> v' < 100 \<and> take (length (dec v')) (dec v) = dec v'"
  using assms
proof (induction v arbitrary: old post rule: less_induct)
  case (less v)
  show ?case
  proof (cases "v < 100")
    case True
    then show ?thesis using less.prems by (subst ll2string_loop.simps) simp
  next
    case False
    let ?q = "v div 100" and ?r = "v mod 100"
    have dec: "dec v = dec ?q @ [digit_char (?r div 10), digit_char (?r mod 10)]"
      using False by (intro dec_step2) simp
    let ?n = "length (dec ?q)"
    have ln: "length old = ?n + 2" using less.prems(1) dec by simp
    have "length (drop ?n old) = Suc (Suc 0)" using ln by simp
    then obtain a b where "drop ?n old = [a, b]" using length_twoE by blast
    then obtain o1 where o: "old = o1 @ [a, b]" and lo: "length o1 = ?n"
      using ln by (metis append_take_drop_id length_take min.absorb2 le_add1)
    have lold: "length old = length o1 + 2" using o by simp
    have o1: "1 \<le> length o1" unfolding lo by (simp add: Suc_leI)
    let ?d1 = "digits ! (?r * 2)" and ?d0 = "digits ! (?r * 2 + 1)"
    have d: "?d1 = digit_char (?r div 10)" "?d0 = digit_char (?r mod 10)"
      by (rule digits_table, simp)+
    have nx: "length pre + length old - 1 = length (pre @ o1 @ [a])" using o by simp
    have n1: "(length pre + length old - 1 + 2 ^ 32 - 1) mod 2 ^ 32 = length (pre @ o1)"
      using less.prems(2) lold by (subst wrap_sub) auto
    have n2: "(length pre + length old - 1 + 2 ^ 32 - 2) mod 2 ^ 32 = length pre + length o1 - 1"
    proof -
      have "2 \<le> length pre + length old - 1" "length pre + length old - 1 < 2 ^ 32"
        using less.prems(2) lold o1 by linarith+
      then show ?thesis using lold by (subst wrap_sub) simp_all
    qed
    have w0: "mem_write (pre @ old @ post) (length pre + length old - 1) [?d0] =
        Some (pre @ o1 @ [a, ?d0] @ post)"
      using mem_write_append [of "[?d0]" "[b]" _ "pre @ o1 @ [a]" post] unfolding nx
      by (simp add: o)
    have w1: "mem_write (pre @ o1 @ [a, ?d0] @ post)
        ((length pre + length old - 1 + 2 ^ 32 - 1) mod 2 ^ 32) [?d1] =
        Some (pre @ o1 @ [?d1, ?d0] @ post)"
      using mem_write_append [of "[?d1]" "[a]" _ "pre @ o1" "[?d0] @ post"] unfolding n1 by simp
    have step: "ll2string_loop (pre @ old @ post) (length pre + length old - 1) v =
        ll2string_loop (pre @ o1 @ [?d1, ?d0] @ post) (length pre + length o1 - 1) ?q"
      using False w0 w1 n2 by (subst ll2string_loop.simps) (simp add: Let_def)
    have "?q < v" "length pre + length o1 < 2 ^ 32" using False less.prems(2) o by simp_all
    then obtain old' v' where ih: "ll2string_loop (pre @ o1 @ [?d1, ?d0] @ post) (length pre + length o1 - 1) ?q =
      Some (pre @ old' @ drop (length (dec v')) (dec ?q) @ [?d1, ?d0] @ post, length pre + length (dec v') - 1, v')"
      "length old' = length (dec v')" "v' < 100" "take (length (dec v')) (dec ?q) = dec v'"
      using less.IH [OF _ lo] by blast
    have "length (dec v') \<le> ?n" using ih(4) by (metis length_take min.cobounded1)
    then have "drop (length (dec v')) (dec v) = drop (length (dec v')) (dec ?q) @ [?d1, ?d0]"
      and "take (length (dec v')) (dec v) = dec v'"
      using ih(4) by (simp_all add: dec d d(2) [simplified])
    then show ?thesis unfolding step using ih by simp
  qed
qed

lemma length_dec_bound: "v < 10 ^ Suc k \<Longrightarrow> length (dec v) \<le> Suc k"
proof (induction k arbitrary: v)
  case 0
  then show ?case by (simp add: dec_small)
next
  case (Suc k)
  show ?case
  proof (cases "v < 10")
    case False
    have "v div 10 < 10 ^ Suc k" using Suc.prems by (simp add: less_mult_imp_div_less mult.commute)
    with False show ?thesis using Suc.IH by (simp add: length_dec_step)
  qed (simp add: dec_small)
qed

lemma ll2string_digits:
  assumes "length old = length (dec v)" and "length pre + length old < 2 ^ 32"
  shows "do { (dst, nxt, value) \<leftarrow> ll2string_loop (pre @ old @ post) (length pre + length old - 1) v;
      if value < 10 then mem_write dst nxt [char_of (48 + value)]
      else do { let i = value * 2;
                dst \<leftarrow> mem_write dst nxt [digits ! (i + 1)];
                mem_write dst ((nxt + 2 ^ 32 - 1) mod 2 ^ 32) [digits ! i] } } =
    Some (pre @ dec v @ post)"
proof -
  from ll2string_loop_correct [OF assms] obtain old' v' where
    l: "ll2string_loop (pre @ old @ post) (length pre + length old - 1) v =
      Some (pre @ old' @ drop (length (dec v')) (dec v) @ post, length pre + length (dec v') - 1, v')"
    "length old' = length (dec v')" "v' < 100" "take (length (dec v')) (dec v) = dec v'" by blast
  let ?post = "drop (length (dec v')) (dec v) @ post"
  have fin: "dec v' @ ?post = dec v @ post" using l(4) by (metis append.assoc append_take_drop_id)
  show ?thesis
  proof (cases "v' < 10")
    case True
    then have d: "dec v' = [digit_char v']" by (rule dec_small)
    then obtain a where "old' = [a]" using l(2) length_oneE [of old'] by auto
    with d have "mem_write (pre @ old' @ ?post) (length pre) [char_of (48 + v')] =
        Some (pre @ dec v' @ ?post)"
      using mem_write_append [of "[digit_char v']" "[a]" _ pre ?post] by (simp add: digit_char_def)
    with True d show ?thesis unfolding l(1) fin [symmetric] by simp
  next
    case False
    then have d: "dec v' = [digit_char (v' div 10), digit_char (v' mod 10)]"
      using l(3) by (simp add: dec_step dec_small)
    then obtain a b where o: "old' = [a, b]"
      using l(2) length_twoE [of old'] by auto
    have w0: "mem_write (pre @ old' @ ?post) (length pre + 1) [digits ! (v' * 2 + 1)] =
        Some (pre @ [a, digit_char (v' mod 10)] @ ?post)"
      using mem_write_append [of "[digit_char (v' mod 10)]" "[b]" _ "pre @ [a]" ?post] o
      by (simp add: digits_table [OF l(3), simplified])
    have "(length pre + 1 + 2 ^ 32 - 1) mod 2 ^ 32 = length pre"
      using assms by simp
    then have w1: "mem_write (pre @ [a, digit_char (v' mod 10)] @ ?post)
        ((length pre + 1 + 2 ^ 32 - 1) mod 2 ^ 32) [digits ! (v' * 2)] = Some (pre @ dec v' @ ?post)"
      using mem_write_append [of "[digit_char (v' div 10)]" "[a]" _ pre
          "[digit_char (v' mod 10)] @ ?post"] d
      by (simp add: digits_table [OF l(3)])
    have "length pre + length (dec v') - 1 = length pre + 1" using d by simp
    then show ?thesis
      unfolding l(1) fin [symmetric] using False w0 w1 by (simp add: Let_def)
  qed
qed

lemma ll2string_correct:
  assumes "fits_signed 8 v"
  shows "ll2string dst v =
    Some (if length (sdec v) < length dst
          then (sdec v @ [CHR 0x00] @ drop (Suc (length (sdec v))) dst, length (sdec v))
          else (dst, 0))"
proof -
  define n where "n = nat \<bar>v\<bar>"
  define neg where "neg = (if v < 0 then 1 else 0 :: nat)"
  have vn: "(if v < 0 then (if v \<noteq> LLONG_MIN then nat (- v) else nat LLONG_MAX + 1, 1)
      else (nat v, 0)) = (n, neg)"
    by (auto simp: n_def neg_def LLONG_MIN_def LLONG_MAX_def)
  have sd: "sdec v = (if v < 0 then ''-'' else []) @ dec n"
    by (auto simp: sdec_def n_def)
  then have ls: "length (sdec v) = length (dec n) + neg" by (simp add: neg_def)
  show ?thesis
  proof (cases "length (sdec v) < length dst")
    case False
    then show ?thesis unfolding ll2string_def Let_def vn by (simp add: digits10_eq ls)
  next
    case True
    have "dst = take (neg + length (dec n)) dst @ dst ! length (sdec v) # drop (Suc (length (sdec v))) dst"
      using id_take_nth_drop [OF True] ls by (simp add: add.commute)
    moreover define pre old where "pre = take neg dst" and "old = take (length (dec n)) (drop neg dst)"
    moreover define x rest where "x = dst ! length (sdec v)" and "rest = drop (Suc (length (sdec v))) dst"
    ultimately have dst: "dst = pre @ old @ x # rest" by (simp add: take_add)
    have lp: "length pre = neg" and lo: "length old = length (dec n)"
      using True ls by (simp_all add: pre_def old_def)
    have n64: "n < 10 ^ Suc 19" using assms by (auto simp: n_def fits_signed_def)
    have l1: "length pre + length old < 2 ^ 32"
      using length_dec_bound [OF n64] lp lo by (simp add: neg_def)
    have len: "length pre + length old = length (sdec v)" using lp lo ls by simp
    have w: "mem_write dst (length (sdec v)) [CHR 0x00] = Some (pre @ old @ CHR 0x00 # rest)"
      using mem_write_append [of "[CHR 0x00]" "[x]" _ "pre @ old" rest] len by (simp add: dst)
    note dg = ll2string_digits [OF lo l1, of "CHR 0x00 # rest", unfolded len]
    have sg: "(if neg = 1 then mem_write (pre @ dec n @ CHR 0x00 # rest) 0 ''-''
        else Some (pre @ dec n @ CHR 0x00 # rest)) = Some (sdec v @ CHR 0x00 # rest)"
    proof (cases "v < 0")
      case True
      then have "length pre = Suc 0" using lp by (simp add: neg_def)
      then obtain a where "pre = [a]" by (rule length_oneE)
      then show ?thesis using True mem_write_append [of "''-''" "[a]" 0 "[]" "dec n @ CHR 0x00 # rest"]
        by (simp add: sd neg_def)
    qed (use lp in \<open>simp add: sd neg_def\<close>)
    have "ll2string dst v = Some (sdec v @ CHR 0x00 # rest, length (sdec v))"
    proof -
      have "ll2string dst v =
        do { dst \<leftarrow> do { (dst, nxt, value) \<leftarrow> ll2string_loop (pre @ old @ CHR 0x00 # rest) (length (sdec v) - 1) n;
               if value < 10 then mem_write dst nxt [char_of (48 + value)]
               else do { let i = value * 2;
                         dst \<leftarrow> mem_write dst nxt [digits ! (i + 1)];
                         mem_write dst ((nxt + 2 ^ 32 - 1) mod 2 ^ 32) [digits ! i] } };
             dst \<leftarrow> (if neg = 1 then mem_write dst 0 ''-'' else Some dst);
             Some (dst, length (sdec v)) }"
        unfolding ll2string_def Let_def vn
        using True w by (simp add: digits10_eq ls [symmetric] case_prod_unfold Option.bind_assoc)
      also have "\<dots> = Some (sdec v @ CHR 0x00 # rest, length (sdec v))"
        unfolding dg using sg by (auto split: if_splits)
      finally show ?thesis .
    qed
    with True show ?thesis by (simp add: rest_def)
  qed
qed

section \<open>Parsing\<close>

lemma cval_digit_char: "d < 10 \<Longrightarrow> cval (digit_char d) = 48 + int d"
  by (simp add: cval_def digit_char_def Let_def of_char_of)

lemma cval_consts: "cval (CHR ''0'') = 48" "cval (CHR ''1'') = 49" "cval (CHR ''9'') = 57"
  "cval (CHR ''-'') = 45"
  by (simp_all add: cval_def)

lemma cval_inj: "cval a = cval b \<Longrightarrow> a = b"
proof -
  assume eq: "cval a = cval b"
  define x y :: nat where "x = of_char a" and "y = of_char b"
  have "x < 256" "y < 256" by (simp_all add: x_def y_def)
  then have "x = y"
    using eq by (simp add: cval_def Let_def split: if_splits flip: x_def y_def)
  then show ?thesis by (simp add: x_def y_def of_char_eq_iff)
qed

lemma is_digit_digit_char [simp]: "d < 10 \<Longrightarrow> is_digit (digit_char d)"
  by (simp add: is_digit_def cval_digit_char cval_consts)

lemma is_digitE:
  assumes "is_digit c"
  obtains d where "d < 10" and "c = digit_char d"
proof
  show "nat (cval c - 48) < 10" using assms by (auto simp: is_digit_def cval_consts)
  then show "c = digit_char (nat (cval c - 48))"
    using assms by (intro cval_inj) (simp add: cval_digit_char is_digit_def cval_consts)
qed

text \<open>The value of a string of digits behind a number already read.\<close>

fun digits_val :: "nat \<Rightarrow> string \<Rightarrow> nat" where
  "digits_val v [] = v"
| "digits_val v (c # cs) = digits_val (10 * v + nat (cval c - 48)) cs"

lemma digits_val_append: "digits_val v (xs @ ys) = digits_val (digits_val v xs) ys"
  by (induction xs arbitrary: v) auto

lemma digits_val_ge: "v \<le> digits_val v s"
proof (induction s arbitrary: v)
  case (Cons c s)
  have "v \<le> 10 * v + nat (cval c - 48)" by simp
  also have "\<dots> \<le> digits_val (10 * v + nat (cval c - 48)) s" by (rule Cons.IH)
  finally show ?case by simp
qed simp

lemma string2ll_loop_digits:
  assumes "\<forall>c \<in> set s. is_digit c" and "v < 2 ^ 64"
  shows "string2ll_loop s v = (if digits_val v s < 2 ^ 64 then Some (digits_val v s, []) else None)"
  using assms
proof (induction s arbitrary: v)
  case Nil
  then show ?case by simp
next
  case (Cons c s)
  from Cons.prems(1) obtain d where d: "d < 10" "c = digit_char d" by (auto elim: is_digitE)
  have cd: "nat (cval c - cval (CHR ''0'')) = d" "nat (cval c - 48) = d"
    using d by (simp_all add: cval_digit_char cval_consts)
  have dig: "is_digit c" using Cons.prems(1) by simp
  show ?case
  proof (cases "10 * v + d < 2 ^ 64")
    case True
    have "v \<le> ULLONG_MAX div 10" "(v * 10) mod 2 ^ 64 = 10 * v" "10 * v \<le> ULLONG_MAX - d"
      "(10 * v + d) mod 2 ^ 64 = 10 * v + d"
      using True by (simp_all add: ULLONG_MAX_def)
    then have "string2ll_loop (c # s) v = string2ll_loop s (10 * v + d)"
      using dig by (simp add: cd Let_def mult.commute)
    with Cons.IH [OF _ True] Cons.prems(1) show ?thesis by (simp add: cd)
  next
    case False
    then have "\<not> digits_val v (c # s) < 2 ^ 64"
      using digits_val_ge [of "10 * v + d" s] by (simp add: cd)
    moreover have "string2ll_loop (c # s) v = None"
    proof (cases "v > ULLONG_MAX div 10")
      case ok: False
      then have "(v * 10) mod 2 ^ 64 = 10 * v" by (simp add: ULLONG_MAX_def)
      moreover have "10 * v > ULLONG_MAX - d" using False d(1) by (simp add: ULLONG_MAX_def)
      ultimately show ?thesis using dig by (simp add: cd Let_def)
    qed (use dig in simp)
    ultimately show ?thesis by simp
  qed
qed

lemma string2ll_loop_all_digits:
  "string2ll_loop s v = Some (w, []) \<Longrightarrow> \<forall>c \<in> set s. is_digit c"
  by (induction s arbitrary: v) (auto simp: Let_def split: if_splits)

lemma digits_dec: "c \<in> set (dec n) \<Longrightarrow> is_digit c"
proof (induction n rule: dec.induct)
  case (1 n)
  then show ?case by (cases "n < 10") (auto simp: dec_small dec_step)
qed

lemma digits_val_dec: "digits_val 0 (dec n) = n"
proof (induction n rule: dec.induct)
  case (1 n)
  then show ?case
    by (cases "n < 10") (auto simp: dec_small dec_step digits_val_append cval_digit_char)
qed

text \<open>A numeral starts with a digit that is not 0, except the numeral of 0.\<close>

lemma dec_hd: "0 < n \<Longrightarrow> \<exists>d cs. dec n = digit_char d # cs \<and> 0 < d \<and> d < 10"
proof (induction n rule: dec.induct)
  case (1 n)
  show ?case
  proof (cases "n < 10")
    case True
    with 1 show ?thesis by (auto simp: dec_small)
  next
    case False
    then have "0 < n div 10" by simp
    with 1 False obtain d cs where "dec (n div 10) = digit_char d # cs" "0 < d" "d < 10" by blast
    with False show ?thesis by (auto simp: dec_step)
  qed
qed

lemma dec_digits_val:
  assumes "\<forall>c \<in> set s. is_digit c" and "0 < v"
  shows "dec (digits_val v s) = dec v @ s"
  using assms
proof (induction s arbitrary: v)
  case Nil
  then show ?case by simp
next
  case (Cons c s)
  from Cons.prems(1) obtain d where d: "d < 10" "c = digit_char d" by (auto elim: is_digitE)
  have cd: "nat (cval c - 48) = d" using d by (simp add: cval_digit_char)
  have "dec (digits_val (10 * v + d) s) = dec (10 * v + d) @ s"
    using Cons.prems by (intro Cons.IH) auto
  moreover have "dec (10 * v + d) = dec v @ [c]"
    using d Cons.prems(2) by (simp add: dec_step)
  ultimately show ?case by (simp add: cd)
qed

lemma string2ll_sdec:
  assumes "fits_signed 8 v"
  shows "string2ll (sdec v) = Some v"
proof (cases "v = 0")
  case True
  then show ?thesis by (simp add: sdec_def dec_small digit_chars string2ll_def)
next
  case False
  define n where "n = nat \<bar>v\<bar>"
  have "0 < n" using False by (simp add: n_def)
  then obtain d cs where d: "dec n = digit_char d # cs" "0 < d" "d < 10" using dec_hd by blast
  have bnd: "n < 2 ^ 64" "v < 0 \<Longrightarrow> n \<le> 2 ^ 63" "0 < v \<Longrightarrow> n < 2 ^ 63"
    using assms by (auto simp: n_def fits_signed_def)
  have val: "digits_val d cs = n"
    using digits_val_dec [of n] d by (simp add: cval_digit_char)
  have loop: "string2ll_loop cs d = Some (n, [])"
    using string2ll_loop_digits [of cs d] digits_dec [of _ n] d bnd(1) val by simp
  have hd: "cval (digit_char d) \<ge> cval (CHR ''1'') \<and> cval (digit_char d) \<le> cval (CHR ''9'')"
    "nat (cval (digit_char d) - cval (CHR ''0'')) = d"
    using d by (simp_all add: cval_digit_char cval_consts)
  have ne: "digit_char d \<noteq> CHR ''-''" "digit_char d \<noteq> CHR ''0''"
    using d by (auto dest!: arg_cong [of _ _ cval] simp: cval_digit_char cval_consts)
  show ?thesis
  proof (cases "v < 0")
    case True
    then have "sdec v = CHR ''-'' # digit_char d # cs" using d by (simp add: sdec_def n_def)
    moreover have "s64 (- int n) = v"
      using True assms by (simp add: n_def s64_id fits_signed_def)
    ultimately show ?thesis
      using True loop hd bnd(2) by (simp add: string2ll_def LLONG_MIN_def)
  next
    case pos: False
    then have "sdec v = digit_char d # cs" using d by (simp add: sdec_def n_def)
    moreover have "s64 (int n) = v"
      using pos assms by (simp add: n_def s64_id fits_signed_def)
    moreover have "int n \<le> LLONG_MAX" using bnd(3) pos False by (simp add: LLONG_MAX_def)
    ultimately show ?thesis
      using loop hd ne by (simp add: string2ll_def)
  qed
qed

lemma string2ll_inverse:
  assumes "string2ll s = Some v"
  shows "fits_signed 8 v \<and> s = sdec v"
proof (cases "s = ''0''")
  case True
  then show ?thesis
    using assms by (simp add: string2ll_def fits_signed_def sdec_def dec_small digit_chars)
next
  case False
  define neg where "neg = (s ! 0 = CHR ''-'')"
  define p where "p = (if neg then drop 1 s else s)"
  have s0: "s \<noteq> []" using assms by (auto simp: string2ll_def)
  have nz: "\<not> (length s = 1 \<and> s ! 0 = CHR ''0'')" and nl: "length s \<noteq> 0"
    using False s0 by (auto elim: length_oneE)
  have body: "(case p of
        [] \<Rightarrow> None
      | c # p \<Rightarrow>
          if cval c \<ge> cval (CHR ''1'') \<and> cval c \<le> cval (CHR ''9'') then
            (case string2ll_loop p (nat (cval c - cval (CHR ''0''))) of
               None \<Rightarrow> None
             | Some (v, rest) \<Rightarrow>
                 if rest \<noteq> [] then None
                 else if neg then
                   (if v > nat (- (LLONG_MIN + 1)) + 1 then None else Some (s64 (- int v)))
                 else
                   (if int v > LLONG_MAX then None else Some (s64 (int v))))
          else None) = Some v"
    using assms unfolding string2ll_def Let_def neg_def p_def if_not_P [OF nz] if_not_P [OF nl] .
  then obtain c cs where p: "p = c # cs" and c1: "cval c \<ge> 49" "cval c \<le> 57"
    by (auto simp: cval_consts split: list.splits if_splits)
  define d where "d = nat (cval c - 48)"
  have d: "0 < d" "d < 10" "c = digit_char d"
    using c1 by (auto simp: d_def intro!: cval_inj simp: cval_digit_char)
  obtain n where n: "string2ll_loop cs d = Some (n, [])"
    and v: "if neg then n \<le> 2 ^ 63 \<and> v = s64 (- int n) else n < 2 ^ 63 \<and> v = s64 (int n)"
    using body c1 unfolding p
    by (auto simp: cval_consts d_def LLONG_MIN_def LLONG_MAX_def split: option.splits if_splits)
  have dg: "\<forall>c \<in> set cs. is_digit c" using n by (rule string2ll_loop_all_digits)
  then have "n = digits_val d cs"
    using n d by (simp add: string2ll_loop_digits split: if_splits)
  then have dec: "dec n = p" and n0: "0 < n"
    using dec_digits_val [OF dg d(1)] d digits_val_ge [of d cs] p by (simp_all add: dec_small)
  show ?thesis
  proof (cases neg)
    case True
    then have "s = CHR ''-'' # p" using s0 by (cases s) (auto simp: neg_def p_def)
    moreover have "v = - int n" using v True by (simp add: s64_id)
    ultimately show ?thesis using True v dec n0 by (simp add: sdec_def fits_signed_def)
  next
    case pos: False
    then have "s = p" by (simp add: p_def)
    moreover have "v = int n" using v pos by (simp add: s64_id)
    ultimately show ?thesis using pos v dec by (simp add: sdec_def fits_signed_def)
  qed
qed

section \<open>The glob matcher\<close>

text \<open>
  A C string is read with its terminator: the index \<open>length s\<close> holds the NUL, anything
  further is outside the buffer. Pattern and string are positions \<open>pi\<close> and \<open>si\<close> in their
  buffers, with the lengths \<open>patternLen\<close> and \<open>stringLen\<close> that the C code counts down.
\<close>

definition cstr_at :: "string \<Rightarrow> nat \<Rightarrow> char option" where
  "cstr_at s i = (if i < length s then Some (s ! i) else if i = length s then Some (CHR 0x00) else None)"

text \<open>\<open>tolower\<close> of the C locale, on the value of a \<open>char\<close>.\<close>

definition tolower_int :: "int \<Rightarrow> int" where
  "tolower_int x = (if 65 \<le> x \<and> x \<le> 90 then x + 32 else x)"

definition eq_char :: "bool \<Rightarrow> char \<Rightarrow> char \<Rightarrow> bool" where
  "eq_char nocase a b =
     (if \<not> nocase then a = b else tolower_int (cval a) = tolower_int (cval b))"

text \<open>\<open>while (pattern[k] == '*') { pattern++; patternLen--; }\<close>\<close>

function skip_stars :: "nat \<Rightarrow> string \<Rightarrow> nat \<Rightarrow> int \<Rightarrow> (nat \<times> int) option" where
  "skip_stars k pattern pi patternLen =
     do { c \<leftarrow> cstr_at pattern (pi + k);
          if c = CHR ''*'' then skip_stars k pattern (pi + 1) (patternLen - 1)
          else Some (pi, patternLen) }"
  by pat_completeness auto
termination
  by (relation "measure (\<lambda>(k, p, pi, l). Suc (length p) - (pi + k))")
    (auto simp: cstr_at_def split: if_splits)

declare skip_stars.simps [simp del]

definition in_range :: "bool \<Rightarrow> char \<Rightarrow> char \<Rightarrow> char \<Rightarrow> bool" where
  "in_range nocase lo hi ch =
     (let start = cval lo; stop = cval hi; c = cval ch;
          (start, stop) = (if start > stop then (stop, start) else (start, stop));
          (start, stop, c) =
            (if nocase then (tolower_int start, tolower_int stop, tolower_int c)
             else (start, stop, c))
      in c \<ge> start \<and> c \<le> stop)"

text \<open>The loop over the members of a \<open>[\<close> class: the position it stops at and \<open>match\<close>.\<close>

function class_loop ::
  "string \<Rightarrow> nat \<Rightarrow> int \<Rightarrow> string \<Rightarrow> nat \<Rightarrow> bool \<Rightarrow> bool \<Rightarrow> (nat \<times> int \<times> bool) option" where
  "class_loop pattern pi patternLen str si nocase match =
     do { p0 \<leftarrow> cstr_at pattern pi;
          if p0 = CHR 0x5C \<and> patternLen \<ge> 2 then
            do { p1 \<leftarrow> cstr_at pattern (pi + 1);
                 s0 \<leftarrow> cstr_at str si;
                 class_loop pattern (pi + 2) (patternLen - 2) str si nocase (match \<or> p1 = s0) }
          else if p0 = CHR '']'' then Some (pi, patternLen, match)
          else if patternLen = 0 then Some (pi - 1, patternLen + 1, match)
          else do {
            p1 \<leftarrow> cstr_at pattern (pi + 1);
            if p1 = CHR ''-'' \<and> patternLen \<ge> 3 then
              do { p2 \<leftarrow> cstr_at pattern (pi + 2);
                   s0 \<leftarrow> cstr_at str si;
                   class_loop pattern (pi + 3) (patternLen - 3) str si nocase
                     (match \<or> in_range nocase p0 p2 s0) }
            else
              do { s0 \<leftarrow> cstr_at str si;
                   class_loop pattern (pi + 1) (patternLen - 1) str si nocase
                     (match \<or> eq_char nocase p0 s0) } } }"
  by pat_completeness auto
termination
  by (relation "measure (\<lambda>(p, pi, l, s, si, n, m). Suc (length p) - pi)")
    (auto simp: cstr_at_def split: if_splits)

declare class_loop.simps [simp del]

text \<open>The case \<open>'['\<close>: whether the class accepts the character, and where it ends.\<close>

definition match_class ::
  "string \<Rightarrow> nat \<Rightarrow> int \<Rightarrow> string \<Rightarrow> nat \<Rightarrow> bool \<Rightarrow> (bool \<times> nat \<times> int) option" where
  "match_class pattern pi patternLen str si nocase =
     do { let (pi, patternLen) = (pi + 1, patternLen - 1);
          c \<leftarrow> cstr_at pattern pi;
          let (pi, patternLen) =
            (if c = CHR ''^'' then (pi + 1, patternLen - 1) else (pi, patternLen));
          (pi, patternLen, match) \<leftarrow> class_loop pattern pi patternLen str si nocase False;
          Some (if c = CHR ''^'' then \<not> match else match, pi, patternLen) }"

text \<open>
  \<open>stringmatchlen\<close> itself. With \<open>star = False\<close> it is the outer \<open>while (patternLen)\<close> loop,
  with \<open>star = True\<close> the loop \<open>while (stringLen)\<close> of the case \<open>'*'\<close>, which calls the former
  on every suffix of the string. \<open>stringLen\<close> can become negative, so neither is bounded.
\<close>

definition next_turn :: "string \<Rightarrow> nat \<Rightarrow> int \<Rightarrow> int \<Rightarrow> (nat \<times> int \<times> bool) option" where
  "next_turn pattern pi patternLen stringLen =
     (let pi = pi + 1; patternLen = patternLen - 1
      in if stringLen = 0 then
           do { (pi, patternLen) \<leftarrow> skip_stars 0 pattern pi patternLen;
                Some (pi, patternLen, True) }
         else Some (pi, patternLen, False))"

partial_function (option) match_run ::
  "bool \<Rightarrow> string \<Rightarrow> nat \<Rightarrow> int \<Rightarrow> string \<Rightarrow> nat \<Rightarrow> int \<Rightarrow> bool \<Rightarrow> bool option" where
  "match_run star pattern pi patternLen str si stringLen nocase =
     (if star then
        (if stringLen \<noteq> 0 then
           do { m \<leftarrow> match_run False pattern (pi + 1) (patternLen - 1) str si stringLen nocase;
                if m then Some True
                else match_run True pattern pi patternLen str (si + 1) (stringLen - 1) nocase }
         else Some False)
      else if patternLen = 0 then Some (stringLen = 0)
      else do {
        p0 \<leftarrow> cstr_at pattern pi;
        if p0 = CHR ''*'' then
          do { (pi, patternLen) \<leftarrow> skip_stars 1 pattern pi patternLen;
               if patternLen = 1 then Some True
               else match_run True pattern pi patternLen str si stringLen nocase }
        else do {
          (ok, pi, patternLen) \<leftarrow>
            (if p0 = CHR ''?'' then Some (stringLen \<noteq> 0, pi, patternLen)
             else if p0 = CHR ''['' then match_class pattern pi patternLen str si nocase
             else
               do { let (pi, patternLen) =
                      (if p0 = CHR 0x5C \<and> patternLen \<ge> 2 then (pi + 1, patternLen - 1)
                       else (pi, patternLen));
                    c \<leftarrow> cstr_at pattern pi;
                    s0 \<leftarrow> cstr_at str si;
                    Some (eq_char nocase c s0, pi, patternLen) });
          if \<not> ok then Some False
          else do {
            (pi, patternLen, stop) \<leftarrow> next_turn pattern pi patternLen (stringLen - 1);
            if stop then Some (patternLen = 0 \<and> stringLen - 1 = 0)
            else match_run False pattern pi patternLen str (si + 1) (stringLen - 1) nocase } } })"

definition stringmatchlen :: "string \<Rightarrow> string \<Rightarrow> bool \<Rightarrow> bool option" where
  "stringmatchlen pattern str nocase =
     match_run False pattern 0 (int (length pattern)) str 0 (int (length str)) nocase"

text \<open>\<open>strlen\<close>: the characters before the first NUL.\<close>

definition strlen :: "string \<Rightarrow> nat" where
  "strlen s = length (takeWhile (\<lambda>c. c \<noteq> CHR 0x00) s)"

definition stringmatch :: "string \<Rightarrow> string \<Rightarrow> bool \<Rightarrow> bool option" where
  "stringmatch pattern str nocase =
     stringmatchlen (take (strlen pattern) pattern) (take (strlen str) str) nocase"

section \<open>Glob patterns: a reference semantics\<close>

text \<open>
  A pattern is a list of items, each a \<open>*\<close> or a test on one character. The parser follows
  the conventions of the matcher: an unterminated class extends to the end of the pattern and
  a backslash that ends the pattern stands for itself.
\<close>

datatype class_item = Esc char | Chr char | Range char char

fun class_items :: "string \<Rightarrow> class_item list \<times> string" where
  "class_items [] = ([], [])"
| "class_items [c] = (if c = CHR '']'' then ([], []) else ([Chr c], []))"
| "class_items [c, d] =
     (if c = CHR 0x5C then (Esc d # [], [])
      else if c = CHR '']'' then ([], [d])
      else apfst ((#) (Chr c)) (class_items [d]))"
| "class_items (c # d # e # r) =
     (if c = CHR 0x5C then apfst ((#) (Esc d)) (class_items (e # r))
      else if c = CHR '']'' then ([], d # e # r)
      else if d = CHR ''-'' then apfst ((#) (Range c e)) (class_items r)
      else apfst ((#) (Chr c)) (class_items (d # e # r)))"

text \<open>Characters are compared after folding their case, if asked for. A range goes from the smaller of its
  ends to the larger one; the ends are ordered before their case is folded.\<close>

definition fold_case :: "bool \<Rightarrow> char \<Rightarrow> int" where
  "fold_case nocase c =
     (if nocase \<and> c \<in> set ''ABCDEFGHIJKLMNOPQRSTUVWXYZ'' then cval c + (cval (CHR ''a'') - cval (CHR ''A'')) else cval c)"

definition same_char :: "bool \<Rightarrow> char \<Rightarrow> char \<Rightarrow> bool" where
  "same_char nocase a b \<longleftrightarrow> fold_case nocase a = fold_case nocase b"

definition range_has :: "bool \<Rightarrow> char \<Rightarrow> char \<Rightarrow> char \<Rightarrow> bool" where
  "range_has nocase a b c \<longleftrightarrow>
     (let (lo, hi) = (if cval a \<le> cval b then (a, b) else (b, a))
      in fold_case nocase c \<in> {fold_case nocase lo..fold_case nocase hi})"

fun item_has :: "bool \<Rightarrow> char \<Rightarrow> class_item \<Rightarrow> bool" where
  "item_has nocase c (Esc a) = (a = c)"
| "item_has nocase c (Chr a) = same_char nocase a c"
| "item_has nocase c (Range a b) = range_has nocase a b c"

datatype glob = Star | One "char \<Rightarrow> bool"

lemma upper_case: "c \<in> set ''ABCDEFGHIJKLMNOPQRSTUVWXYZ'' \<longleftrightarrow> 65 \<le> cval c \<and> cval c \<le> 90"
proof -
  have u: "''ABCDEFGHIJKLMNOPQRSTUVWXYZ'' = map char_of [65::nat..<91]" by code_simp
  have "c \<in> set (map char_of [m..<n]) \<longleftrightarrow> of_char c \<in> {m..<n}" if "n \<le> 256" for m n :: nat
    using that by (auto intro: image_eqI [of _ _ "of_char c"])
  from this [of 91 65] have "c \<in> set (map char_of [65::nat..<91]) \<longleftrightarrow> 65 \<le> (of_char c :: nat) \<and> of_char c < (91 :: nat)"
    unfolding atLeastLessThan_iff by simp
  moreover have "65 \<le> cval c \<and> cval c \<le> 90 \<longleftrightarrow> 65 \<le> (of_char c :: nat) \<and> of_char c < (91 :: nat)"
  proof -
    define x where "x = (of_char c :: nat)"
    have "x < 256" unfolding x_def by (rule nat_of_char_less_256)
    then show ?thesis unfolding cval_def Let_def x_def [symmetric] by auto
  qed
  ultimately show ?thesis unfolding u by (rule trans [OF _ sym])
qed

lemma fold_case_tolower: "fold_case nocase c = (if nocase then tolower_int (cval c) else cval c)"
  unfolding fold_case_def upper_case tolower_int_def by (simp add: cval_def)

lemma same_char_eq [simp]: "same_char = eq_char"
  unfolding same_char_def eq_char_def fold_case_tolower by (intro ext) (auto dest: cval_inj)

lemma range_has_eq [simp]: "range_has nocase a b c = in_range nocase a b c"
  unfolding range_has_def in_range_def fold_case_tolower by (auto simp: Let_def)

lemma class_items_length: "length (snd (class_items q)) \<le> length q"
  by (induction q rule: class_items.induct) auto

function glob_parse :: "bool \<Rightarrow> string \<Rightarrow> glob list" where
  "glob_parse nocase [] = []"
| "glob_parse nocase (p # q) =
     (if p = CHR ''*'' then Star # glob_parse nocase q
      else if p = CHR ''?'' then One (\<lambda>_. True) # glob_parse nocase q
      else if p = CHR ''['' then
        (let neg = (q \<noteq> [] \<and> hd q = CHR ''^'');
             items = class_items (if neg then tl q else q)
         in One (\<lambda>c. (\<exists>i \<in> set (fst items). item_has nocase c i) \<noteq> neg) #
              glob_parse nocase (snd items))
      else if p = CHR 0x5C \<and> q \<noteq> [] then One (same_char nocase (hd q)) # glob_parse nocase (tl q)
      else One (same_char nocase p) # glob_parse nocase q)"
  by pat_completeness auto
termination
proof (relation "measure (\<lambda>(n, q). length q)", goal_cases)
  case (4 nocase p q neg items)
  then show ?case using class_items_length [of "if neg then tl q else q"] by auto
qed auto

fun glob_match :: "glob list \<Rightarrow> string \<Rightarrow> bool" where
  "glob_match [] s = (s = [])"
| "glob_match (Star # g) [] = glob_match g []"
| "glob_match (Star # g) (c # s) = (glob_match g (c # s) \<or> glob_match (Star # g) s)"
| "glob_match (One P # g) [] = False"
| "glob_match (One P # g) (c # s) = (P c \<and> glob_match g s)"

lemma ex_le_Suc: "(\<exists>k \<le> Suc n. P k) \<longleftrightarrow> P 0 \<or> (\<exists>k \<le> n. P (Suc k))"
  by (metis Suc_le_mono le0 not0_implies_Suc)

lemma glob_match_Star:
  "glob_match (Star # g) s \<longleftrightarrow> (\<exists>k \<le> length s. glob_match g (drop k s))"
proof (induction s)
  case (Cons c s)
  then show ?case by (simp add: ex_le_Suc)
qed simp

section \<open>The matcher implements the reference\<close>

lemma cstr_at_append [simp]: "cstr_at (pre @ q) (length pre + k) = cstr_at q k"
  by (simp add: cstr_at_def nth_append)

lemma cstr_at_append0 [simp]: "cstr_at (pre @ q) (length pre) = cstr_at q 0"
  using cstr_at_append [of pre q 0] by simp

lemma cstr_at_simps [simp]:
  "cstr_at [] 0 = Some (CHR 0x00)" "cstr_at (c # q) 0 = Some c" "cstr_at (c # q) (Suc k) = cstr_at q k"
  "cstr_at (c # q) 1 = cstr_at q 0" "cstr_at (c # q) 2 = cstr_at q 1"
  by (auto simp: cstr_at_def numeral_2_eq_2)

lemma cstr_at_nth: "i < length s \<Longrightarrow> cstr_at s i = Some (s ! i)"
  by (simp add: cstr_at_def)

lemma skip_stars_0:
  "skip_stars 0 (pre @ q) (length pre) (int (length q)) =
     Some (length pre + length (takeWhile ((=) (CHR ''*'')) q),
           int (length (dropWhile ((=) (CHR ''*'')) q)))"
proof (induction q arbitrary: pre)
  case Nil
  show ?case by (subst skip_stars.simps) (simp add: cstr_at_def)
next
  case (Cons c q)
  show ?case
    using Cons.IH [of "pre @ [c]"] by (subst skip_stars.simps) auto
qed

lemma skip_stars_1:
  "\<exists>n. skip_stars 1 (pre @ CHR ''*'' # q) (length pre) (int (Suc (length q))) =
       Some (length pre + n, int (Suc (length q) - n)) \<and>
     q = replicate n (CHR ''*'') @ drop n q \<and> n \<le> length q \<and>
     (drop n q = [] \<or> hd (drop n q) \<noteq> CHR ''*'')"
proof (induction q arbitrary: pre)
  case Nil
  show ?case by (subst skip_stars.simps) (simp add: cstr_at_def nth_append)
next
  case (Cons c q)
  have r: "cstr_at (pre @ CHR ''*'' # c # q) (length pre + 1) = Some c"
    using cstr_at_append [of pre "CHR ''*'' # c # q" 1] by simp
  show ?case
  proof (cases "c = CHR ''*''")
    case True
    obtain n where n: "skip_stars 1 ((pre @ [CHR ''*'']) @ CHR ''*'' # q) (length (pre @ [CHR ''*'']))
        (int (Suc (length q))) = Some (length (pre @ [CHR ''*'']) + n, int (Suc (length q) - n))"
      "q = replicate n (CHR ''*'') @ drop n q" "n \<le> length q"
      "drop n q = [] \<or> hd (drop n q) \<noteq> CHR ''*''"
      using Cons.IH [of "pre @ [CHR ''*'']"] by blast
    show ?thesis
      using n True r by (intro exI [of _ "Suc n"], subst skip_stars.simps) simp
  next
    case False
    then show ?thesis using r by (intro exI [of _ 0], subst skip_stars.simps) simp
  qed
qed

lemma class_loop_end:
  "class_loop pre (length pre) 0 s si nocase m = Some (length pre - 1, 1, m)"
  by (subst class_loop.simps) (simp add: cstr_at_def)

lemma class_loop_close:
  "class_loop (pre @ CHR '']'' # r) (length pre) l s si nocase m = Some (length pre, l, m)"
  by (subst class_loop.simps) simp

lemma class_loop_esc:
  assumes "si < length s"
  shows "class_loop (pre @ CHR 0x5C # d # r) (length pre) (int (Suc (Suc (length r)))) s si nocase m =
    class_loop ((pre @ [CHR 0x5C, d]) @ r) (length (pre @ [CHR 0x5C, d])) (int (length r)) s si nocase
      (m \<or> d = s ! si)"
  using cstr_at_append [of pre "CHR 0x5C # d # r" 1] assms
  by (subst class_loop.simps) (simp add: cstr_at_nth numeral_3_eq_3)

lemma class_loop_range:
  assumes "si < length s" and "c \<noteq> CHR 0x5C" and "c \<noteq> CHR '']''"
  shows "class_loop (pre @ c # CHR ''-'' # e # r) (length pre) (int (Suc (Suc (Suc (length r))))) s si
      nocase m =
    class_loop ((pre @ [c, CHR ''-'', e]) @ r) (length (pre @ [c, CHR ''-'', e])) (int (length r)) s si
      nocase (m \<or> in_range nocase c e (s ! si))"
  using cstr_at_append [of pre "c # CHR ''-'' # e # r" 1]
    cstr_at_append [of pre "c # CHR ''-'' # e # r" 2] assms
  by (subst class_loop.simps) (simp add: cstr_at_nth numeral_3_eq_3)

lemma class_loop_chr:
  assumes "si < length s" and "c \<noteq> CHR '']''" and "c = CHR 0x5C \<Longrightarrow> r = []"
    and "length r < 2 \<or> hd r \<noteq> CHR ''-''"
  shows "class_loop (pre @ c # r) (length pre) (int (Suc (length r))) s si nocase m =
    class_loop ((pre @ [c]) @ r) (length (pre @ [c])) (int (length r)) s si nocase
      (m \<or> eq_char nocase c (s ! si))"
proof -
  have "cstr_at (pre @ c # r) (length pre + 1) = cstr_at r 0"
    using cstr_at_append [of pre "c # r" 1] by simp
  then show ?thesis
    using assms by (subst class_loop.simps) (cases r; auto simp: cstr_at_nth)
qed

lemma class_loop_correct:
  assumes "pre \<noteq> []" and "si < length s"
  shows "\<exists>pre' x. pre @ q = pre' @ x # snd (class_items q) \<and>
    class_loop (pre @ q) (length pre) (int (length q)) s si nocase m =
      Some (length pre', int (Suc (length (snd (class_items q)))),
            m \<or> (\<exists>i \<in> set (fst (class_items q)). item_has nocase (s ! si) i))"
  using assms(1)
proof (induction q arbitrary: pre m rule: class_items.induct)
  case 1
  then show ?case
    by (intro exI [of _ "butlast pre"] exI [of _ "last pre"]) (simp add: class_loop_end)
next
  case (2 c)
  show ?case
  proof (cases "c = CHR '']''")
    case True
    then show ?thesis by (auto simp: class_loop_close)
  next
    case False
    then show ?thesis
      using class_loop_chr [OF assms(2) False, of "[]" pre nocase m] class_loop_end [of "pre @ [c]"]
      by (intro exI [of _ pre] exI [of _ c]) simp
  qed
next
  case (3 c d)
  show ?case
  proof (cases "c = CHR 0x5C")
    case True
    then show ?thesis
      using class_loop_esc [OF assms(2), of pre d "[]" nocase m]
        class_loop_end [of "pre @ [CHR 0x5C, d]"]
      by (intro exI [of _ "pre @ [c]"] exI [of _ d]) simp
  next
    case nesc: False
    show ?thesis
    proof (cases "c = CHR '']''")
      case True
      then show ?thesis by (auto simp: class_loop_close)
    next
      case False
      then show ?thesis
        using class_loop_chr [OF assms(2) False, of "[d]" pre nocase m] nesc
          "3.IH" [of "pre @ [c]" "m \<or> eq_char nocase c (s ! si)"]
        by simp
    qed
  qed
next
  case (4 c d e r)
  show ?case
  proof (cases "c = CHR 0x5C")
    case True
    then show ?thesis
      using class_loop_esc [OF assms(2), of pre d "e # r" nocase m]
        "4.IH"(1) [of "pre @ [c, d]" "m \<or> d = s ! si"]
      by simp
  next
    case nesc: False
    show ?thesis
    proof (cases "c = CHR '']''")
      case True
      then show ?thesis by (auto simp: class_loop_close)
    next
      case ncl: False
      show ?thesis
      proof (cases "d = CHR ''-''")
        case True
        then show ?thesis
          using class_loop_range [OF assms(2) nesc ncl, of pre e r nocase m] nesc ncl
            "4.IH"(2) [of "pre @ [c, d, e]" "m \<or> in_range nocase c e (s ! si)"]
          by simp
      next
        case False
        then show ?thesis
          using class_loop_chr [OF assms(2) ncl, of "d # e # r" pre nocase m] nesc ncl
            "4.IH"(3) [of "pre @ [c]" "m \<or> eq_char nocase c (s ! si)"]
          by simp
      qed
    qed
  qed
qed

lemma glob_match_nil:
  "glob_match (glob_parse nocase q) [] \<longleftrightarrow> dropWhile ((=) (CHR ''*'')) q = []"
  by (induction q) (auto simp: Let_def)

lemma glob_match_Star_Star: "glob_match (Star # Star # g) s = glob_match (Star # g) s"
proof (induction s)
  case (Cons c s)
  then show ?case by auto
qed simp

lemma glob_match_stars:
  "glob_match (Star # glob_parse nocase (replicate n (CHR ''*'') @ q)) s =
     glob_match (Star # glob_parse nocase q) s"
proof (induction n)
  case (Suc n)
  then show ?case using glob_match_Star_Star by simp
qed simp

text \<open>The end of a turn of the outer loop, after an item has accepted a character.\<close>

lemma match_tail:
  assumes "t \<noteq> [] \<Longrightarrow>
      match_run False (pre @ x # q) (Suc (length pre)) (int (length q)) str (si + 1) (int (length t))
        nocase = Some (glob_match (glob_parse nocase q) t)"
  shows "do { (pi, patternLen, stop) \<leftarrow>
                 next_turn (pre @ x # q) (length pre) (int (Suc (length q))) (int (length t));
               if stop then Some (patternLen = 0 \<and> int (length t) = 0)
               else match_run False (pre @ x # q) pi patternLen str (si + 1) (int (length t)) nocase } =
    Some (glob_match (glob_parse nocase q) t)"
proof (cases "t = []")
  case True
  then show ?thesis
    using skip_stars_0 [of "pre @ [x]" q] by (simp add: next_turn_def glob_match_nil)
next
  case False
  then show ?thesis using assms by (simp add: next_turn_def)
qed

text \<open>The loop of the case \<open>'*'\<close> tries every non-empty suffix of the string.\<close>

lemma match_star:
  assumes "\<And>spre t. t \<noteq> [] \<Longrightarrow> spre @ t = str \<Longrightarrow>
      match_run False pat (pi + 1) (l - 1) str (length spre) (int (length t)) nocase =
        Some (glob_match g t)"
    and "\<not> glob_match g []" and "spre @ t = str"
  shows "match_run True pat pi l str (length spre) (int (length t)) nocase =
    Some (glob_match (Star # g) t)"
  using assms(3)
proof (induction t arbitrary: spre)
  case Nil
  then show ?case using assms(2) by (subst match_run.simps) simp
next
  case (Cons c t)
  have "match_run False pat (pi + 1) (l - 1) str (length spre) (int (length (c # t))) nocase =
      Some (glob_match g (c # t))"
    using assms(1) Cons.prems by blast
  moreover have "match_run True pat pi l str (length (spre @ [c])) (int (length t)) nocase =
      Some (glob_match (Star # g) t)"
    using Cons.prems by (intro Cons.IH) simp
  ultimately show ?case by (subst match_run.simps) simp
qed

lemma match_star_case:
  assumes "\<And>q' pre spre t. length q' < Suc (length r) \<Longrightarrow> t \<noteq> [] \<Longrightarrow>
      match_run False (pre @ q') (length pre) (int (length q')) (spre @ t) (length spre) (int (length t))
        nocase = Some (glob_match (glob_parse nocase q') t)"
    and "t \<noteq> []"
  shows "match_run False (pre @ CHR ''*'' # r) (length pre) (int (Suc (length r))) (spre @ t)
      (length spre) (int (length t)) nocase = Some (glob_match (Star # glob_parse nocase r) t)"
proof -
  obtain n where n: "skip_stars 1 (pre @ CHR ''*'' # r) (length pre) (int (Suc (length r))) =
       Some (length pre + n, int (Suc (length r) - n))"
    "r = replicate n (CHR ''*'') @ drop n r" "n \<le> length r"
    "drop n r = [] \<or> hd (drop n r) \<noteq> CHR ''*''"
    using skip_stars_1 [of pre r] by blast
  define r' where "r' = drop n r"
  have g: "glob_match (Star # glob_parse nocase r) t = glob_match (Star # glob_parse nocase r') t"
    using glob_match_stars [of nocase n "drop n r" t] n(2) by (simp add: r'_def)
  show ?thesis
  proof (cases "r' = []")
    case True
    then have "int (Suc (length r) - n) = 1" using n(3) by (simp add: r'_def)
    moreover have "glob_match [Star] t" by (induction t) simp_all
    ultimately show ?thesis
      using n(1) g True by (subst match_run.simps) simp
  next
    case False
    then have l: "int (Suc (length r) - n) \<noteq> 1" "int (Suc (length r) - n) - 1 = int (length r')"
      using n(3) by (auto simp: r'_def)
    obtain pre' where pre': "pre @ CHR ''*'' # r = pre' @ r'" "length pre' = length pre + n + 1"
    proof
      show "pre @ CHR ''*'' # r = (pre @ CHR ''*'' # take n r) @ r'" by (simp add: r'_def)
      show "length (pre @ CHR ''*'' # take n r) = length pre + n + 1" using n(3) by simp
    qed
    have "match_run True (pre @ CHR ''*'' # r) (length pre + n) (int (Suc (length r) - n)) (spre @ t)
        (length spre) (int (length t)) nocase = Some (glob_match (Star # glob_parse nocase r') t)"
    proof (rule match_star)
      fix sp u assume u: "u \<noteq> []" "sp @ u = spre @ t"
      show "match_run False (pre @ CHR ''*'' # r) (length pre + n + 1) (int (Suc (length r) - n) - 1)
          (spre @ t) (length sp) (int (length u)) nocase = Some (glob_match (glob_parse nocase r') u)"
        using assms(1) [of r' u pre' sp] u l(2) pre' by (simp add: r'_def)
    next
      show "\<not> glob_match (glob_parse nocase r') []"
        using False n(4) unfolding glob_match_nil r'_def [symmetric] by (cases r') auto
    qed simp
    then show ?thesis using n(1) g l(1) by (subst match_run.simps) simp
  qed
qed

lemma match_class_case:
  assumes q: "q = CHR ''['' # r" and si: "si < length str" "str ! si = c"
  obtains neg r1 pre2 x where "glob_parse nocase q =
      One (\<lambda>c. (\<exists>i \<in> set (fst (class_items r1)). item_has nocase c i) \<noteq> neg) #
        glob_parse nocase (snd (class_items r1))"
    "pre @ q = pre2 @ x # snd (class_items r1)" "length (snd (class_items r1)) < length q"
    "match_class (pre @ q) (length pre) (int (length q)) str si nocase =
      Some ((\<exists>i \<in> set (fst (class_items r1)). item_has nocase c i) \<noteq> neg, length pre2,
        int (Suc (length (snd (class_items r1)))))"
proof -
  define neg where "neg = (r \<noteq> [] \<and> hd r = CHR ''^'')"
  define r1 where "r1 = (if neg then tl r else r)"
  obtain c1 where c1: "cstr_at (pre @ q) (length pre + 1) = Some c1" "c1 = CHR ''^'' \<longleftrightarrow> neg"
    using cstr_at_append [of pre q 1] q by (cases r) (auto simp: neg_def)
  obtain pre1 where pre1: "pre1 \<noteq> []" "pre @ q = pre1 @ r1"
    "length pre1 = (if neg then length pre + 1 + 1 else length pre + 1)"
    "int (length r1) = (if neg then int (length q) - 1 - 1 else int (length q) - 1)"
  proof (cases neg)
    case True
    then show ?thesis using that [of "pre @ [CHR ''['', CHR ''^'']"] q by (cases r) (auto simp: r1_def neg_def)
  next
    case False
    then show ?thesis using that [of "pre @ ''[''"] q by (auto simp: r1_def)
  qed
  obtain pre2 x where loop: "pre @ q = pre2 @ x # snd (class_items r1)"
    "class_loop (pre @ q) (length pre1) (int (length r1)) str si nocase False =
      Some (length pre2, int (Suc (length (snd (class_items r1)))),
        \<exists>i \<in> set (fst (class_items r1)). item_has nocase c i)"
    using class_loop_correct [OF pre1(1) si(1), of r1 nocase False] si(2)
    unfolding pre1(2) by auto
  show ?thesis
  proof (rule that [OF _ loop(1)])
    show "length (snd (class_items r1)) < length q"
      using class_items_length [of r1] q by (auto simp: r1_def)
    show "glob_parse nocase q = One (\<lambda>c. (\<exists>i \<in> set (fst (class_items r1)). item_has nocase c i) \<noteq> neg) #
        glob_parse nocase (snd (class_items r1))"
      using q by (simp add: r1_def neg_def Let_def)
  qed (use c1 loop(2) in \<open>unfold match_class_def pre1(3,4), cases neg, simp_all\<close>)
qed

lemma match_run_correct:
  assumes "t \<noteq> []"
  shows "match_run False (pre @ q) (length pre) (int (length q)) (spre @ t) (length spre) (int (length t))
      nocase = Some (glob_match (glob_parse nocase q) t)"
  using assms
proof (induction q arbitrary: pre spre t rule: length_induct)
  case (1 q)
  then obtain c t' where t: "t = c # t'" by (cases t) auto
  have lt: "int (length t) - 1 = int (length t')" by (simp add: t)
  have tail: "do { (pi, patternLen, stop) \<leftarrow>
                 next_turn (pre @ q) (length pre') (int (Suc (length q'))) (int (length t) - 1);
               if stop then Some (patternLen = 0 \<and> int (length t) - 1 = 0)
               else match_run False (pre @ q) pi patternLen (spre @ t) (length spre + 1)
                      (int (length t) - 1) nocase } =
      Some (glob_match (glob_parse nocase q') t')"
    if "length q' < length q" and eq: "pre @ q = pre' @ x # q'" for pre' x q'
    unfolding lt eq
  proof (rule match_tail)
    assume "t' \<noteq> []"
    then show "match_run False (pre' @ x # q') (Suc (length pre')) (int (length q')) (spre @ t)
        (length spre + 1) (int (length t')) nocase = Some (glob_match (glob_parse nocase q') t')"
      using 1(1) [rule_format, OF that(1), of t' "pre' @ [x]" "spre @ [c]"] by (simp add: t)
  qed
  have s0: "cstr_at (spre @ t) (length spre) = Some c" by (simp add: t)
  have lt0: "int (length t) \<noteq> 0" using t by simp
  show ?case
  proof (cases q)
    case Nil
    then show ?thesis using t by (subst match_run.simps) simp
  next
    case q: (Cons p r)
    then have p0: "cstr_at (pre @ q) (length pre) = Some p" and lq: "int (length q) = int (Suc (length r))"
      by simp_all
    consider (star) "p = CHR ''*''" | (any) "p = CHR ''?''" | (cls) "p = CHR ''[''"
      | (esc) "p = CHR 0x5C" "r \<noteq> []"
      | (lit) "p \<noteq> CHR ''*''" "p \<noteq> CHR ''?''" "p \<noteq> CHR ''[''" "p = CHR 0x5C \<longrightarrow> r = []"
      by blast
    then show ?thesis
    proof cases
      case star
      have "match_run False (pre @ CHR ''*'' # r) (length pre) (int (Suc (length r))) (spre @ t)
          (length spre) (int (length t)) nocase = Some (glob_match (Star # glob_parse nocase r) t)"
      proof (rule match_star_case [OF _ 1(2)])
        fix q' pre spre u :: string assume "length q' < Suc (length r)" and "u \<noteq> []"
        then show "match_run False (pre @ q') (length pre) (int (length q')) (spre @ u) (length spre)
            (int (length u)) nocase = Some (glob_match (glob_parse nocase q') u)"
          using 1(1) q by simp
      qed
      then show ?thesis using star q by simp
    next
      case any
      then show ?thesis
        using tail [of r pre p] t p0 lq lt0 q by (subst match_run.simps) simp
    next
      case cls
      obtain neg r1 pre2 x where *: "glob_parse nocase q =
            One (\<lambda>c. (\<exists>i \<in> set (fst (class_items r1)). item_has nocase c i) \<noteq> neg) #
              glob_parse nocase (snd (class_items r1))"
          "pre @ q = pre2 @ x # snd (class_items r1)" "length (snd (class_items r1)) < length q"
          "match_class (pre @ q) (length pre) (int (length q)) (spre @ t) (length spre) nocase =
            Some ((\<exists>i \<in> set (fst (class_items r1)). item_has nocase c i) \<noteq> neg, length pre2,
              int (Suc (length (snd (class_items r1)))))"
        by (rule match_class_case [of q r "length spre" "spre @ t" c nocase pre]) (use cls q t in auto)
      show ?thesis
        using tail [OF *(3,2)] t p0 lt0 lq cls *(1,4) by (subst match_run.simps) simp
    next
      case esc
      then obtain d r' where r: "r = d # r'" by (cases r) auto
      have "cstr_at (pre @ q) (length pre + 1) = Some d"
        using cstr_at_append [of pre q 1] q r by simp
      then show ?thesis
        using tail [of r' "pre @ [p]" d] t p0 lq lt0 q r s0 esc by (subst match_run.simps) simp
    next
      case lit
      then show ?thesis 
        using tail [of r pre p] t p0 lq lt0 q s0 by (subst match_run.simps) auto
    qed
  qed
qed

lemma dropWhile_replicate: "dropWhile ((=) c) (replicate n c @ xs) = dropWhile ((=) c) xs"
  by (induction n) simp_all

lemma match_empty_string:
  assumes "CHR ''['' \<notin> set q" and "CHR 0x00 \<notin> set q"
  shows "match_run False q 0 (int (length q)) [] 0 0 nocase = Some (glob_match (glob_parse nocase q) [])"
proof (cases q)
  case Nil
  then show ?thesis by (subst match_run.simps) simp
next
  case q: (Cons p r)
  show ?thesis
  proof (cases "p = CHR ''*''")
    case True
    obtain n where n: "skip_stars 1 q 0 (int (length q)) = Some (n, int (Suc (length r) - n))"
      "r = replicate n (CHR ''*'') @ drop n r" "n \<le> length r"
      "drop n r = [] \<or> hd (drop n r) \<noteq> CHR ''*''"
      using skip_stars_1 [of "[]" r] q True by auto
    have "dropWhile ((=) (CHR ''*'')) q = dropWhile ((=) (CHR ''*'')) (drop n r)"
      using q True arg_cong [OF n(2), of "dropWhile ((=) (CHR ''*''))"] by (simp add: dropWhile_replicate)
    moreover have "dropWhile ((=) (CHR ''*'')) (drop n r) = drop n r"
      using n(4) by (cases "drop n r") auto
    ultimately have "glob_match (glob_parse nocase q) [] \<longleftrightarrow> drop n r = []"
      unfolding glob_match_nil by simp
    moreover have "match_run True q n l [] 0 0 nocase = Some False" for l
      by (subst match_run.simps) simp
    ultimately show ?thesis
      using n(1,3) q True by (subst match_run.simps) auto
  next
    case False
    have e: "\<not> eq_char nocase c (CHR 0x00)" if "c \<in> set q" for c
    proof -
      have "cval c \<noteq> 0" "c \<noteq> CHR 0x00" using that assms(2) cval_inj [of c "CHR 0x00"] by (auto simp: cval_def)
      then show ?thesis by (auto simp: eq_char_def tolower_int_def cval_def)
    qed
    have g: "\<not> glob_match (glob_parse nocase q) []"
      using q False unfolding glob_match_nil by simp
    have np: "p \<noteq> CHR ''[''" using assms(1) q by auto
    show ?thesis
    proof (cases r)
      case Nil
      then show ?thesis using q False np e [of p] g by (subst match_run.simps) simp
    next
      case (Cons d r')
      then show ?thesis using q False np e [of p] e [of d] g by (subst match_run.simps) simp
    qed
  qed
qed

section \<open>The properties\<close>

text \<open>C12: \<open>string2ll\<close> accepts exactly the canonical decimal form of a 64-bit signed integer
  and returns that integer: no sign \<open>+\<close>, no leading zero, no blank, no overflow.\<close>

theorem string2ll_iff: "string2ll s = Some v \<longleftrightarrow> fits_signed 8 v \<and> s = sdec v"
  using string2ll_inverse string2ll_sdec by blast

text \<open>C29: \<open>ll2string\<close> writes the decimal form of any 64-bit signed integer, with a
  terminating NUL and without touching the rest of the buffer, if it fits, and otherwise returns
  0 and leaves the buffer alone; it never writes outside the buffer. What it writes is read back
  by \<open>string2ll\<close>.\<close>

theorem ll2string_string2ll:
  assumes "fits_signed 8 v"
  shows "ll2string dst v = Some
      (if length (sdec v) < length dst
       then (sdec v @ [CHR 0x00] @ drop (Suc (length (sdec v))) dst, length (sdec v))
       else (dst, 0)) \<and>
    string2ll (sdec v) = Some v"
  using assms ll2string_correct string2ll_sdec by blast

theorem ll2string_string2ll_witness:
  "ll2string ''xxxxxx'' (- 123) = Some (''-123'' @ [CHR 0x00, CHR ''x''], 4) \<and>
   string2ll ''-123'' = Some (- 123)"
proof -
  have "sdec (- 123) = ''-123''" by (simp add: sdec_def dec.simps digit_chars)
  then show ?thesis using ll2string_string2ll [of "- 123" "''xxxxxx''"] by (simp add: fits_signed_def)
qed

text \<open>C11: on every non-empty string, and on the empty one when the pattern has neither a class
  nor a NUL, \<open>stringmatchlen\<close> returns, reads only inside the two strings and their
  terminators, and decides the reference semantics of glob patterns.\<close>

theorem stringmatchlen_glob:
  assumes "str \<noteq> [] \<or> CHR ''['' \<notin> set pattern \<and> CHR 0x00 \<notin> set pattern"
  shows "stringmatchlen pattern str nocase = Some (glob_match (glob_parse nocase pattern) str)"
  using assms match_run_correct [of str "[]" pattern "[]" nocase] match_empty_string [of pattern nocase]
  by (cases "str = []") (auto simp: stringmatchlen_def)

theorem stringmatchlen_glob_witness:
  "stringmatchlen ''h[^a-d]*o'' ''hello'' False = Some True \<and>
   stringmatchlen ''h[^a-e]*o'' ''hello'' False = Some False"
  by (simp add: stringmatchlen_glob) (simp add: Let_def in_range_def eq_char_def cval_def)

text \<open>The empty string against a negated class: the class accepts the terminator, and
  \<open>stringLen\<close> becomes negative.\<close>

lemma stringmatchlen_empty_class:
  "stringmatchlen ''[^a]*'' [] False = Some True" "stringmatchlen ''[^a]b'' [] False = None"
  unfolding stringmatchlen_def
  by (simp add: match_run.simps match_class_def class_loop.simps cstr_at_def eq_char_def
      next_turn_def skip_stars.simps)+

text \<open>The ends of a range are ordered before their case is folded, so a range from an upper case letter to a lower
  case one may be empty.\<close>

lemma stringmatchlen_mixed_range:
  "stringmatchlen ''[Z-a]'' ''z'' True = Some False" "stringmatchlen ''[Z-a]'' ''a'' True = Some False"
  unfolding stringmatchlen_def
  by (simp add: match_run.simps match_class_def class_loop.simps cstr_at_def in_range_def tolower_int_def cval_def
      next_turn_def skip_stars.simps)+

section \<open>Memory sizes\<close>

definition eq_nocase :: "string \<Rightarrow> string \<Rightarrow> bool" where
  "eq_nocase a b \<longleftrightarrow> map (tolower_int \<circ> cval) a = map (tolower_int \<circ> cval) b"

text \<open>\<open>strtoll(buf, &endptr, 10)\<close> on a string that is an optional sign and digits: the value,
  saturated at the ends of \<open>long long\<close>, and the unread rest; with no digit nothing is
  read and the value is 0.\<close>

definition strtoll10 :: "string \<Rightarrow> int \<times> string" where
  "strtoll10 buf =
     (let neg = (buf \<noteq> [] \<and> hd buf = CHR ''-'');
          body = (if neg then tl buf else buf);
          ds = takeWhile is_digit body;
          v = int (digits_val 0 ds);
          v = (if neg then - v else v)
      in if ds = [] then (0, buf)
         else (max LLONG_MIN (min LLONG_MAX v), dropWhile is_digit body))"

definition mem_unit :: "string \<Rightarrow> int option" where
  "mem_unit u =
     (if u = [] \<or> eq_nocase u ''b'' then Some 1
      else if eq_nocase u ''k'' then Some 1000
      else if eq_nocase u ''kb'' then Some 1024
      else if eq_nocase u ''m'' then Some (1000 * 1000)
      else if eq_nocase u ''mb'' then Some (1024 * 1024)
      else if eq_nocase u ''g'' then Some (1000 * 1000 * 1000)
      else if eq_nocase u ''gb'' then Some (1024 * 1024 * 1024)
      else None)"

text \<open>\<open>p\<close> is the text before the terminator. The result is the value and \<open>err\<close>; a signed
  overflow of the final product has no defined result.\<close>

definition memtoll :: "string \<Rightarrow> (int \<times> bool) option" where
  "memtoll p =
     (let sign = (if p \<noteq> [] \<and> hd p = CHR ''-'' then 1 else 0);
          digits = sign + length (takeWhile is_digit (drop sign p));
          u = drop digits p
      in case mem_unit u of
           None \<Rightarrow> Some (0, True)
         | Some mul \<Rightarrow>
             if digits \<ge> 128 then Some (0, True)
             else
               (let (val, endptr) = strtoll10 (take digits p)
                in if endptr \<noteq> [] then Some (0, True)
                   else if fits_signed 8 (val * mul) then Some (val * mul, False)
                   else None))"

lemma mem_unit_hd: "mem_unit u = Some m \<Longrightarrow> u = [] \<or> \<not> is_digit (hd u)"
  by (cases u) (auto simp: mem_unit_def eq_nocase_def is_digit_def tolower_int_def cval_consts cval_def
      split: if_splits)

lemma takeWhile_digits:
  assumes "u = [] \<or> \<not> is_digit (hd u)"
  shows "takeWhile is_digit (dec n @ u) = dec n"
proof -
  have "takeWhile is_digit u = []" using assms by (cases u) auto
  then show ?thesis using digits_dec by (simp add: takeWhile_append2)
qed

lemma length_sdec_bound:
  assumes "fits_signed 8 v"
  shows "length (sdec v) \<le> 20"
proof -
  have "nat \<bar>v\<bar> < 10 ^ Suc 18" using assms by (auto simp: fits_signed_def abs_if)
  then have "length (dec (nat \<bar>v\<bar>)) \<le> 19" using length_dec_bound [of "nat \<bar>v\<bar>" 18] by simp
  then show ?thesis by (auto simp: sdec_def)
qed

lemma strtoll10_sdec:
  assumes "fits_signed 8 v"
  shows "strtoll10 (sdec v) = (v, [])"
proof -
  have d: "takeWhile is_digit (dec n) = dec n" "dropWhile is_digit (dec n) = []" for n
    using digits_dec by (auto simp: takeWhile_eq_all_conv)
  have h: "hd (dec n) \<noteq> CHR ''-''" for n
    using digits_dec [of "hd (dec n)" n] by (auto simp: is_digit_def cval_def)
  show ?thesis
    using assms h
    by (auto simp: d digits_dec strtoll10_def sdec_def digits_val_dec LLONG_MIN_def LLONG_MAX_def fits_signed_def Let_def)
qed

text \<open>The units of the comment on \<open>memtoll\<close>, and their spelling in any case.\<close>

definition memory_units :: "(string \<times> int) list" where
  "memory_units = [([], 1), (''b'', 1), (''k'', 10 ^ 3), (''kb'', 2 ^ 10), (''m'', 10 ^ 6), (''mb'', 2 ^ 20),
     (''g'', 10 ^ 9), (''gb'', 2 ^ 30)]"

definition spells :: "string \<Rightarrow> string \<Rightarrow> bool" where
  "spells u name \<longleftrightarrow> list_all2 (\<lambda>a b. a = b \<or> of_char a + 32 = (of_char b :: nat)) u name"

lemma letter_nocase:
  assumes "b \<in> set ''bkmg''"
  shows "tolower_int (cval a) = tolower_int (cval b) \<longleftrightarrow> a = b \<or> of_char a + 32 = (of_char b :: nat)"
proof -
  define x where "x = (of_char a :: nat)"
  have x: "x < 256" unfolding x_def by (rule nat_of_char_less_256)
  have e: "a = b \<longleftrightarrow> x = of_char b" unfolding x_def by simp
  have c: "cval a = (if x < 128 then int x else int x - 256)" unfolding cval_def Let_def x_def by simp
  show ?thesis unfolding e x_def [symmetric] c using assms x by (auto simp: tolower_int_def cval_def)
qed

lemma eq_nocase_spells:
  assumes "set name \<subseteq> set ''bkmg''"
  shows "eq_nocase u name \<longleftrightarrow> spells u name"
  using assms
proof (induction u arbitrary: name)
  case (Cons a u)
  then show ?case using letter_nocase by (cases name) (auto simp: eq_nocase_def spells_def)
qed (auto simp: eq_nocase_def spells_def)

lemma mem_unit_spells:
  "mem_unit u =
     (if u = [] \<or> spells u ''b'' then Some 1
      else if spells u ''k'' then Some 1000
      else if spells u ''kb'' then Some 1024
      else if spells u ''m'' then Some (1000 * 1000)
      else if spells u ''mb'' then Some (1024 * 1024)
      else if spells u ''g'' then Some (1000 * 1000 * 1000)
      else if spells u ''gb'' then Some (1024 * 1024 * 1024)
      else None)"
  unfolding mem_unit_def by (simp add: eq_nocase_spells)

lemma spells_unique:
  assumes "set n1 \<subseteq> set ''bkmg''" "set n2 \<subseteq> set ''bkmg''" "spells u n1"
  shows "spells u n2 \<longleftrightarrow> n2 = n1"
  using assms
proof (induction u arbitrary: n1 n2)
  case (Cons a u)
  obtain b n where n1: "n1 = b # n" "spells u n" "a = b \<or> of_char a + 32 = (of_char b :: nat)"
    using Cons.prems(3) unfolding spells_def by (auto simp: list_all2_Cons1)
  have "a = b' \<or> of_char a + 32 = (of_char b' :: nat) \<longleftrightarrow> b' = b" if "b' \<in> set ''bkmg''" for b'
  proof -
    have "b \<in> set ''bkmg''" using Cons.prems(1) n1(1) by simp
    then show ?thesis using that n1(3) by auto
  qed
  then show ?case using Cons.IH [OF _ _ n1(2)] Cons.prems(1,2) n1(1) by (cases n2) (auto simp: spells_def)
qed (simp add: spells_def)

lemma mem_unit_iff: "mem_unit u = Some m \<longleftrightarrow> (\<exists>name. (name, m) \<in> set memory_units \<and> spells u name)"
proof
  assume "mem_unit u = Some m"
  moreover have "u = [] \<longleftrightarrow> spells u []" by (simp add: spells_def)
  ultimately show "\<exists>name. (name, m) \<in> set memory_units \<and> spells u name"
    unfolding mem_unit_spells memory_units_def by (simp split: if_splits) blast+
next
  assume "\<exists>name. (name, m) \<in> set memory_units \<and> spells u name"
  then obtain name where n: "(name, m) \<in> set memory_units" "spells u name" by blast
  have "set name \<subseteq> set ''bkmg''" using n(1) by (auto simp: memory_units_def)
  note un = spells_unique [OF this _ n(2)]
  have "u = [] \<longleftrightarrow> name = []" using un [of "[]"] by (auto simp: spells_def)
  then show "mem_unit u = Some m" using n(1) unfolding mem_unit_spells memory_units_def by (auto simp: un)
qed

lemma memtoll_unit:
  assumes "fits_signed 8 v" and "u = [] \<or> \<not> is_digit (hd u)"
  shows "memtoll (sdec v @ u) =
    (case mem_unit u of
       None \<Rightarrow> Some (0, True)
     | Some m \<Rightarrow> if fits_signed 8 (v * m) then Some (v * m, False) else None)"
proof -
  have h: "hd (dec n) \<noteq> CHR ''-''" for n
    using digits_dec [of "hd (dec n)" n] by (auto simp: is_digit_def cval_def)
  define sign where "sign = (if sdec v @ u \<noteq> [] \<and> hd (sdec v @ u) = CHR ''-'' then 1 else 0 :: nat)"
  have "sign = (if v < 0 then 1 else 0)" using h by (simp add: sign_def sdec_def hd_append)
  then have len: "sign + length (takeWhile is_digit (drop sign (sdec v @ u))) = length (sdec v)"
    using takeWhile_digits [OF assms(2)] by (simp add: sdec_def)
  show ?thesis
    using length_sdec_bound [OF assms(1)] strtoll10_sdec [OF assms(1)]
    unfolding memtoll_def Let_def sign_def [symmetric] len by (simp split: option.split)
qed

text \<open>C40: \<open>memtoll\<close> reads a decimal number with one of the units of its comment, in any case, as the number of
  bytes it stands for, and reports an error for every other text behind the number.\<close>

theorem memtoll_units:
  assumes "fits_signed 8 v"
  shows "(\<forall>(name, m) \<in> set [([], 1), (''b'', 1), (''k'', 10 ^ 3), (''kb'', 2 ^ 10), (''m'', 10 ^ 6), (''mb'', 2 ^ 20),
        (''g'', 10 ^ 9), (''gb'', 2 ^ 30)].
      spells u name \<longrightarrow> fits_signed 8 (v * m) \<longrightarrow> memtoll (sdec v @ u) = Some (v * m, False)) \<and>
    ((\<forall>name \<in> set [[], ''b'', ''k'', ''kb'', ''m'', ''mb'', ''g'', ''gb'']. \<not> spells u name) \<longrightarrow> \<not> is_digit (hd u) \<longrightarrow>
      memtoll (sdec v @ u) = Some (0, True))"
proof (intro conjI impI)
  have "memtoll (sdec v @ u) = Some (v * m, False)"
    if "(name, m) \<in> set memory_units" "spells u name" "fits_signed 8 (v * m)" for name m
  proof -
    have "mem_unit u = Some m" using that(1,2) by (auto simp: mem_unit_iff)
    then show ?thesis using memtoll_unit [OF assms mem_unit_hd] that(3) by simp
  qed
  then show "\<forall>(name, m) \<in> set [([], 1), (''b'', 1), (''k'', 10 ^ 3), (''kb'', 2 ^ 10), (''m'', 10 ^ 6), (''mb'', 2 ^ 20),
        (''g'', 10 ^ 9), (''gb'', 2 ^ 30)].
      spells u name \<longrightarrow> fits_signed 8 (v * m) \<longrightarrow> memtoll (sdec v @ u) = Some (v * m, False)"
    unfolding memory_units_def [symmetric] by blast
next
  assume n: "\<forall>name \<in> set [[], ''b'', ''k'', ''kb'', ''m'', ''mb'', ''g'', ''gb'']. \<not> spells u name" "\<not> is_digit (hd u)"
  have "mem_unit u \<noteq> Some m" for m using n(1) by (auto simp: mem_unit_iff memory_units_def)
  then show "memtoll (sdec v @ u) = Some (0, True)" using memtoll_unit [OF assms disjI2 [OF n(2)]] by (cases "mem_unit u") auto
qed

theorem memtoll_units_witness:
  "memtoll ''1Gb'' = Some (1073741824, False) \<and> memtoll ''1KB'' = Some (1024, False) \<and> memtoll ''1T'' = Some (0, True)"
proof -
  have one: "sdec 1 = ''1''" by (simp add: sdec_def dec.simps digit_chars)
  have fits: "fits_signed 8 1" "fits_signed 8 1024" "fits_signed 8 1073741824" by (simp_all add: fits_signed_def)
  note units = memtoll_units [OF fits(1), unfolded one]
  have "memtoll ''1Gb'' = Some (1073741824, False)" using units [of "''Gb''"] fits by (simp add: spells_def)
  moreover have "memtoll ''1KB'' = Some (1024, False)" using units [of "''KB''"] fits by (simp add: spells_def)
  moreover have "memtoll ''1T'' = Some (0, True)"
    using units [of "''T''"] by (simp add: spells_def is_digit_def cval_def)
  ultimately show ?thesis by (intro conjI)
qed

lemma memtoll_no_digits: "memtoll ''mb'' = Some (0, False)"
  by (simp add: memtoll_def mem_unit_def eq_nocase_def is_digit_def tolower_int_def cval_def strtoll10_def
      fits_signed_def)

end
