(* ===== verification/Sds.thy ===== *)
theory Sds
  imports Util Interfaces
begin

text \<open>
  The dynamic strings of \<open>sds.c\<close> and \<open>sds.h\<close>. An \<open>sds\<close> value is the block it points into:
  the fields of its header and the bytes from the string pointer to the end of the allocation.
  The header comes in five widths; \<open>len\<close> and \<open>alloc\<close> are stored modulo the width of the
  header's fields, as the C assignments do.

  The allocator aborts the server when it runs out of memory, so \<open>s_malloc\<close> and
  \<open>s_realloc\<close> always return a block; sizes are computed in \<open>size_t\<close> and can wrap around.
  The bytes of a fresh block are unspecified (\<open>fill\<close>).
\<close>

section \<open>Headers\<close>

datatype sds_type = SDS_TYPE_5 | SDS_TYPE_8 | SDS_TYPE_16 | SDS_TYPE_32 | SDS_TYPE_64

text \<open>For \<open>SDS_TYPE_5\<close> the length is in the flags byte and there is no field \<open>alloc\<close>.\<close>

record sds =
  sds_type :: sds_type
  hdr_len :: nat
  hdr_alloc :: nat
  sds_buf :: string

definition SDS_MAX_PREALLOC :: nat where "SDS_MAX_PREALLOC = 1024 * 1024"

primrec hdr_bits :: "sds_type \<Rightarrow> nat" where
  "hdr_bits SDS_TYPE_5 = 5"
| "hdr_bits SDS_TYPE_8 = 8"
| "hdr_bits SDS_TYPE_16 = 16"
| "hdr_bits SDS_TYPE_32 = 32"
| "hdr_bits SDS_TYPE_64 = 64"

definition sdslen :: "sds \<Rightarrow> nat" where
  "sdslen s = hdr_len s"

text \<open>\<open>alloc - len\<close> is computed in \<open>int\<close> for the two narrow types.\<close>

definition sdsavail :: "sds \<Rightarrow> nat" where
  "sdsavail s =
     (case sds_type s of
        SDS_TYPE_5 \<Rightarrow> 0
      | SDS_TYPE_32 \<Rightarrow> (hdr_alloc s + 2 ^ 32 - hdr_len s) mod 2 ^ 32
      | _ \<Rightarrow> (hdr_alloc s + 2 ^ 64 - hdr_len s) mod 2 ^ 64)"

definition sdssetlen :: "sds \<Rightarrow> nat \<Rightarrow> sds" where
  "sdssetlen s newlen = s\<lparr>hdr_len := newlen mod 2 ^ hdr_bits (sds_type s)\<rparr>"

definition sdsinclen :: "sds \<Rightarrow> nat \<Rightarrow> sds" where
  "sdsinclen s inc = s\<lparr>hdr_len := (hdr_len s + inc) mod 2 ^ hdr_bits (sds_type s)\<rparr>"

definition sdsalloc :: "sds \<Rightarrow> nat" where
  "sdsalloc s = (if sds_type s = SDS_TYPE_5 then hdr_len s else hdr_alloc s)"

definition sdssetalloc :: "sds \<Rightarrow> nat \<Rightarrow> sds" where
  "sdssetalloc s newlen =
     (if sds_type s = SDS_TYPE_5 then s
      else s\<lparr>hdr_alloc := newlen mod 2 ^ hdr_bits (sds_type s)\<rparr>)"

primrec sdsHdrSize :: "sds_type \<Rightarrow> nat" where
  "sdsHdrSize SDS_TYPE_5 = 1"
| "sdsHdrSize SDS_TYPE_8 = 3"
| "sdsHdrSize SDS_TYPE_16 = 5"
| "sdsHdrSize SDS_TYPE_32 = 9"
| "sdsHdrSize SDS_TYPE_64 = 17"

definition sdsReqType :: "nat \<Rightarrow> sds_type" where
  "sdsReqType string_size =
     (if string_size < 2 ^ 5 then SDS_TYPE_5
      else if string_size < 2 ^ 8 then SDS_TYPE_8
      else if string_size < 2 ^ 16 then SDS_TYPE_16
      else if string_size < 2 ^ 32 then SDS_TYPE_32
      else SDS_TYPE_64)"

section \<open>Creation\<close>

text \<open>The part of a block of \<open>hdrlen + n + 1\<close> bytes behind the header, and the same block
  after a reallocation; the size is a \<open>size_t\<close>.\<close>

definition sds_malloc :: "(nat \<Rightarrow> char) \<Rightarrow> nat \<Rightarrow> nat \<Rightarrow> string option" where
  "sds_malloc fill hdrlen n =
     (let size = (hdrlen + n + 1) mod 2 ^ 64
      in if size < hdrlen then None else Some (map fill [0..<size - hdrlen]))"

definition sds_realloc :: "(nat \<Rightarrow> char) \<Rightarrow> nat \<Rightarrow> string \<Rightarrow> nat \<Rightarrow> string option" where
  "sds_realloc fill hdrlen buf n =
     (let size = (hdrlen + n + 1) mod 2 ^ 64
      in if size < hdrlen then None else Some (zrealloc fill buf (size - hdrlen)))"

text \<open>The argument \<open>init\<close>: no pointer (zero bytes), the constant \<open>SDS_NOINIT\<close>, or data.\<close>

datatype sds_init = INIT_NULL | SDS_NOINIT | INIT string

definition sdsnewlen :: "(nat \<Rightarrow> char) \<Rightarrow> sds_init \<Rightarrow> nat \<Rightarrow> sds option" where
  "sdsnewlen fill init initlen =
     (let type = sdsReqType initlen;
          type = (if type = SDS_TYPE_5 \<and> initlen = 0 then SDS_TYPE_8 else type);
          hdrlen = sdsHdrSize type
      in do {
        buf \<leftarrow> sds_malloc fill hdrlen initlen;
        let buf = (if init = INIT_NULL then replicate (length buf) (CHR 0x00) else buf);
        buf \<leftarrow> (case init of
                  INIT d \<Rightarrow> if initlen \<noteq> 0 then do { bs \<leftarrow> mem_read d 0 initlen; mem_write buf 0 bs }
                            else Some buf
                | _ \<Rightarrow> Some buf);
        buf \<leftarrow> mem_write buf initlen [CHR 0x00];
        Some \<lparr>sds_type = type, hdr_len = initlen mod 2 ^ hdr_bits type,
              hdr_alloc = initlen mod 2 ^ hdr_bits type, sds_buf = buf\<rparr> })"

definition sdsempty :: "(nat \<Rightarrow> char) \<Rightarrow> sds option" where
  "sdsempty fill = sdsnewlen fill (INIT []) 0"

definition sdsnew :: "(nat \<Rightarrow> char) \<Rightarrow> string option \<Rightarrow> sds option" where
  "sdsnew fill init =
     (case init of
        None \<Rightarrow> sdsnewlen fill INIT_NULL 0
      | Some d \<Rightarrow> sdsnewlen fill (INIT d) (strlen d))"

definition sdsdup :: "(nat \<Rightarrow> char) \<Rightarrow> sds \<Rightarrow> sds option" where
  "sdsdup fill s = sdsnewlen fill (INIT (sds_buf s)) (sdslen s)"

definition sdsupdatelen :: "sds \<Rightarrow> sds option" where
  "sdsupdatelen s =
     (if CHR 0x00 \<in> set (sds_buf s) then Some (sdssetlen s (strlen (sds_buf s))) else None)"

definition sdsclear :: "sds \<Rightarrow> sds option" where
  "sdsclear s =
     do { let s = sdssetlen s 0;
          buf \<leftarrow> mem_write (sds_buf s) 0 [CHR 0x00];
          Some (s\<lparr>sds_buf := buf\<rparr>) }"

section \<open>Room\<close>

definition sdsMakeRoomFor :: "(nat \<Rightarrow> char) \<Rightarrow> sds \<Rightarrow> nat \<Rightarrow> sds option" where
  "sdsMakeRoomFor fill s addlen =
     (if sdsavail s \<ge> addlen then Some s
      else
        (let oldtype = sds_type s;
             len = sdslen s;
             newlen = (len + addlen) mod 2 ^ 64;
             newlen = (if newlen < SDS_MAX_PREALLOC then newlen * 2
                       else (newlen + SDS_MAX_PREALLOC) mod 2 ^ 64);
             type = sdsReqType newlen;
             type = (if type = SDS_TYPE_5 then SDS_TYPE_8 else type);
             hdrlen = sdsHdrSize type
         in do {
           s \<leftarrow> (if oldtype = type then
                    do { buf \<leftarrow> sds_realloc fill hdrlen (sds_buf s) newlen;
                         Some (s\<lparr>sds_buf := buf\<rparr>) }
                  else
                    do { buf \<leftarrow> sds_malloc fill hdrlen newlen;
                         bs \<leftarrow> mem_read (sds_buf s) 0 (len + 1);
                         buf \<leftarrow> mem_write buf 0 bs;
                         Some (sdssetlen (s\<lparr>sds_type := type, sds_buf := buf\<rparr>) len) });
           Some (sdssetalloc s newlen) }))"

definition sdsRemoveFreeSpace :: "(nat \<Rightarrow> char) \<Rightarrow> sds \<Rightarrow> sds option" where
  "sdsRemoveFreeSpace fill s =
     (let oldtype = sds_type s;
          oldhdrlen = sdsHdrSize oldtype;
          len = sdslen s;
          type = sdsReqType len;
          hdrlen = sdsHdrSize type
      in do {
        s \<leftarrow> (if oldtype = type \<or> type \<notin> {SDS_TYPE_5, SDS_TYPE_8} then
                 do { buf \<leftarrow> sds_realloc fill oldhdrlen (sds_buf s) len;
                      Some (s\<lparr>sds_buf := buf\<rparr>) }
               else
                 do { buf \<leftarrow> sds_malloc fill hdrlen len;
                      bs \<leftarrow> mem_read (sds_buf s) 0 (len + 1);
                      buf \<leftarrow> mem_write buf 0 bs;
                      Some (sdssetlen (s\<lparr>sds_type := type, sds_buf := buf\<rparr>) len) });
        Some (sdssetalloc s len) })"

definition sdsAllocSize :: "sds \<Rightarrow> nat" where
  "sdsAllocSize s = sdsHdrSize (sds_type s) + sdsalloc s + 1"

text \<open>The assertions convert \<open>incr\<close> to \<open>unsigned int\<close> in several of the cases.\<close>

definition sdsIncrLen :: "sds \<Rightarrow> int \<Rightarrow> sds option" where
  "sdsIncrLen s incr =
     (let len = int (hdr_len s); alloc = int (hdr_alloc s);
          ok = (case sds_type s of
                  SDS_TYPE_5 \<Rightarrow> incr > 0 \<and> len + incr < 32 \<or> incr < 0 \<and> len \<ge> (- incr) mod 2 ^ 32
                | SDS_TYPE_32 \<Rightarrow> incr \<ge> 0 \<and> (alloc - len) mod 2 ^ 32 \<ge> incr mod 2 ^ 32 \<or>
                                 incr < 0 \<and> len \<ge> (- incr) mod 2 ^ 32
                | SDS_TYPE_64 \<Rightarrow> incr \<ge> 0 \<and> (alloc - len) mod 2 ^ 64 \<ge> incr \<or>
                                 incr < 0 \<and> len \<ge> (- incr) mod 2 ^ 64
                | _ \<Rightarrow> incr \<ge> 0 \<and> alloc - len \<ge> incr \<or> incr < 0 \<and> len \<ge> (- incr) mod 2 ^ 32);
          newlen = nat ((len + incr) mod 2 ^ hdr_bits (sds_type s))
      in if ok then
           do { buf \<leftarrow> mem_write (sds_buf s) newlen [CHR 0x00];
                Some (s\<lparr>hdr_len := newlen, sds_buf := buf\<rparr>) }
         else None)"

section \<open>Appending and copying\<close>

definition sdsgrowzero :: "(nat \<Rightarrow> char) \<Rightarrow> sds \<Rightarrow> nat \<Rightarrow> sds option" where
  "sdsgrowzero fill s len =
     (let curlen = sdslen s
      in if len \<le> curlen then Some s
         else do {
           s \<leftarrow> sdsMakeRoomFor fill s (len - curlen);
           buf \<leftarrow> mem_write (sds_buf s) curlen (replicate (len - curlen + 1) (CHR 0x00));
           Some (sdssetlen (s\<lparr>sds_buf := buf\<rparr>) len) })"

definition sdscatlen :: "(nat \<Rightarrow> char) \<Rightarrow> sds \<Rightarrow> string \<Rightarrow> nat \<Rightarrow> sds option" where
  "sdscatlen fill s t len =
     (let curlen = sdslen s
      in do {
        s \<leftarrow> sdsMakeRoomFor fill s len;
        bs \<leftarrow> mem_read t 0 len;
        buf \<leftarrow> mem_write (sds_buf s) curlen bs;
        let s = sdssetlen s (curlen + len);
        buf \<leftarrow> mem_write buf (curlen + len) [CHR 0x00];
        Some (s\<lparr>sds_buf := buf\<rparr>) })"

definition sdscat :: "(nat \<Rightarrow> char) \<Rightarrow> sds \<Rightarrow> string \<Rightarrow> sds option" where
  "sdscat fill s t = sdscatlen fill s t (strlen t)"

definition sdscatsds :: "(nat \<Rightarrow> char) \<Rightarrow> sds \<Rightarrow> sds \<Rightarrow> sds option" where
  "sdscatsds fill s t = sdscatlen fill s (sds_buf t) (sdslen t)"

definition sdscpylen :: "(nat \<Rightarrow> char) \<Rightarrow> sds \<Rightarrow> string \<Rightarrow> nat \<Rightarrow> sds option" where
  "sdscpylen fill s t len =
     do { s \<leftarrow> (if sdsalloc s < len then sdsMakeRoomFor fill s (len - sdslen s) else Some s);
          bs \<leftarrow> mem_read t 0 len;
          buf \<leftarrow> mem_write (sds_buf s) 0 bs;
          buf \<leftarrow> mem_write buf len [CHR 0x00];
          Some (sdssetlen (s\<lparr>sds_buf := buf\<rparr>) len) }"

definition sdscpy :: "(nat \<Rightarrow> char) \<Rightarrow> sds \<Rightarrow> string \<Rightarrow> sds option" where
  "sdscpy fill s t = sdscpylen fill s t (strlen t)"

section \<open>Numbers\<close>

definition SDS_LLSTR_SIZE :: nat where "SDS_LLSTR_SIZE = 21"

text \<open>The digits in reverse order from position \<open>p\<close>, and the reversal of a region.\<close>

function ll2str_digits :: "string \<Rightarrow> nat \<Rightarrow> nat \<Rightarrow> (string \<times> nat) option" where
  "ll2str_digits buf p v =
     do { buf \<leftarrow> mem_write buf p [char_of (48 + v mod 10)];
          if v div 10 = 0 then Some (buf, p + 1) else ll2str_digits buf (p + 1) (v div 10) }"
  by pat_completeness auto
termination
  by (relation "measure (\<lambda>(buf, p, v). v)") auto

declare ll2str_digits.simps [simp del]

function str_reverse :: "string \<Rightarrow> nat \<Rightarrow> nat \<Rightarrow> string option" where
  "str_reverse buf s p =
     (if s < p then
        do { aux \<leftarrow> mem_read buf s 1;
             c \<leftarrow> mem_read buf p 1;
             buf \<leftarrow> mem_write buf s c;
             buf \<leftarrow> mem_write buf p aux;
             str_reverse buf (s + 1) (p - 1) }
      else Some buf)"
  by pat_completeness auto
termination
  by (relation "measure (\<lambda>(buf, s, p). p - s)") auto

declare str_reverse.simps [simp del]

text \<open>\<open>-value\<close> has no defined result for \<open>LLONG_MIN\<close>.\<close>

definition sdsll2str :: "string \<Rightarrow> int \<Rightarrow> (string \<times> nat) option" where
  "sdsll2str s value =
     (if value = LLONG_MIN then None
      else do {
        let v = nat (if value < 0 then - value else value);
        (s, p) \<leftarrow> ll2str_digits s 0 v;
        (s, p) \<leftarrow> (if value < 0 then do { s \<leftarrow> mem_write s p ''-''; Some (s, p + 1) } else Some (s, p));
        let l = p;
        s \<leftarrow> mem_write s p [CHR 0x00];
        s \<leftarrow> str_reverse s 0 (p - 1);
        Some (s, l) })"

definition sdsull2str :: "string \<Rightarrow> nat \<Rightarrow> (string \<times> nat) option" where
  "sdsull2str s v =
     do { (s, p) \<leftarrow> ll2str_digits s 0 v;
          let l = p;
          s \<leftarrow> mem_write s p [CHR 0x00];
          s \<leftarrow> str_reverse s 0 (p - 1);
          Some (s, l) }"

definition sdsfromlonglong :: "(nat \<Rightarrow> char) \<Rightarrow> int \<Rightarrow> sds option" where
  "sdsfromlonglong fill value =
     do { (buf, len) \<leftarrow> sdsll2str (map fill [0..<SDS_LLSTR_SIZE]) value;
          sdsnewlen fill (INIT buf) len }"

text \<open>\<open>sdscatfmt\<close>: the variadic arguments are the list \<open>ap\<close>. \<open>f\<close> is a position of the format
  string and \<open>i\<close> the next byte to write.\<close>

datatype fmt_arg = Arg_s string | Arg_S sds | Arg_i int | Arg_I int | Arg_u nat | Arg_U nat

definition fmt_append :: "(nat \<Rightarrow> char) \<Rightarrow> sds \<Rightarrow> nat \<Rightarrow> string \<Rightarrow> nat \<Rightarrow> (sds \<times> nat) option" where
  "fmt_append fill s i str l =
     do { s \<leftarrow> (if sdsavail s < l then sdsMakeRoomFor fill s l else Some s);
          bs \<leftarrow> mem_read str 0 l;
          buf \<leftarrow> mem_write (sds_buf s) i bs;
          Some (sdsinclen (s\<lparr>sds_buf := buf\<rparr>) l, i + l) }"

definition fmt_char :: "sds \<Rightarrow> nat \<Rightarrow> char \<Rightarrow> (sds \<times> nat) option" where
  "fmt_char s i c =
     do { buf \<leftarrow> mem_write (sds_buf s) i [c];
          Some (sdsinclen (s\<lparr>sds_buf := buf\<rparr>) 1, i + 1) }"

definition fmt_directive ::
  "(nat \<Rightarrow> char) \<Rightarrow> sds \<Rightarrow> nat \<Rightarrow> char \<Rightarrow> fmt_arg list \<Rightarrow> (sds \<times> nat \<times> fmt_arg list) option" where
  "fmt_directive fill s i nxt ap =
     (if nxt = CHR ''s'' \<or> nxt = CHR ''S'' then
        (case ap of
           Arg_s str # ap \<Rightarrow>
             if nxt = CHR ''s'' then
               do { (s, i) \<leftarrow> fmt_append fill s i str (strlen str); Some (s, i, ap) }
             else None
         | Arg_S str # ap \<Rightarrow>
             if nxt = CHR ''S'' then
               do { (s, i) \<leftarrow> fmt_append fill s i (sds_buf str) (sdslen str); Some (s, i, ap) }
             else None
         | _ \<Rightarrow> None)
      else if nxt = CHR ''i'' \<or> nxt = CHR ''I'' then
        do { (num, ap) \<leftarrow> (case ap of
                 Arg_i n # ap \<Rightarrow> if nxt = CHR ''i'' then Some (n, ap) else None
               | Arg_I n # ap \<Rightarrow> if nxt = CHR ''I'' then Some (n, ap) else None
               | _ \<Rightarrow> None);
             (buf, l) \<leftarrow> sdsll2str (map fill [0..<SDS_LLSTR_SIZE]) num;
             (s, i) \<leftarrow> fmt_append fill s i buf l;
             Some (s, i, ap) }
      else if nxt = CHR ''u'' \<or> nxt = CHR ''U'' then
        do { (unum, ap) \<leftarrow> (case ap of
                 Arg_u n # ap \<Rightarrow> if nxt = CHR ''u'' then Some (n, ap) else None
               | Arg_U n # ap \<Rightarrow> if nxt = CHR ''U'' then Some (n, ap) else None
               | _ \<Rightarrow> None);
             (buf, l) \<leftarrow> sdsull2str (map fill [0..<SDS_LLSTR_SIZE]) unum;
             (s, i) \<leftarrow> fmt_append fill s i buf l;
             Some (s, i, ap) }
      else do { (s, i) \<leftarrow> fmt_char s i nxt; Some (s, i, ap) })"

function catfmt_loop ::
  "(nat \<Rightarrow> char) \<Rightarrow> string \<Rightarrow> nat \<Rightarrow> sds \<Rightarrow> nat \<Rightarrow> fmt_arg list \<Rightarrow> (sds \<times> nat) option" where
  "catfmt_loop fill fmt f s i ap =
     do { c \<leftarrow> cstr_at fmt f;
          if c = CHR 0x00 then Some (s, i)
          else do {
            s \<leftarrow> (if sdsavail s = 0 then sdsMakeRoomFor fill s 1 else Some s);
            if c = CHR ''%'' then
              do { nxt \<leftarrow> cstr_at fmt (f + 1);
                   (s, i, ap) \<leftarrow> fmt_directive fill s i nxt ap;
                   catfmt_loop fill fmt (f + 2) s i ap }
            else
              do { (s, i) \<leftarrow> fmt_char s i c;
                   catfmt_loop fill fmt (f + 1) s i ap } } }"
  by pat_completeness auto
termination
  by (relation "measure (\<lambda>(fill, fmt, f, s, i, ap). Suc (length fmt) - f)")
    (auto simp: cstr_at_def split: if_splits)

declare catfmt_loop.simps [simp del]

definition sdscatfmt :: "(nat \<Rightarrow> char) \<Rightarrow> sds \<Rightarrow> string \<Rightarrow> fmt_arg list \<Rightarrow> sds option" where
  "sdscatfmt fill s fmt ap =
     do { (s, i) \<leftarrow> catfmt_loop fill fmt 0 s (sdslen s) ap;
          buf \<leftarrow> mem_write (sds_buf s) i [CHR 0x00];
          Some (s\<lparr>sds_buf := buf\<rparr>) }"

section \<open>Trimming, slicing and comparing\<close>

text \<open>\<open>strchr(cset, c) != NULL\<close>: the terminator of \<open>cset\<close> is found, too.\<close>

definition strchr_has :: "string \<Rightarrow> char \<Rightarrow> bool" where
  "strchr_has cset c \<longleftrightarrow> c = CHR 0x00 \<or> c \<in> set (take (strlen cset) cset)"

function trim_left :: "string \<Rightarrow> string \<Rightarrow> nat \<Rightarrow> int \<Rightarrow> nat option" where
  "trim_left cset buf sp stop =
     (if int sp \<le> stop then
        do { c \<leftarrow> mem_read buf sp 1;
             if strchr_has cset (c ! 0) then trim_left cset buf (sp + 1) stop else Some sp }
      else Some sp)"
  by pat_completeness auto
termination
  by (relation "measure (\<lambda>(cset, buf, sp, stop). nat (stop + 1 - int sp))") auto

declare trim_left.simps [simp del]

function trim_right :: "string \<Rightarrow> string \<Rightarrow> nat \<Rightarrow> int \<Rightarrow> int option" where
  "trim_right cset buf sp ep =
     (if ep > int sp then
        do { c \<leftarrow> mem_read buf (nat ep) 1;
             if strchr_has cset (c ! 0) then trim_right cset buf sp (ep - 1) else Some ep }
      else Some ep)"
  by pat_completeness auto
termination
  by (relation "measure (\<lambda>(cset, buf, sp, ep). nat (ep - int sp))") auto

declare trim_right.simps [simp del]

definition sdstrim :: "sds \<Rightarrow> string \<Rightarrow> sds option" where
  "sdstrim s cset =
     do { let stop = int (sdslen s) - 1;
          sp \<leftarrow> trim_left cset (sds_buf s) 0 stop;
          ep \<leftarrow> trim_right cset (sds_buf s) sp stop;
          let len = (if int sp > ep then 0 else nat (ep - int sp + 1));
          buf \<leftarrow> (if sp \<noteq> 0 then mem_move (sds_buf s) 0 sp len else Some (sds_buf s));
          buf \<leftarrow> mem_write buf len [CHR 0x00];
          Some (sdssetlen (s\<lparr>sds_buf := buf\<rparr>) len) }"

text \<open>\<open>start\<close> and \<open>end\<close> are of type \<open>ssize_t\<close>; \<open>end - start + 1\<close> must not overflow.\<close>

definition sdsrange :: "sds \<Rightarrow> int \<Rightarrow> int \<Rightarrow> sds option" where
  "sdsrange s start stop =
     (let len = int (sdslen s)
      in if len = 0 then Some s
         else do {
           let start = (if start < 0 then (if len + start < 0 then 0 else len + start) else start);
           let stop = (if stop < 0 then (if len + stop < 0 then 0 else len + stop) else stop);
           newlen \<leftarrow> (if start > stop then Some 0
                     else if stop - start + 1 > LLONG_MAX then None
                     else Some (stop - start + 1));
           let (start, newlen) =
             (if newlen \<noteq> 0 then
                (if start \<ge> len then (start, 0)
                 else if stop \<ge> len then
                   (let stop = len - 1 in (start, if start > stop then 0 else stop - start + 1))
                 else (start, newlen))
              else (0, newlen));
           buf \<leftarrow> (if start \<noteq> 0 \<and> newlen \<noteq> 0
                    then mem_move (sds_buf s) 0 (nat start) (nat newlen) else Some (sds_buf s));
           buf \<leftarrow> mem_write buf (nat newlen) [CHR 0x00];
           Some (sdssetlen (s\<lparr>sds_buf := buf\<rparr>) (nat newlen)) })"

definition of_cval :: "int \<Rightarrow> char" where
  "of_cval x = char_of (nat (x mod 256))"

definition toupper_int :: "int \<Rightarrow> int" where
  "toupper_int x = (if 97 \<le> x \<and> x \<le> 122 then x - 32 else x)"

definition tolower_char :: "char \<Rightarrow> char" where
  "tolower_char c = of_cval (tolower_int (cval c))"

definition toupper_char :: "char \<Rightarrow> char" where
  "toupper_char c = of_cval (toupper_int (cval c))"

text \<open>The loops over the bytes of a string that replace each byte by one computed from it.\<close>

definition sds_map :: "(char \<Rightarrow> char) \<Rightarrow> sds \<Rightarrow> sds option" where
  "sds_map f s =
     do { bs \<leftarrow> mem_read (sds_buf s) 0 (sdslen s);
          buf \<leftarrow> mem_write (sds_buf s) 0 (map f bs);
          Some (s\<lparr>sds_buf := buf\<rparr>) }"

definition sdstolower :: "sds \<Rightarrow> sds option" where
  "sdstolower s = sds_map tolower_char s"

definition sdstoupper :: "sds \<Rightarrow> sds option" where
  "sdstoupper s = sds_map toupper_char s"

text \<open>The sign of \<open>memcmp\<close> on two regions of the same size: bytes compare as unsigned.\<close>

fun memcmp :: "string \<Rightarrow> string \<Rightarrow> int" where
  "memcmp (a # as) (b # bs) =
     (if a = b then memcmp as bs else if (of_char a :: nat) < of_char b then - 1 else 1)"
| "memcmp _ _ = 0"

definition sdscmp :: "sds \<Rightarrow> sds \<Rightarrow> int option" where
  "sdscmp s1 s2 =
     do { let l1 = sdslen s1;
          let l2 = sdslen s2;
          let minlen = (if l1 < l2 then l1 else l2);
          b1 \<leftarrow> mem_read (sds_buf s1) 0 minlen;
          b2 \<leftarrow> mem_read (sds_buf s2) 0 minlen;
          let cmp = memcmp b1 b2;
          Some (if cmp = 0 then (if l1 > l2 then 1 else if l1 < l2 then - 1 else 0) else cmp) }"

definition sdsmapchars :: "sds \<Rightarrow> string \<Rightarrow> string \<Rightarrow> nat \<Rightarrow> sds option" where
  "sdsmapchars s from to setlen =
     do { fs \<leftarrow> mem_read from 0 setlen;
          ts \<leftarrow> mem_read to 0 setlen;
          sds_map (\<lambda>c. case map_of (zip fs ts) c of None \<Rightarrow> c | Some d \<Rightarrow> d) s }"

section \<open>Splitting and joining\<close>

text \<open>
  The loop of \<open>sdssplitlen\<close> on the text \<open>s\<close>: \<open>tokens\<close> are the elements found so far, in an
  array of \<open>slots\<close> places. A token is represented by its contents, a fresh \<open>sdsnewlen\<close> string.
  The counters are \<open>int\<close>s: doubling \<open>slots\<close> beyond their range is undefined, and the number of elements
  stays below \<open>slots\<close>.
\<close>

definition double_int :: "nat \<Rightarrow> nat option" where
  "double_int n = (if n * 2 < 2 ^ 31 then Some (n * 2) else None)"

definition put_token :: "string list \<Rightarrow> nat \<Rightarrow> string \<Rightarrow> string list option" where
  "put_token tokens slots t = (if length tokens < slots then Some (tokens @ [t]) else None)"

function split_loop ::
  "string \<Rightarrow> string \<Rightarrow> nat \<Rightarrow> nat \<Rightarrow> nat \<Rightarrow> string list \<Rightarrow> (nat \<times> nat \<times> string list) option" where
  "split_loop s sep j start slots tokens =
     (if sep \<noteq> [] \<and> int j < int (length s) - (int (length sep) - 1) then
        do { slots \<leftarrow> (if slots < length tokens + 2 then double_int slots else Some slots);
             b \<leftarrow> mem_read s j (length sep);
             if b = sep then
               do { t \<leftarrow> mem_read s start (j - start);
                    tokens \<leftarrow> put_token tokens slots t;
                    split_loop s sep (j + length sep) (j + length sep) slots tokens }
             else split_loop s sep (j + 1) start slots tokens }
      else Some (start, slots, tokens))"
  by pat_completeness auto
termination
  by (relation "measure (\<lambda>(s, sep, j, start, slots, tokens). Suc (length s) - j)")
    (auto intro!: diff_less_mono2)

declare split_loop.simps [simp del]

text \<open>The inner \<open>None\<close> is the result \<open>NULL\<close>.\<close>

definition sdssplitlen :: "string \<Rightarrow> string \<Rightarrow> string list option option" where
  "sdssplitlen s sep =
     (if length sep < 1 then Some None
      else if length s = 0 then Some (Some [])
      else do {
        (start, slots, tokens) \<leftarrow> split_loop s sep 0 0 5 [];
        t \<leftarrow> mem_read s start (length s - start);
        tokens \<leftarrow> put_token tokens slots t;
        Some (Some tokens) })"

definition isprint :: "char \<Rightarrow> bool" where
  "isprint c \<longleftrightarrow> 32 \<le> cval c \<and> cval c < 127"

definition isspace :: "char \<Rightarrow> bool" where
  "isspace c \<longleftrightarrow> cval c = 32 \<or> 9 \<le> cval c \<and> cval c \<le> 13"

definition hex_char :: "nat \<Rightarrow> char" where
  "hex_char d = (if d < 10 then char_of (48 + d) else char_of (87 + d))"

text \<open>The text one character is turned into; the calls of \<open>sdscatprintf\<close> append it.\<close>

definition repr_char :: "char \<Rightarrow> string" where
  "repr_char c =
     (if c = CHR 0x5C \<or> c = CHR 0x22 then [CHR 0x5C, c]
      else if c = CHR 0x0A then [CHR 0x5C, CHR ''n'']
      else if c = CHR 0x0D then [CHR 0x5C, CHR ''r'']
      else if c = CHR 0x09 then [CHR 0x5C, CHR ''t'']
      else if c = CHR 0x07 then [CHR 0x5C, CHR ''a'']
      else if c = CHR 0x08 then [CHR 0x5C, CHR ''b'']
      else if isprint c then [c]
      else [CHR 0x5C, CHR ''x'', hex_char (of_char c div 16), hex_char (of_char c mod 16)])"

primrec repr_loop :: "(nat \<Rightarrow> char) \<Rightarrow> sds \<Rightarrow> string \<Rightarrow> sds option" where
  "repr_loop fill s [] = Some s"
| "repr_loop fill s (c # p) =
     do { s \<leftarrow> sdscatlen fill s (repr_char c) (length (repr_char c)); repr_loop fill s p }"

definition sdscatrepr :: "(nat \<Rightarrow> char) \<Rightarrow> sds \<Rightarrow> string \<Rightarrow> sds option" where
  "sdscatrepr fill s p =
     do { s \<leftarrow> sdscatlen fill s [CHR 0x22] 1;
          s \<leftarrow> repr_loop fill s p;
          sdscatlen fill s [CHR 0x22] 1 }"

definition is_hex_digit :: "char \<Rightarrow> bool" where
  "is_hex_digit c \<longleftrightarrow>
     cval c \<ge> cval (CHR ''0'') \<and> cval c \<le> cval (CHR ''9'') \<or>
     cval c \<ge> cval (CHR ''a'') \<and> cval c \<le> cval (CHR ''f'') \<or>
     cval c \<ge> cval (CHR ''A'') \<and> cval c \<le> cval (CHR ''F'')"

text \<open>The cases of the switch in \<open>hex_digit_to_int\<close>, in the order of the source, with its default.\<close>

definition hex_digit_to_int :: "char \<Rightarrow> nat" where
  "hex_digit_to_int c =
     (case map_of (zip ''0123456789abcdefABCDEF'' ([0..<16] @ [10..<16])) c of Some d \<Rightarrow> d | None \<Rightarrow> 0)"

text \<open>
  \<open>sdssplitargs\<close>. \<open>p\<close> is a position of the C string \<open>line\<close>; \<open>current\<close> and the arguments of
  the vector are the contents of strings grown by \<open>sdscatlen\<close>. The inner \<open>None\<close> stands for
  the jump to \<open>err\<close>. First the escape \<open>\xHH\<close>: its byte, if \<open>p\<close> is at one.
\<close>

definition hex_escape :: "string \<Rightarrow> nat \<Rightarrow> char option option" where
  "hex_escape line p =
     do { c0 \<leftarrow> cstr_at line p;
          if c0 \<noteq> CHR 0x5C then Some None
          else do {
            c1 \<leftarrow> cstr_at line (p + 1);
            if c1 \<noteq> CHR ''x'' then Some None
            else do {
              c2 \<leftarrow> cstr_at line (p + 2);
              if \<not> is_hex_digit c2 then Some None
              else do {
                c3 \<leftarrow> cstr_at line (p + 3);
                if \<not> is_hex_digit c3 then Some None
                else Some (Some (char_of (hex_digit_to_int c2 * 16 + hex_digit_to_int c3))) } } } }"

definition unescape :: "char \<Rightarrow> char" where
  "unescape c =
     (if c = CHR ''n'' then CHR 0x0A
      else if c = CHR ''r'' then CHR 0x0D
      else if c = CHR ''t'' then CHR 0x09
      else if c = CHR ''b'' then CHR 0x08
      else if c = CHR ''a'' then CHR 0x07
      else c)"

text \<open>One turn of the loop \<open>while (!done)\<close>: the new values of \<open>p\<close>, \<open>inq\<close>, \<open>insq\<close>,
  \<open>done\<close> and \<open>current\<close>, before the increment of \<open>p\<close> at the end of the turn.\<close>

type_synonym arg_state = "nat \<times> bool \<times> bool \<times> bool \<times> string"

definition close_quote :: "string \<Rightarrow> nat \<Rightarrow> bool \<Rightarrow> bool \<Rightarrow> string \<Rightarrow> arg_state option option" where
  "close_quote line p inq insq current =
     do { c1 \<leftarrow> cstr_at line (p + 1);
          if c1 \<noteq> CHR 0x00 \<and> \<not> isspace c1 then Some None
          else Some (Some (p, inq, insq, True, current)) }"

definition arg_turn :: "string \<Rightarrow> nat \<Rightarrow> bool \<Rightarrow> bool \<Rightarrow> string \<Rightarrow> arg_state option option" where
  "arg_turn line p inq insq current =
     do { c \<leftarrow> cstr_at line p;
          if inq then
            do { h \<leftarrow> hex_escape line p;
                 c1 \<leftarrow> (if c = CHR 0x5C then cstr_at line (p + 1) else Some (CHR 0x00));
                 case h of
                   Some byte \<Rightarrow> Some (Some (p + 3, inq, insq, False, current @ [byte]))
                 | None \<Rightarrow>
                     if c1 \<noteq> CHR 0x00 then
                       Some (Some (p + 1, inq, insq, False, current @ [unescape c1]))
                     else if c = CHR 0x22 then close_quote line p inq insq current
                     else if c = CHR 0x00 then Some None
                     else Some (Some (p, inq, insq, False, current @ [c])) }
          else if insq then
            do { c1 \<leftarrow> (if c = CHR 0x5C then cstr_at line (p + 1) else Some (CHR 0x00));
                 if c1 = CHR 0x27 then Some (Some (p + 1, inq, insq, False, current @ [CHR 0x27]))
                 else if c = CHR 0x27 then close_quote line p inq insq current
                 else if c = CHR 0x00 then Some None
                 else Some (Some (p, inq, insq, False, current @ [c])) }
          else if c \<in> {CHR '' '', CHR 0x0A, CHR 0x0D, CHR 0x09, CHR 0x00} then
            Some (Some (p, inq, insq, True, current))
          else if c = CHR 0x22 then Some (Some (p, True, insq, False, current))
          else if c = CHR 0x27 then Some (Some (p, inq, True, False, current))
          else Some (Some (p, inq, insq, False, current @ [c])) }"

lemma arg_turn_pos:
  assumes "arg_turn line p inq insq cur = Some (Some (p', r))"
  shows "p \<le> p'"
proof -
  have "c = Some (p', r) \<Longrightarrow> p' = p" if "close_quote line p inq insq cur = Some c" for c inq insq cur
    using that by (auto simp: close_quote_def split: bind_splits if_splits)
  then show ?thesis
    using assms unfolding arg_turn_def
    by (cases inq; cases insq) (auto split: bind_splits if_splits option.splits)
qed

text \<open>A turn that would neither advance nor end the loop would be repeated forever.\<close>

function arg_loop :: "string \<Rightarrow> nat \<Rightarrow> bool \<Rightarrow> bool \<Rightarrow> string \<Rightarrow> (nat \<times> string) option option" where
  "arg_loop line p inq insq current =
     (case arg_turn line p inq insq current of
        None \<Rightarrow> None
      | Some None \<Rightarrow> Some None
      | Some (Some (p', inq, insq, stop, current)) \<Rightarrow>
          do { c \<leftarrow> cstr_at line p';
               let q = (if c \<noteq> CHR 0x00 then p' + 1 else p');
               if stop then Some (Some (q, current))
               else if q \<le> p then None
               else arg_loop line q inq insq current })"
  by pat_completeness auto
termination
proof (relation "measure (\<lambda>(line, p, inq, insq, current). Suc (length line) - p)", goal_cases)
  case (2 line p inq insq cur t st p' r inq' r1 insq' r2 stop cur' c q)
  then have "p \<le> p'" using arg_turn_pos [of line p inq insq cur p'] by auto
  moreover have "p' \<le> length line" using 2 by (auto simp: cstr_at_def split: if_splits)
  ultimately show ?case using 2 by auto
qed simp

declare arg_loop.simps [simp del]

function skip_spaces :: "string \<Rightarrow> nat \<Rightarrow> nat option" where
  "skip_spaces line p =
     do { c \<leftarrow> cstr_at line p;
          if c \<noteq> CHR 0x00 \<and> isspace c then skip_spaces line (p + 1) else Some p }"
  by pat_completeness auto
termination
  by (relation "measure (\<lambda>(line, p). Suc (length line) - p)")
    (auto simp: cstr_at_def split: if_splits)

declare skip_spaces.simps [simp del]

lemma skip_spaces_pos: "skip_spaces line p = Some q \<Longrightarrow> p \<le> q"
proof (induction line p rule: skip_spaces.induct)
  case (1 line p)
  then show ?case
    by (subst (asm) (2) skip_spaces.simps) (auto split: bind_splits if_splits)
qed

text \<open>The counter \<open>*argc\<close> of \<open>sdssplitargs\<close> is an \<open>int\<close>: the model stands for lines of less than \<open>2 ^ 31\<close>
  arguments.\<close>

function splitargs_loop :: "string \<Rightarrow> nat \<Rightarrow> string list \<Rightarrow> string list option option" where
  "splitargs_loop line p vector =
     (case skip_spaces line p of
        None \<Rightarrow> None
      | Some q \<Rightarrow>
          do { c \<leftarrow> cstr_at line q;
               if c = CHR 0x00 then Some (Some vector)
               else
                 (case arg_loop line q False False [] of
                    None \<Rightarrow> None
                  | Some None \<Rightarrow> Some None
                  | Some (Some (q', current)) \<Rightarrow>
                      if q' \<le> q then None else splitargs_loop line q' (vector @ [current])) })"
  by pat_completeness auto
termination
proof (relation "measure (\<lambda>(line, p, vector). Suc (length line) - p)", goal_cases)
  case (2 line p vector q c t st q' cur)
  then have "p \<le> q" by (auto dest: skip_spaces_pos)
  moreover have "q \<le> length line" using 2 by (auto simp: cstr_at_def split: if_splits)
  ultimately show ?case using 2 by auto
qed simp

declare splitargs_loop.simps [simp del]

definition sdssplitargs :: "string \<Rightarrow> string list option option" where
  "sdssplitargs line = splitargs_loop line 0 []"

definition sdsjoin :: "(nat \<Rightarrow> char) \<Rightarrow> string list \<Rightarrow> string \<Rightarrow> sds option" where
  "sdsjoin fill argv sep =
     do { join \<leftarrow> sdsempty fill;
          join_loop (sdscat fill) (\<lambda>join. sdscat fill join sep) join argv }"

definition sdsjoinsds :: "(nat \<Rightarrow> char) \<Rightarrow> sds list \<Rightarrow> string \<Rightarrow> nat \<Rightarrow> sds option" where
  "sdsjoinsds fill argv sep seplen =
     do { join \<leftarrow> sdsempty fill;
          join_loop (sdscatsds fill) (\<lambda>join. sdscatlen fill join sep seplen) join argv }"

section \<open>The invariant and the contents\<close>

text \<open>\<open>sds_wf\<close> holds between two writes of the terminator, \<open>sds_inv\<close> after every operation.\<close>

definition sds_wf :: "sds \<Rightarrow> bool" where
  "sds_wf s \<longleftrightarrow> sdslen s \<le> sdsalloc s \<and> sdsalloc s < 2 ^ hdr_bits (sds_type s) \<and>
     sdsalloc s < length (sds_buf s)"

definition sds_inv :: "sds \<Rightarrow> bool" where
  "sds_inv s \<longleftrightarrow> sds_wf s \<and> sds_buf s ! sdslen s = CHR 0x00"

definition contents :: "sds \<Rightarrow> string" where
  "contents s = take (sdslen s) (sds_buf s)"

lemma length_contents: "sds_wf s \<Longrightarrow> length (contents s) = sdslen s"
  by (simp add: contents_def sds_wf_def)

lemma hdr_bits_64: "(2 :: nat) ^ hdr_bits t \<le> 2 ^ 64"
  by (cases t) simp_all

lemma sdsReqType_fits: "n < 2 ^ 64 \<Longrightarrow> n < 2 ^ hdr_bits (sdsReqType n)"
  by (simp add: sdsReqType_def)

lemma sdsavail_eq:
  assumes "sds_wf s"
  shows "sdsavail s = sdsalloc s - sdslen s"
proof -
  have w: "(a + m - l) mod m = a - l" if "l \<le> a" "a < m" for a l m :: nat
  proof -
    have "a + m - l = (a - l) + m" using that by simp
    then show ?thesis using that by (simp only: mod_add_self2) simp
  qed
  have "hdr_len s \<le> sdsalloc s" "sdsalloc s < 2 ^ hdr_bits (sds_type s)"
    using assms by (simp_all add: sds_wf_def sdslen_def)
  then show ?thesis
    using w [of "hdr_len s" "hdr_alloc s" "2 ^ 64"] w [of "hdr_len s" "hdr_alloc s" "2 ^ 32"]
    by (cases "sds_type s") (simp_all add: sdsavail_def sdsalloc_def sdslen_def)
qed

lemma sdslen_simps [simp]:
  "sdslen (s\<lparr>sds_buf := b\<rparr>) = sdslen s"
  "sdslen (s\<lparr>sds_type := t\<rparr>) = sdslen s"
  "sdslen (s\<lparr>hdr_alloc := a\<rparr>) = sdslen s"
  by (simp_all add: sdslen_def)

lemma sdsalloc_simps [simp]: "sdsalloc (s\<lparr>sds_buf := b\<rparr>) = sdsalloc s"
  by (simp add: sdsalloc_def)

lemma setlen_simps [simp]:
  "sds_buf (sdssetlen s n) = sds_buf s" "sds_type (sdssetlen s n) = sds_type s"
  "n < 2 ^ hdr_bits (sds_type s) \<Longrightarrow> sdslen (sdssetlen s n) = n"
  by (simp_all add: sdssetlen_def sdslen_def)

lemma setalloc_simps [simp]:
  "sds_buf (sdssetalloc s n) = sds_buf s" "sds_type (sdssetalloc s n) = sds_type s"
  "sdslen (sdssetalloc s n) = sdslen s"
  by (simp_all add: sdssetalloc_def sdslen_def)

section \<open>Every operation stays in bounds and refines a list operation\<close>

lemma sds_set_contents:
  assumes "sds_wf s" and "n \<le> sdsalloc s" and "length b = length (sds_buf s)"
    and "b ! n = CHR 0x00"
  shows "sds_inv (sdssetlen (s\<lparr>sds_buf := b\<rparr>) n)"
    and "contents (sdssetlen (s\<lparr>sds_buf := b\<rparr>) n) = take n b"
proof -
  have n: "n < 2 ^ hdr_bits (sds_type s)" using assms(1,2) by (simp add: sds_wf_def)
  have "sdsalloc (sdssetlen (s\<lparr>sds_buf := b\<rparr>) n) =
      (if sds_type s = SDS_TYPE_5 then n else sdsalloc s)"
    using n by (simp add: sdsalloc_def sdssetlen_def)
  then show "sds_inv (sdssetlen (s\<lparr>sds_buf := b\<rparr>) n)"
    using assms n by (auto simp: sds_inv_def sds_wf_def)
  show "contents (sdssetlen (s\<lparr>sds_buf := b\<rparr>) n) = take n b"
    using n by (simp add: contents_def)
qed

text \<open>Writing the terminator at a position inside of the allocation.\<close>

lemma sds_terminate:
  assumes "sds_wf s" and "n \<le> sdsalloc s" and "length b = length (sds_buf s)"
  obtains b' where "mem_write b n [CHR 0x00] = Some b'"
    and "sds_inv (sdssetlen (s\<lparr>sds_buf := b'\<rparr>) n)"
    and "contents (sdssetlen (s\<lparr>sds_buf := b'\<rparr>) n) = take n b"
proof -
  have n: "n < length b" using assms by (simp add: sds_wf_def)
  let ?b = "take n b @ [CHR 0x00] @ drop (n + 1) b"
  have l: "length ?b = length (sds_buf s)" "?b ! n = CHR 0x00" "take n ?b = take n b"
    using n assms(3) by (simp_all add: nth_append)
  have w: "mem_write b n [CHR 0x00] = Some ?b"
    using mem_write_Some [of n "[CHR 0x00]" b] n by (simp only: length_Cons list.size(3)) simp
  show ?thesis
    using sds_set_contents [OF assms(1,2) l(1,2)] unfolding l(3) by (rule that [OF w])
qed

lemma mem_read_prefix: "n \<le> length m \<Longrightarrow> mem_read m 0 n = Some (take n m)"
  by (simp add: mem_read_def)

lemma sds_malloc_Some:
  assumes "n < 2 ^ 63" and "hdr \<le> 17"
  shows "sds_malloc fill hdr n = Some (map fill [0..<n + 1])"
proof -
  have "(hdr + n + 1) mod 2 ^ 64 = hdr + n + 1" using assms by (intro mod_less) simp
  then show ?thesis by (simp only: sds_malloc_def Let_def) simp
qed

lemma sds_realloc_Some:
  assumes "n < 2 ^ 63" and "hdr \<le> 17"
  shows "sds_realloc fill hdr buf n = Some (zrealloc fill buf (n + 1))"
proof -
  have "(hdr + n + 1) mod 2 ^ 64 = hdr + n + 1" using assms by (intro mod_less) simp
  then show ?thesis by (simp only: sds_realloc_def Let_def) simp
qed

lemma sdsHdrSize_le: "sdsHdrSize t \<le> 17"
  by (cases t) simp_all

lemma take_zrealloc: "k \<le> n \<Longrightarrow> k \<le> length b \<Longrightarrow> take k (zrealloc fill b n) = take k b"
  by (simp add: zrealloc_def)

lemma sdsMakeRoomFor_correct:
  assumes "sds_wf s" and "sdslen s + addlen < 2 ^ 62"
  obtains s' where "sdsMakeRoomFor fill s addlen = Some s'" and "sds_wf s'"
    and "sdslen s' = sdslen s" and "sdslen s + addlen \<le> sdsalloc s'"
    and "take (Suc (sdslen s)) (sds_buf s') = take (Suc (sdslen s)) (sds_buf s)"
proof (cases "sdsavail s \<ge> addlen")
  case True
  moreover have "sdslen s + addlen \<le> sdsalloc s"
    using True assms(1) by (auto simp: sdsavail_eq sds_wf_def)
  ultimately show ?thesis
    using that [of s] assms(1) by (simp add: sdsMakeRoomFor_def)
next
  case False
  define newlen where "newlen = (let n = sdslen s + addlen in
      if n < SDS_MAX_PREALLOC then n * 2 else n + SDS_MAX_PREALLOC)"
  define type where "type = (let t = sdsReqType newlen in if t = SDS_TYPE_5 then SDS_TYPE_8 else t)"
  have nl: "newlen < 2 ^ 63" "sdslen s + addlen \<le> newlen"
    using assms(2) by (auto simp: newlen_def Let_def SDS_MAX_PREALLOC_def)
  then have nt: "newlen < 2 ^ hdr_bits type" "type \<noteq> SDS_TYPE_5"
    using sdsReqType_fits [of newlen] by (auto simp: type_def Let_def)
  have len: "sdslen s < length (sds_buf s)" "sdslen s < newlen"
    using assms(1) False nl(2) by (auto simp: sds_wf_def)
  define s1 where "s1 = (if sds_type s = type then s\<lparr>sds_buf := zrealloc fill (sds_buf s) (newlen + 1)\<rparr>
     else sdssetlen (s\<lparr>sds_type := type, sds_buf := take (sdslen s + 1) (sds_buf s) @
        drop (sdslen s + 1) (map fill [0..<newlen + 1])\<rparr>) (sdslen s))"
  have eq: "sdsMakeRoomFor fill s addlen = Some (sdssetalloc s1 newlen)"
  proof -
    have m: "(sdslen s + addlen) mod 2 ^ 64 = sdslen s + addlen"
      "(sdslen s + addlen + SDS_MAX_PREALLOC) mod 2 ^ 64 = sdslen s + addlen + SDS_MAX_PREALLOC"
      using assms(2) by (auto simp: SDS_MAX_PREALLOC_def intro!: mod_less)
    have nl': "(if sdslen s + addlen < SDS_MAX_PREALLOC then (sdslen s + addlen) * 2
        else sdslen s + addlen + SDS_MAX_PREALLOC) = newlen" by (simp add: newlen_def Let_def)
    have t': "(if sdsReqType newlen = SDS_TYPE_5 then SDS_TYPE_8 else sdsReqType newlen) = type"
      by (simp add: type_def Let_def)
    have r: "mem_read (sds_buf s) 0 (sdslen s + 1) = Some (take (sdslen s + 1) (sds_buf s))"
      and w: "mem_write (map fill [0..<newlen + 1]) 0 (take (sdslen s + 1) (sds_buf s)) =
        Some (take (sdslen s + 1) (sds_buf s) @ drop (sdslen s + 1) (map fill [0..<newlen + 1]))"
    proof -
      have l: "length (take (sdslen s + 1) (sds_buf s)) = sdslen s + 1" using len by simp
      show "mem_read (sds_buf s) 0 (sdslen s + 1) = Some (take (sdslen s + 1) (sds_buf s))"
        using len by (intro mem_read_prefix) simp
      have "0 + length (take (sdslen s + 1) (sds_buf s)) \<le> length (map fill [0..<newlen + 1])"
        unfolding l using len by simp
      from mem_write_Some [OF this]
      show "mem_write (map fill [0..<newlen + 1]) 0 (take (sdslen s + 1) (sds_buf s)) =
          Some (take (sdslen s + 1) (sds_buf s) @ drop (sdslen s + 1) (map fill [0..<newlen + 1]))"
        unfolding l by simp
    qed
    show ?thesis
      unfolding sdsMakeRoomFor_def Let_def m nl' t' if_not_P [OF False] s1_def
        sds_realloc_Some [OF nl(1) sdsHdrSize_le] sds_malloc_Some [OF nl(1) sdsHdrSize_le] bind.bind_lunit r w
      by (simp split: if_split)
  qed
  have s1: "sds_type s1 = type" "sdslen s1 = sdslen s" "length (sds_buf s1) = newlen + 1"
    "take (Suc (sdslen s)) (sds_buf s1) = take (Suc (sdslen s)) (sds_buf s)"
    using len nt by (auto simp: s1_def take_zrealloc)
  have "sdsalloc (sdssetalloc s1 newlen) = newlen"
    using s1(1) nt by (simp add: sdsalloc_def sdssetalloc_def)
  then show ?thesis
    using that [OF eq] s1 nl(2) nt len by (simp add: sds_wf_def)
qed

lemma setlen_buf: "(sdssetlen s n)\<lparr>sds_buf := b\<rparr> = sdssetlen (s\<lparr>sds_buf := b\<rparr>) n"
  by (simp add: sdssetlen_def)

lemma sdscatlen_correct:
  assumes "sds_wf s" and "sdslen s + len < 2 ^ 62" and "len \<le> length t"
  obtains s' where "sdscatlen fill s t len = Some s'" and "sds_inv s'"
    and "contents s' = contents s @ take len t"
proof -
  obtain s1 where s1: "sdsMakeRoomFor fill s len = Some s1" "sds_wf s1" "sdslen s1 = sdslen s"
    "sdslen s + len \<le> sdsalloc s1"
    "take (Suc (sdslen s)) (sds_buf s1) = take (Suc (sdslen s)) (sds_buf s)"
    using sdsMakeRoomFor_correct [OF assms(1,2)] by blast
  have l: "sdslen s + len < length (sds_buf s1)" using s1(2,4) by (simp add: sds_wf_def)
  let ?b = "take (sdslen s) (sds_buf s1) @ take len t @ drop (sdslen s + len) (sds_buf s1)"
  have lt: "length (take len t) = len" using assms(3) by simp
  have w: "mem_write (sds_buf s1) (sdslen s) (take len t) = Some ?b"
    using mem_write_Some [of "sdslen s" "take len t" "sds_buf s1"] l unfolding lt by simp
  have lb: "length ?b = length (sds_buf s1)" using l assms(3) by simp
  obtain b' where b': "mem_write ?b (sdslen s + len) [CHR 0x00] = Some b'"
    "sds_inv (sdssetlen (s1\<lparr>sds_buf := b'\<rparr>) (sdslen s + len))"
    "contents (sdssetlen (s1\<lparr>sds_buf := b'\<rparr>) (sdslen s + len)) = take (sdslen s + len) ?b"
    using sds_terminate [OF s1(2,4) lb] by blast
  have c1: "take (sdslen s) (sds_buf s1) = contents s"
    using arg_cong [OF s1(5), of "take (sdslen s)"] by (simp add: contents_def)
  have c2: "take (sdslen s + len) ?b = take (sdslen s) (sds_buf s1) @ take len t"
    using l assms(3) by simp
  show ?thesis
  proof (rule that)
    show "sdscatlen fill s t len = Some (sdssetlen (s1\<lparr>sds_buf := b'\<rparr>) (sdslen s + len))"
      unfolding sdscatlen_def Let_def s1(1) mem_read_prefix [OF assms(3)] bind.bind_lunit
        w b'(1) setlen_buf ..
    show "contents (sdssetlen (s1\<lparr>sds_buf := b'\<rparr>) (sdslen s + len)) = contents s @ take len t"
      unfolding b'(3) c2 unfolding c1 ..
  qed (rule b'(2))
qed

text \<open>The interface of growing strings, on the model's own operations.\<close>

lemma sds_inv_wf: "sds_inv s \<Longrightarrow> sds_wf s"
  by (simp add: sds_inv_def)

lemma sdscatlen_take: "n \<le> length t \<Longrightarrow> sdscatlen fill s t n = sdscatlen fill s (take n t) n"
  by (simp add: sdscatlen_def mem_read_def)

interpretation sb: string_builder sds_inv contents "\<lambda>s t. sdscatlen fill s t (length t)" for fill
proof
  fix s and t :: string
  assume s: "sds_inv s" and l: "length (contents s) + length t < 2 ^ 62"
  have "sdslen s + length t < 2 ^ 62" using l length_contents [OF sds_inv_wf [OF s]] by simp
  from sdscatlen_correct [OF sds_inv_wf [OF s] this order_refl, of fill]
  show "\<exists>s'. sdscatlen fill s t (length t) = Some s' \<and> sds_inv s' \<and> contents s' = contents s @ t"
    by auto
qed

lemma sds_fresh:
  assumes "n < 2 ^ hdr_bits type" and "length b = n + 1"
  obtains b' where "mem_write b n [CHR 0x00] = Some b'"
    and "sds_inv \<lparr>sds_type = type, hdr_len = n mod 2 ^ hdr_bits type,
      hdr_alloc = n mod 2 ^ hdr_bits type, sds_buf = b'\<rparr>"
    and "contents \<lparr>sds_type = type, hdr_len = n mod 2 ^ hdr_bits type,
      hdr_alloc = n mod 2 ^ hdr_bits type, sds_buf = b'\<rparr> = take n b"
proof -
  define s where "s = \<lparr>sds_type = type, hdr_len = n mod 2 ^ hdr_bits type,
    hdr_alloc = n mod 2 ^ hdr_bits type, sds_buf = b\<rparr>"
  have "sds_wf s" "n \<le> sdsalloc s" "length b = length (sds_buf s)"
    using assms by (auto simp: s_def sds_wf_def sdslen_def sdsalloc_def)
  from sds_terminate [OF this] obtain b' where b': "mem_write b n [CHR 0x00] = Some b'"
    "sds_inv (sdssetlen (s\<lparr>sds_buf := b'\<rparr>) n)"
    "contents (sdssetlen (s\<lparr>sds_buf := b'\<rparr>) n) = take n b" by blast
  moreover have "sdssetlen (s\<lparr>sds_buf := b'\<rparr>) n = \<lparr>sds_type = type, hdr_len = n mod 2 ^ hdr_bits type,
      hdr_alloc = n mod 2 ^ hdr_bits type, sds_buf = b'\<rparr>"
    by (simp add: s_def sdssetlen_def)
  ultimately show ?thesis using that by simp
qed

definition newlen_type :: "nat \<Rightarrow> sds_type" where
  "newlen_type n = (if sdsReqType n = SDS_TYPE_5 \<and> n = 0 then SDS_TYPE_8 else sdsReqType n)"

lemma newlen_type_fits: "n < 2 ^ 62 \<Longrightarrow> n < 2 ^ hdr_bits (newlen_type n)"
  using sdsReqType_fits [of n] by (auto simp: newlen_type_def)

lemma sdsnewlen_correct:
  assumes "n < 2 ^ 62" and "n \<le> length d"
  obtains s where "sdsnewlen fill (INIT d) n = Some s" and "sds_inv s" and "contents s = take n d"
proof -
  have l63: "n < 2 ^ 63" using assms(1) by simp
  have ld: "length (take n d) = n" using assms(2) by simp
  let ?b0 = "map fill [0..<n + 1]"
  have w: "mem_write ?b0 0 (take n d) = Some (take n d @ drop n ?b0)"
    using mem_write_Some [of 0 "take n d" ?b0] unfolding ld by simp
  define b1 where "b1 = (if n \<noteq> 0 then take n d @ drop n ?b0 else ?b0)"
  have b1: "length b1 = n + 1" "take n b1 = take n d" using ld by (auto simp: b1_def)
  have e: "(if n \<noteq> 0 then do { bs \<leftarrow> mem_read d 0 n; mem_write ?b0 0 bs } else Some ?b0) = Some b1"
    unfolding mem_read_prefix [OF assms(2)] bind.bind_lunit w b1_def by simp
  obtain b' where b': "mem_write b1 n [CHR 0x00] = Some b'"
    "sds_inv \<lparr>sds_type = newlen_type n, hdr_len = n mod 2 ^ hdr_bits (newlen_type n),
      hdr_alloc = n mod 2 ^ hdr_bits (newlen_type n), sds_buf = b'\<rparr>"
    "contents \<lparr>sds_type = newlen_type n, hdr_len = n mod 2 ^ hdr_bits (newlen_type n),
      hdr_alloc = n mod 2 ^ hdr_bits (newlen_type n), sds_buf = b'\<rparr> = take n b1"
    using sds_fresh [OF newlen_type_fits [OF assms(1)] b1(1)] by blast
  have ne: "(INIT d = INIT_NULL) = False" by simp
  show ?thesis
  proof (rule that)
    show "sdsnewlen fill (INIT d) n = Some \<lparr>sds_type = newlen_type n,
        hdr_len = n mod 2 ^ hdr_bits (newlen_type n), hdr_alloc = n mod 2 ^ hdr_bits (newlen_type n),
        sds_buf = b'\<rparr>"
      unfolding sdsnewlen_def Let_def newlen_type_def [symmetric] sds_malloc_Some [OF l63 sdsHdrSize_le]
        bind.bind_lunit ne if_False sds_init.case e b'(1) ..
  qed (use b' b1 in simp_all)
qed

lemma sdsnewlen_zero:
  assumes "n < 2 ^ 62"
  obtains s where "sdsnewlen fill INIT_NULL n = Some s" and "sds_inv s"
    and "contents s = replicate n (CHR 0x00)"
proof -
  have l63: "n < 2 ^ 63" using assms by simp
  define z where "z = replicate (length (map fill [0..<n + 1])) (CHR 0x00)"
  have z: "length z = n + 1" "take n z = replicate n (CHR 0x00)"
    unfolding z_def by (simp_all only: length_replicate length_map length_upt take_replicate) simp_all
  obtain b' where b': "mem_write z n [CHR 0x00] = Some b'"
    "sds_inv \<lparr>sds_type = newlen_type n, hdr_len = n mod 2 ^ hdr_bits (newlen_type n),
      hdr_alloc = n mod 2 ^ hdr_bits (newlen_type n), sds_buf = b'\<rparr>"
    "contents \<lparr>sds_type = newlen_type n, hdr_len = n mod 2 ^ hdr_bits (newlen_type n),
      hdr_alloc = n mod 2 ^ hdr_bits (newlen_type n), sds_buf = b'\<rparr> = take n z"
    using sds_fresh [OF newlen_type_fits [OF assms] z(1)] by blast
  show ?thesis
  proof (rule that)
    show "sdsnewlen fill INIT_NULL n = Some \<lparr>sds_type = newlen_type n,
        hdr_len = n mod 2 ^ hdr_bits (newlen_type n), hdr_alloc = n mod 2 ^ hdr_bits (newlen_type n),
        sds_buf = b'\<rparr>"
      unfolding sdsnewlen_def Let_def newlen_type_def [symmetric] sds_malloc_Some [OF l63 sdsHdrSize_le]
        bind.bind_lunit if_P [OF refl] sds_init.case z_def [symmetric] b'(1) ..
  qed (use b' z in simp_all)
qed

lemma mem_move_front:
  assumes "p + n \<le> length m"
  shows "mem_move m 0 p n = Some (take n (drop p m) @ drop n m)"
proof -
  have l: "length (take n (drop p m)) = n" using assms by simp
  have "mem_write m 0 (take n (drop p m)) = Some (take n (drop p m) @ drop n m)"
    using mem_write_Some [of 0 "take n (drop p m)" m] assms unfolding l by simp
  then show ?thesis using assms by (simp only: mem_move_def mem_read_Some bind.bind_lunit)
qed

text \<open>Moving a part of the string to the front, as trimming and slicing do.\<close>

lemma sds_shift:
  assumes "sds_wf s" and "p + n \<le> sdslen s"
  obtains b b' where "(if p \<noteq> 0 then mem_move (sds_buf s) 0 p n else Some (sds_buf s)) = Some b"
    and "mem_write b n [CHR 0x00] = Some b'"
    and "sds_inv (sdssetlen (s\<lparr>sds_buf := b'\<rparr>) n)"
    and "contents (sdssetlen (s\<lparr>sds_buf := b'\<rparr>) n) = take n (drop p (contents s))"
proof -
  have len: "sdslen s < length (sds_buf s)" "n \<le> sdsalloc s" using assms by (auto simp: sds_wf_def)
  define b where "b = (if p \<noteq> 0 then take n (drop p (sds_buf s)) @ drop n (sds_buf s) else sds_buf s)"
  have b: "(if p \<noteq> 0 then mem_move (sds_buf s) 0 p n else Some (sds_buf s)) = Some b"
    using mem_move_front [of p n "sds_buf s"] assms(2) len(1) by (auto simp: b_def)
  have lb: "length b = length (sds_buf s)" using assms(2) len(1) by (auto simp: b_def)
  have tb: "take n b = take n (drop p (sds_buf s))" using assms(2) len(1) by (auto simp: b_def)
  have "take n (drop p (sds_buf s)) = take n (drop p (contents s))"
    using assms(2) by (simp add: contents_def drop_take)
  then show ?thesis
    using sds_terminate [OF assms(1) len(2) lb] that [OF b] tb by metis
qed

lemma sdsclear_correct:
  assumes "sds_wf s"
  obtains s' where "sdsclear s = Some s'" and "sds_inv s'" and "contents s' = []"
proof -
  obtain b b' where b: "mem_write (sds_buf s) 0 [CHR 0x00] = Some b'"
    "sds_inv (sdssetlen (s\<lparr>sds_buf := b'\<rparr>) 0)"
    "contents (sdssetlen (s\<lparr>sds_buf := b'\<rparr>) 0) = take 0 (drop 0 (contents s))"
    using sds_shift [OF assms, of 0 0] by auto
  have "sdsclear s = Some (sdssetlen (s\<lparr>sds_buf := b'\<rparr>) 0)"
    using b(1) by (simp add: sdsclear_def setlen_buf)
  then show ?thesis using that b by simp
qed

lemma sdsdup_correct:
  assumes "sds_wf s" and "sdslen s < 2 ^ 62"
  obtains s' where "sdsdup fill s = Some s'" and "sds_inv s'" and "contents s' = contents s"
  using sdsnewlen_correct [OF assms(2), of "sds_buf s" fill] assms(1)
  by (auto simp: sdsdup_def sds_wf_def contents_def)

lemma sds_wf_len: "sds_wf s \<Longrightarrow> sdslen s < length (sds_buf s)"
  by (simp add: sds_wf_def)

lemma sdsgrowzero_correct:
  assumes "sds_inv s" and "len < 2 ^ 62"
  obtains s' where "sdsgrowzero fill s len = Some s'" and "sds_inv s'"
    and "contents s' = contents s @ replicate (len - sdslen s) (CHR 0x00)"
proof (cases "len \<le> sdslen s")
  case True
  then show ?thesis using that assms(1) by (simp add: sdsgrowzero_def)
next
  case False
  then have le: "sdslen s + (len - sdslen s) = len" by simp
  obtain s1 where s1: "sdsMakeRoomFor fill s (len - sdslen s) = Some s1" "sds_wf s1"
    "sdslen s1 = sdslen s" "len \<le> sdsalloc s1"
    "take (Suc (sdslen s)) (sds_buf s1) = take (Suc (sdslen s)) (sds_buf s)"
    using sdsMakeRoomFor_correct [OF sds_inv_wf [OF assms(1)], of "len - sdslen s" fill] assms(2)
    unfolding le by blast
  have l: "len < length (sds_buf s1)" using s1(2,4) by (simp add: sds_wf_def)
  define b where "b = take (sdslen s) (sds_buf s1) @ replicate (len - sdslen s + 1) (CHR 0x00) @
    drop (len + 1) (sds_buf s1)"
  have w: "mem_write (sds_buf s1) (sdslen s) (replicate (len - sdslen s + 1) (CHR 0x00)) = Some b"
    using mem_write_Some [of "sdslen s" "replicate (len - sdslen s + 1) (CHR 0x00)" "sds_buf s1"] l False
    unfolding b_def length_replicate by simp
  have "length (take (sdslen s) (sds_buf s1)) = sdslen s" using l False by simp
  then have b: "length b = length (sds_buf s1)" "b ! len = CHR 0x00"
    "take len b = take (sdslen s) (sds_buf s1) @ replicate (len - sdslen s) (CHR 0x00)"
    using l False unfolding b_def
    by (auto simp: nth_append simp del: replicate_Suc)
  have c: "take (sdslen s) (sds_buf s1) = contents s"
    using arg_cong [OF s1(5), of "take (sdslen s)"] by (simp add: contents_def)
  have "sdsgrowzero fill s len = Some (sdssetlen (s1\<lparr>sds_buf := b\<rparr>) len)"
    unfolding sdsgrowzero_def Let_def if_not_P [OF False] s1(1) bind.bind_lunit w ..
  then show ?thesis
    using that sds_set_contents [OF s1(2,4) b(1,2)] b(3) c by simp
qed

lemma sdscpylen_correct:
  assumes "sds_inv s" and "len < 2 ^ 62" and "len \<le> length t"
  obtains s' where "sdscpylen fill s t len = Some s'" and "sds_inv s'" and "contents s' = take len t"
proof -
  have wf: "sds_wf s" by (rule sds_inv_wf [OF assms(1)])
  obtain s1 where s1: "(if sdsalloc s < len then sdsMakeRoomFor fill s (len - sdslen s) else Some s) = Some s1"
    "sds_wf s1" "len \<le> sdsalloc s1"
  proof (cases "sdsalloc s < len")
    case True
    then have "sdslen s + (len - sdslen s) = len" using wf by (simp add: sds_wf_def)
    then show ?thesis
      using that sdsMakeRoomFor_correct [OF wf, of "len - sdslen s" fill] assms(2) True by metis
  next
    case False
    then show ?thesis using that wf by simp
  qed
  have l: "len < length (sds_buf s1)" using s1(2,3) by (simp add: sds_wf_def)
  have lt: "length (take len t) = len" using assms(3) by simp
  define b where "b = take len t @ drop len (sds_buf s1)"
  have w: "mem_write (sds_buf s1) 0 (take len t) = Some b"
    using mem_write_Some [of 0 "take len t" "sds_buf s1"] l unfolding lt b_def by simp
  have lb: "length b = length (sds_buf s1)" "take len b = take len t" using l lt by (simp_all add: b_def)
  obtain b' where b': "mem_write b len [CHR 0x00] = Some b'"
    "sds_inv (sdssetlen (s1\<lparr>sds_buf := b'\<rparr>) len)"
    "contents (sdssetlen (s1\<lparr>sds_buf := b'\<rparr>) len) = take len b"
    using sds_terminate [OF s1(2,3) lb(1)] by blast
  show ?thesis
  proof (rule that)
    show "sdscpylen fill s t len = Some (sdssetlen (s1\<lparr>sds_buf := b'\<rparr>) len)"
      unfolding sdscpylen_def s1(1) bind.bind_lunit mem_read_prefix [OF assms(3)] w b'(1) ..
  qed (use b' lb in simp_all)
qed

lemma sdsRemoveFreeSpace_correct:
  assumes "sds_inv s" and "sdslen s < 2 ^ 62"
  obtains s' where "sdsRemoveFreeSpace fill s = Some s'" and "sds_inv s'"
    and "contents s' = contents s" and "sdsalloc s' = sdslen s"
proof -
  define len type where "len = sdslen s" and "type = sdsReqType len"
  have l: "len < length (sds_buf s)" "sds_buf s ! len = CHR 0x00" "len < 2 ^ 63" "len < 2 ^ hdr_bits type"
    "len < 2 ^ hdr_bits (sds_type s)"
    using assms sdsReqType_fits [of len] by (auto simp: len_def type_def sds_inv_def sds_wf_def)
  define keep where "keep = (sds_type s = type \<or> type \<notin> {SDS_TYPE_5, SDS_TYPE_8})"
  define b where "b = take (len + 1) (sds_buf s)"
  have lb: "length b = len + 1" "b ! len = CHR 0x00" "take len b = contents s"
    using l by (simp_all add: b_def contents_def len_def)
  have z: "zrealloc fill (sds_buf s) (len + 1) = b" using l(1) by (simp add: zrealloc_shrink b_def)
  have r: "mem_read (sds_buf s) 0 (len + 1) = Some b"
    using l(1) mem_read_prefix [of "len + 1" "sds_buf s"] by (simp add: b_def)
  have w: "mem_write (map fill [0..<len + 1]) 0 b = Some b"
    using mem_write_Some [of 0 b "map fill [0..<len + 1]"] unfolding lb(1) by simp
  define s1 where "s1 = (if keep then s\<lparr>sds_buf := b\<rparr>
    else sdssetlen (s\<lparr>sds_type := type, sds_buf := b\<rparr>) len)"
  have eq: "sdsRemoveFreeSpace fill s = Some (sdssetalloc s1 len)"
    unfolding sdsRemoveFreeSpace_def Let_def len_def [symmetric] type_def [symmetric] keep_def [symmetric]
      sds_realloc_Some [OF l(3) sdsHdrSize_le] sds_malloc_Some [OF l(3) sdsHdrSize_le] bind.bind_lunit r w z
      s1_def
    by (cases keep) simp_all
  have "sdslen s1 = len" "sds_buf s1 = b" "len < 2 ^ hdr_bits (sds_type s1)"
    using l by (auto simp: s1_def len_def)
  moreover have "sdsalloc (sdssetalloc s1 len) = len"
    using calculation by (auto simp: sdsalloc_def sdssetalloc_def sdslen_def)
  ultimately show ?thesis
    using that [OF eq] lb by (simp add: sds_inv_def sds_wf_def contents_def len_def)
qed

text \<open>After \<open>sdsMakeRoomFor\<close> and a write of \<open>n > 0\<close> bytes behind the end of the string.\<close>

lemma sdsIncrLen_correct:
  assumes "sds_wf s" and "0 < n" and "n \<le> sdsavail s" and "n < 2 ^ 31"
  obtains s' where "sdsIncrLen s (int n) = Some s'" and "sds_inv s'"
    and "contents s' = take (sdslen s + n) (sds_buf s)"
proof -
  have a: "sdslen s + n \<le> sdsalloc s" "sdsalloc s < 2 ^ hdr_bits (sds_type s)" "sds_type s \<noteq> SDS_TYPE_5"
    using assms by (auto simp: sdsavail_eq sds_wf_def sdsalloc_def sdslen_def)
  then have h: "hdr_len s + n \<le> hdr_alloc s" "hdr_alloc s < 2 ^ hdr_bits (sds_type s)"
    by (simp_all add: sdsalloc_def sdslen_def)
  have nl: "nat ((int (hdr_len s) + int n) mod 2 ^ hdr_bits (sds_type s)) = sdslen s + n"
  proof -
    have "(hdr_len s + n) mod 2 ^ hdr_bits (sds_type s) = hdr_len s + n" using h by simp
    then show ?thesis by (simp add: sdslen_def nat_mod_distrib nat_add_distrib nat_power_eq)
  qed
  have ok: "(case sds_type s of
        SDS_TYPE_5 \<Rightarrow> int n > 0 \<and> int (hdr_len s) + int n < 32 \<or>
          int n < 0 \<and> int (hdr_len s) \<ge> (- int n) mod 2 ^ 32
      | SDS_TYPE_32 \<Rightarrow> int n \<ge> 0 \<and> (int (hdr_alloc s) - int (hdr_len s)) mod 2 ^ 32 \<ge> int n mod 2 ^ 32 \<or>
                       int n < 0 \<and> int (hdr_len s) \<ge> (- int n) mod 2 ^ 32
      | SDS_TYPE_64 \<Rightarrow> int n \<ge> 0 \<and> (int (hdr_alloc s) - int (hdr_len s)) mod 2 ^ 64 \<ge> int n \<or>
                       int n < 0 \<and> int (hdr_len s) \<ge> (- int n) mod 2 ^ 64
      | _ \<Rightarrow> int n \<ge> 0 \<and> int (hdr_alloc s) - int (hdr_len s) \<ge> int n \<or>
             int n < 0 \<and> int (hdr_len s) \<ge> (- int n) mod 2 ^ 32)"
    using h a(3) assms(4) by (cases "sds_type s") simp_all
  obtain b' where b': "mem_write (sds_buf s) (sdslen s + n) [CHR 0x00] = Some b'"
    "sds_inv (sdssetlen (s\<lparr>sds_buf := b'\<rparr>) (sdslen s + n))"
    "contents (sdssetlen (s\<lparr>sds_buf := b'\<rparr>) (sdslen s + n)) = take (sdslen s + n) (sds_buf s)"
    using sds_terminate [OF assms(1) a(1) refl] by blast
  show ?thesis
  proof (rule that)
    have "sdssetlen (s\<lparr>sds_buf := b'\<rparr>) (sdslen s + n) = s\<lparr>hdr_len := sdslen s + n, sds_buf := b'\<rparr>"
      using h by (simp add: sdssetlen_def sdslen_def)
    then show "sdsIncrLen s (int n) = Some (sdssetlen (s\<lparr>sds_buf := b'\<rparr>) (sdslen s + n))"
      unfolding sdsIncrLen_def Let_def nl if_P [OF ok] b'(1) bind.bind_lunit by simp
  qed (use b' in simp_all)
qed

lemma sds_map_correct:
  assumes "sds_inv s"
  obtains s' where "sds_map f s = Some s'" and "sds_inv s'" and "contents s' = map f (contents s)"
proof -
  have l: "sdslen s < length (sds_buf s)" using assms by (simp add: sds_inv_def sds_wf_def)
  have lm: "length (map f (contents s)) = sdslen s" using l by (simp add: contents_def)
  define b where "b = map f (contents s) @ drop (sdslen s) (sds_buf s)"
  have "mem_write (sds_buf s) 0 (map f (contents s)) = Some b"
    using mem_write_Some [of 0 "map f (contents s)" "sds_buf s"] l unfolding lm b_def by simp
  moreover have "mem_read (sds_buf s) 0 (sdslen s) = Some (contents s)"
    unfolding contents_def using l by (intro mem_read_prefix) simp
  ultimately have eq: "sds_map f s = Some (s\<lparr>sds_buf := b\<rparr>)" by (simp add: sds_map_def)
  have "length b = length (sds_buf s)" "b ! sdslen s = sds_buf s ! sdslen s" "take (sdslen s) b = map f (contents s)"
    using l lm unfolding b_def by (simp_all add: nth_append)
  then show ?thesis
    using that [OF eq] assms by (simp add: sds_inv_def sds_wf_def contents_def)
qed

lemma mem_read_one: "i < length m \<Longrightarrow> mem_read m i 1 = Some [m ! i]"
  by (simp add: mem_read_def take_Suc_conv_app_nth hd_drop_conv_nth take_Suc)

lemma trim_left_correct:
  assumes "sp \<le> len" and "len \<le> length buf"
  shows "trim_left cset buf sp (int len - 1) =
    Some (sp + length (takeWhile (strchr_has cset) (drop sp (take len buf))))"
  using assms(1)
proof (induction "len - sp" arbitrary: sp)
  case 0
  then show ?case by (subst trim_left.simps) simp
next
  case (Suc k)
  then have sp: "sp < len" by simp
  then have d: "drop sp (take len buf) = buf ! sp # drop (sp + 1) (take len buf)"
    using assms(2) by (simp flip: Cons_nth_drop_Suc)
  have r: "mem_read buf sp 1 = Some [buf ! sp]" using sp assms(2) by (intro mem_read_one) simp
  have "trim_left cset buf (sp + 1) (int len - 1) =
      Some (sp + 1 + length (takeWhile (strchr_has cset) (drop (sp + 1) (take len buf))))"
    using Suc by (intro Suc.hyps(1)) auto
  then show ?case
    using sp unfolding d by (subst trim_left.simps) (simp only: r, simp)
qed

lemma trim_right_correct:
  assumes "sp + k < length buf" and "\<not> strchr_has cset (buf ! sp)"
  shows "\<exists>j \<le> k. trim_right cset buf sp (int (sp + k)) = Some (int (sp + j)) \<and>
    take (Suc j) (drop sp buf) = rev (dropWhile (strchr_has cset) (rev (take (Suc k) (drop sp buf))))"
  using assms(1)
proof (induction k)
  case 0
  have "take (Suc 0) (drop sp buf) = [buf ! sp]" using 0 by (simp add: take_Suc hd_drop_conv_nth)
  then show ?case using assms(2) by (subst trim_right.simps) simp
next
  case (Suc k)
  have t: "take (Suc (Suc k)) (drop sp buf) = take (Suc k) (drop sp buf) @ [buf ! (sp + Suc k)]"
    using Suc.prems by (subst take_Suc_conv_app_nth) simp_all
  have r: "mem_read buf (nat (int (sp + Suc k))) 1 = Some [buf ! (sp + Suc k)]"
    using Suc.prems by (subst nat_int) (rule mem_read_one)
  show ?case
  proof (cases "strchr_has cset (buf ! (sp + Suc k))")
    case True
    obtain j where j: "j \<le> k" "trim_right cset buf sp (int (sp + k)) = Some (int (sp + j))"
      "take (Suc j) (drop sp buf) = rev (dropWhile (strchr_has cset) (rev (take (Suc k) (drop sp buf))))"
      using Suc by auto
    have "trim_right cset buf sp (int (sp + Suc k)) = trim_right cset buf sp (int (sp + k))"
      using True by (subst trim_right.simps) (simp only: r, simp)
    then show ?thesis using j True unfolding t by (intro exI [of _ j]) simp
  next
    case False
    have "trim_right cset buf sp (int (sp + Suc k)) = Some (int (sp + Suc k))"
      using False by (subst trim_right.simps) (simp only: r, simp)
    then show ?thesis using False unfolding t by (intro exI [of _ "Suc k"]) (simp add: t)
  qed
qed

lemma sdstrim_correct:
  assumes "sds_inv s"
  obtains s' where "sdstrim s cset = Some s'" and "sds_inv s'"
    and "contents s' = rev (dropWhile (strchr_has cset) (rev (dropWhile (strchr_has cset) (contents s))))"
proof -
  let ?h = "strchr_has cset"
  have wf: "sds_wf s" and l: "sdslen s < length (sds_buf s)"
    using assms by (auto simp: sds_inv_def sds_wf_def)
  define sp where "sp = length (takeWhile ?h (contents s))"
  have lc: "length (contents s) = sdslen s" by (rule length_contents [OF wf])
  have spl: "sp \<le> sdslen s" using length_takeWhile_le [of ?h "contents s"] by (simp add: sp_def lc)
  have dw: "dropWhile ?h (contents s) = drop sp (contents s)" by (simp add: sp_def dropWhile_eq_drop)
  have left: "trim_left cset (sds_buf s) 0 (int (sdslen s) - 1) = Some sp"
    using trim_left_correct [of 0 "sdslen s" "sds_buf s" cset] l by (simp add: sp_def contents_def)
  obtain ep n where ep: "trim_right cset (sds_buf s) sp (int (sdslen s) - 1) = Some ep"
    "(if int sp > ep then 0 else nat (ep - int sp + 1)) = n" "sp + n \<le> sdslen s"
    "take n (drop sp (contents s)) = rev (dropWhile ?h (rev (drop sp (contents s))))"
  proof (cases "sp = sdslen s")
    case True
    have "trim_right cset (sds_buf s) sp (int (sdslen s) - 1) = Some (int (sdslen s) - 1)"
      using True by (subst trim_right.simps) simp
    then show ?thesis using that True lc by simp
  next
    case False
    then have lt: "sp < length (contents s)" using spl lc by simp
    have nh: "\<not> ?h (sds_buf s ! sp)"
      using nth_length_takeWhile [of ?h "contents s"] lt by (simp add: sp_def contents_def)
    define k where "k = sdslen s - sp - 1"
    have k: "sp + k < length (sds_buf s)" "int (sp + k) = int (sdslen s) - 1" "Suc k = sdslen s - sp"
      using lt l lc by (simp_all add: k_def)
    obtain j where j: "j \<le> k" "trim_right cset (sds_buf s) sp (int (sp + k)) = Some (int (sp + j))"
      "take (Suc j) (drop sp (sds_buf s)) = rev (dropWhile ?h (rev (take (Suc k) (drop sp (sds_buf s)))))"
      using trim_right_correct [OF k(1) nh] by blast
    have d: "take (Suc k) (drop sp (sds_buf s)) = drop sp (contents s)"
      by (simp add: k(3) contents_def drop_take)
    have "take (Suc j) (drop sp (contents s)) = take (Suc j) (drop sp (sds_buf s))"
      using j(1) by (simp flip: d)
    then show ?thesis
      using j k that [of "int (sp + j)" "Suc j"] unfolding d by (simp add: k(2))
  qed
  obtain b b' where b: "(if sp \<noteq> 0 then mem_move (sds_buf s) 0 sp n else Some (sds_buf s)) = Some b"
    "mem_write b n [CHR 0x00] = Some b'" "sds_inv (sdssetlen (s\<lparr>sds_buf := b'\<rparr>) n)"
    "contents (sdssetlen (s\<lparr>sds_buf := b'\<rparr>) n) = take n (drop sp (contents s))"
    using sds_shift [OF wf ep(3)] by blast
  show ?thesis
  proof (rule that)
    show "sdstrim s cset = Some (sdssetlen (s\<lparr>sds_buf := b'\<rparr>) n)"
      unfolding sdstrim_def Let_def left ep(1) bind.bind_lunit ep(2) b(1,2) ..
  qed (use b ep(4) dw in simp_all)
qed

text \<open>The inclusive slice, with negative positions counted from the end.\<close>

definition clamp :: "nat \<Rightarrow> int \<Rightarrow> int" where
  "clamp n i = (if i < 0 then max 0 (int n + i) else i)"

definition slice :: "'a list \<Rightarrow> int \<Rightarrow> int \<Rightarrow> 'a list" where
  "slice xs start stop =
     (let a = clamp (length xs) start; b = min (clamp (length xs) stop) (int (length xs) - 1)
      in if a > b then [] else take (nat (b - a + 1)) (drop (nat a) xs))"

lemma sdsrange_correct:
  assumes "sds_inv s" and "sdslen s < 2 ^ 62" and "stop < LLONG_MAX"
  obtains s' where "sdsrange s start stop = Some s'" and "sds_inv s'"
    and "contents s' = slice (contents s) start stop"
proof (cases "sdslen s = 0")
  case True
  then show ?thesis
    using that [of s] assms(1) by (auto simp: sdsrange_def contents_def slice_def Let_def)
next
  case False
  have wf: "sds_wf s" by (rule sds_inv_wf [OF assms(1)])
  have lc: "length (contents s) = sdslen s" by (rule length_contents [OF wf])
  define a b where "a = clamp (sdslen s) start" and "b = clamp (sdslen s) stop"
  have a0: "0 \<le> a" "0 \<le> b" using assms by (auto simp: a_def b_def clamp_def)
  have bm: "b - a + 1 \<le> LLONG_MAX"
    using a0 assms(2,3) by (auto simp: b_def clamp_def LLONG_MAX_def)
  define p n where "p = (if a > b then 0 else a)"
    and "n = (if a > b \<or> a \<ge> int (sdslen s) then 0 else min b (int (sdslen s) - 1) - a + 1)"
  define q where "q = (if n \<noteq> 0 then nat p else 0)"
  have q: "q + nat n \<le> sdslen s" "0 \<le> n" "0 \<le> p" using a0 by (auto simp: q_def p_def n_def)
  have sl: "take (nat n) (drop q (contents s)) = slice (contents s) start stop"
    using a0 by (auto simp: slice_def lc q_def p_def n_def Let_def simp flip: a_def b_def)
  obtain buf buf' where b: "(if q \<noteq> 0 then mem_move (sds_buf s) 0 q (nat n) else Some (sds_buf s)) = Some buf"
    "mem_write buf (nat n) [CHR 0x00] = Some buf'"
    "sds_inv (sdssetlen (s\<lparr>sds_buf := buf'\<rparr>) (nat n))"
    "contents (sdssetlen (s\<lparr>sds_buf := buf'\<rparr>) (nat n)) = take (nat n) (drop q (contents s))"
    using sds_shift [OF wf q(1)] by blast
  have mv: "(if p \<noteq> 0 \<and> n \<noteq> 0 then mem_move (sds_buf s) 0 (nat p) (nat n) else Some (sds_buf s)) = Some buf"
    using b(1) q(3) by (auto simp: q_def split: if_splits)
  have cl: "(if i < 0 then if int (sdslen s) + i < 0 then 0 else int (sdslen s) + i else i) = clamp (sdslen s) i"
    for i by (simp add: clamp_def)
  have nl: "(if a > b then Some 0 else if b - a + 1 > LLONG_MAX then None else Some (b - a + 1)) =
      Some (if a > b then 0 else b - a + 1)"
    using bm by simp
  have pn: "(if (if a > b then 0 else b - a + 1) \<noteq> 0 then
        (if a \<ge> int (sdslen s) then (a, 0)
         else if b \<ge> int (sdslen s) then
           (a, if a > int (sdslen s) - 1 then 0 else int (sdslen s) - 1 - a + 1)
         else (a, if a > b then 0 else b - a + 1))
      else (0, if a > b then 0 else b - a + 1)) = (p, n)"
    by (auto simp: p_def n_def)
  have nz: "int (sdslen s) \<noteq> 0" using False by simp
  show ?thesis
  proof (rule that)
    show "sdsrange s start stop = Some (sdssetlen (s\<lparr>sds_buf := buf'\<rparr>) (nat n))"
      unfolding sdsrange_def Let_def if_not_P [OF nz] cl a_def [symmetric] b_def [symmetric] nl
        bind.bind_lunit pn prod.case mv b(2) ..
  qed (use b sl in simp_all)
qed

text \<open>Bytes compare as unsigned numbers, a proper prefix is smaller.\<close>

definition byte_less :: "string \<Rightarrow> string \<Rightarrow> bool" where
  "byte_less a b \<longleftrightarrow> (a, b) \<in> lexord {(x, y). (of_char x :: nat) < of_char y}"

definition cmp_full :: "string \<Rightarrow> string \<Rightarrow> int" where
  "cmp_full a b =
     (let m = min (length a) (length b); c = memcmp (take m a) (take m b)
      in if c = 0 then sgn (int (length a) - int (length b)) else c)"

lemma cmp_full_simps:
  "cmp_full [] [] = 0" "cmp_full [] (y # b) = - 1" "cmp_full (x # a) [] = 1"
  "cmp_full (x # a) (y # b) =
     (if x = y then cmp_full a b else if (of_char x :: nat) < of_char y then - 1 else 1)"
  by (simp_all add: cmp_full_def Let_def)

lemma cmp_full_refl: "cmp_full a a = 0"
  by (induction a) (simp_all add: cmp_full_simps)

lemma cmp_full_byte_less:
  "cmp_full a b = (if a = b then 0 else if byte_less a b then - 1 else 1)"
proof (induction a arbitrary: b)
  case Nil
  then show ?case by (cases b) (simp_all add: byte_less_def cmp_full_simps)
next
  case (Cons x a)
  then show ?case
    by (cases b) (simp_all add: byte_less_def cmp_full_simps cmp_full_refl)
qed

lemma sdscmp_correct:
  assumes "sds_wf s1" and "sds_wf s2"
  shows "sdscmp s1 s2 = Some
    (if contents s1 = contents s2 then 0 else if byte_less (contents s1) (contents s2) then - 1 else 1)"
proof -
  define m where "m = (if sdslen s1 < sdslen s2 then sdslen s1 else sdslen s2)"
  have r: "mem_read (sds_buf s1) 0 m = Some (take m (contents s1))"
    "mem_read (sds_buf s2) 0 m = Some (take m (contents s2))"
    using sds_wf_len [OF assms(1)] sds_wf_len [OF assms(2)]
    by (auto simp: m_def contents_def mem_read_prefix)
  have mm: "m = min (length (contents s1)) (length (contents s2))"
    using assms by (simp add: m_def length_contents)
  have "sdscmp s1 s2 = Some (cmp_full (contents s1) (contents s2))"
    unfolding sdscmp_def Let_def m_def [symmetric] r bind.bind_lunit cmp_full_def mm [symmetric]
    using assms by (auto simp: length_contents)
  then show ?thesis by (simp only: cmp_full_byte_less)
qed

section \<open>Splitting\<close>

text \<open>The reference: the text up to the first occurrence of the separator, and so on.\<close>

function split_ref :: "'a list \<Rightarrow> 'a list \<Rightarrow> 'a list \<Rightarrow> 'a list list" where
  "split_ref sep acc s =
     (if s = [] \<or> length s < length sep \<or> sep = [] then [acc @ s]
      else if take (length sep) s = sep then acc # split_ref sep [] (drop (length sep) s)
      else split_ref sep (acc @ [hd s]) (tl s))"
  by pat_completeness auto
termination
  by (relation "measure (\<lambda>(sep, acc, s). length s)") auto

declare split_ref.simps [simp del]

lemma split_loop_correct:
  assumes "sep \<noteq> []" and "start \<le> j" and "j \<le> length s" and "length tokens < slots" and "0 < slots"
    and "length tokens \<le> j" and "length s < 2 ^ 30"
  shows "\<exists>start' slots' tokens'. split_loop s sep j start slots tokens = Some (start', slots', tokens') \<and>
    length tokens' < slots' \<and> start' \<le> length s \<and>
    tokens' @ [drop start' s] = tokens @ split_ref sep (take (j - start) (drop start s)) (drop j s)"
  using assms
proof (induction s sep j start slots tokens rule: split_loop.induct)
  case (1 s sep j start slots tokens)
  have ls: "0 < length sep" using "1.prems"(1) by simp
  show ?case
  proof (cases "int j < int (length s) - (int (length sep) - 1)")
    case False
    have "length s < j + length sep" using False by linarith
    then have "length (drop j s) < length sep" unfolding length_drop using ls by linarith
    then have "split_ref sep (take (j - start) (drop start s)) (drop j s) =
        [take (j - start) (drop start s) @ drop j s]"
      by (subst split_ref.simps) simp
    also have "take (j - start) (drop start s) @ drop j s = drop start s"
      using append_take_drop_id [of "j - start" "drop start s"] "1.prems"(2) by simp
    finally show ?thesis
      using False "1.prems" by (subst split_loop.simps) simp
  next
    case True
    then have jl: "j + length sep \<le> length s" by simp
    then have r: "mem_read s j (length sep) = Some (take (length sep) (drop j s))"
      by (simp add: mem_read_def)
    define slots1 where "slots1 = (if slots < length tokens + 2 then slots * 2 else slots)"
    have sl: "length tokens + 1 < slots1" using "1.prems"(4,5) by (auto simp: slots1_def)
    have "length tokens + 1 \<le> j + length sep" using "1.prems"(6) ls by linarith
    then have tl: "length (tokens @ [t]) \<le> j + length sep" for t by simp
    have "length tokens + 1 < 2 ^ 30" using "1.prems"(6,7) jl ls by linarith
    then have d: "(if slots < length tokens + 2 then double_int slots else Some slots) = Some slots1"
      by (auto simp: slots1_def double_int_def)
    have c: "sep \<noteq> [] \<and> int j < int (length s) - (int (length sep) - 1)" using True "1.prems"(1) by simp
    have js: "j < length s" "j - start < length s - start" using jl ls "1.prems"(2) by linarith+
    have nj: "\<not> (drop j s = [] \<or> length (drop j s) < length sep \<or> sep = [])"
      using jl js "1.prems"(1) by auto
    show ?thesis
    proof (cases "take (length sep) (drop j s) = sep")
      case eq: True
      have rt: "mem_read s start (j - start) = Some (take (j - start) (drop start s))"
        using "1.prems"(2) jl by (simp add: mem_read_def)
      have "split_loop s sep j start slots tokens = split_loop s sep (j + length sep) (j + length sep) slots1
          (tokens @ [take (j - start) (drop start s)])"
        using sl by (subst split_loop.simps)
          (simp only: if_P [OF c] d r eq bind.bind_lunit rt put_token_def, simp)
      moreover have "split_ref sep (take (j - start) (drop start s)) (drop j s) =
          take (j - start) (drop start s) # split_ref sep [] (drop (j + length sep) s)"
        using nj eq by (subst split_ref.simps) (simp add: add.commute)
      moreover have "\<exists>start' slots' tokens'.
          split_loop s sep (j + length sep) (j + length sep) slots1 (tokens @ [take (j - start) (drop start s)]) =
            Some (start', slots', tokens') \<and> length tokens' < slots' \<and> start' \<le> length s \<and>
          tokens' @ [drop start' s] = (tokens @ [take (j - start) (drop start s)]) @
            split_ref sep (take (j + length sep - (j + length sep)) (drop (j + length sep) s)) (drop (j + length sep) s)"
      proof (rule "1.IH"(1) [OF c])
        show "(if slots < length tokens + 2 then double_int slots else Some slots) = Some slots1" by (rule d)
        show "mem_read s j (length sep) = Some sep" using r eq by simp
        show "mem_read s start (j - start) = Some (take (j - start) (drop start s))" by (rule rt)
        show "put_token tokens slots1 (take (j - start) (drop start s)) =
          Some (tokens @ [take (j - start) (drop start s)])" using sl by (simp add: put_token_def)
      qed (use "1.prems" jl sl tl in auto)
      ultimately show ?thesis by simp
    next
      case ne: False
      then have "split_loop s sep j start slots tokens = split_loop s sep (j + 1) start slots1 tokens"
        by (subst split_loop.simps)
          (simp only: if_P [OF c] d r bind.bind_lunit if_not_P [OF ne] if_False)
      moreover have "take (j - start) (drop start s) @ [hd (drop j s)] = take (j + 1 - start) (drop start s)"
        using "1.prems"(2) js take_Suc_conv_app_nth [of "j - start" "drop start s"]
        by (simp add: Suc_diff_le hd_drop_conv_nth)
      then have "split_ref sep (take (j - start) (drop start s)) (drop j s) =
          split_ref sep (take (j + 1 - start) (drop start s)) (drop (j + 1) s)"
        using nj ne by (subst split_ref.simps) (simp add: drop_Suc tl_drop)
      moreover have "\<exists>start' slots' tokens'. split_loop s sep (j + 1) start slots1 tokens = Some (start', slots', tokens') \<and>
          length tokens' < slots' \<and> start' \<le> length s \<and>
          tokens' @ [drop start' s] = tokens @ split_ref sep (take (j + 1 - start) (drop start s)) (drop (j + 1) s)"
      proof (rule "1.IH"(2) [OF c])
        show "(if slots < length tokens + 2 then double_int slots else Some slots) = Some slots1" by (rule d)
        show "mem_read s j (length sep) = Some (take (length sep) (drop j s))" by (rule r)
      qed (use "1.prems" jl sl ne nj in auto)
      ultimately show ?thesis by simp
    qed
  qed
qed

text \<open>Joining the tokens with the separator gives the text back, and no token but for its
  last characters holds the separator: it was cut at the first occurrence.\<close>

lemma split_ref_separated: "separated sep (split_ref sep acc s) = acc @ s"
proof (induction sep acc s rule: split_ref.induct)
  case (1 sep acc s)
  show ?case
  proof (cases "s = [] \<or> length s < length sep \<or> sep = []")
    case True
    then show ?thesis by (subst split_ref.simps) auto
  next
    case False
    have sep: "separated sep (t # ts) = t @ sep @ separated sep ts" if "ts \<noteq> []" for t ts
      using that by (cases ts) simp_all
    have ne: "split_ref sep a u \<noteq> []" for a u
      by (induction sep a u rule: split_ref.induct) (subst split_ref.simps, auto)
    show ?thesis
    proof (cases "take (length sep) s = sep")
      case True
      then have "separated sep (split_ref sep [] (drop (length sep) s)) = drop (length sep) s"
        using "1.IH"(1) False by simp
      then show ?thesis
        using True False ne append_take_drop_id [of "length sep" s]
        by (subst split_ref.simps) (simp add: sep)
    next
      case neq: False
      then have "separated sep (split_ref sep (acc @ [hd s]) (tl s)) = (acc @ [hd s]) @ tl s"
        using "1.IH"(2) False by simp
      then show ?thesis using neq False by (subst split_ref.simps) simp
    qed
  qed
qed

lemma sdssplitlen_correct:
  assumes "sep \<noteq> []" and "s \<noteq> []" and "length s < 2 ^ 30"
  shows "sdssplitlen s sep = Some (Some (split_ref sep [] s))"
proof -
  obtain start slots tokens where l: "split_loop s sep 0 0 5 [] = Some (start, slots, tokens)"
    "length tokens < slots" "start \<le> length s" "tokens @ [drop start s] = split_ref sep [] s"
    using split_loop_correct [OF assms(1), of 0 0 s "[]" 5] assms(3) by auto
  have r: "mem_read s start (length s - start) = Some (drop start s)"
    using l(3) by (simp add: mem_read_def)
  show ?thesis
    using assms l by (simp add: sdssplitlen_def r put_token_def)
qed

section \<open>Quoting and splitting command lines\<close>

lemma hex_char_cases:
  assumes "d < 16"
  shows "hex_digit_to_int (hex_char d) = d \<and> is_hex_digit (hex_char d) \<and> hex_char d \<noteq> CHR 0x00"
proof -
  have "list_all (\<lambda>d. hex_digit_to_int (hex_char d) = d \<and> is_hex_digit (hex_char d) \<and> hex_char d \<noteq> CHR 0x00) [0..<16]"
    by code_simp
  then show ?thesis using assms by (simp add: list_all_iff)
qed

text \<open>Inside of double quotes one turn reads back the text of one character.\<close>

lemma repr_char_cases:
  obtains (plain) "repr_char c = [c]" and "c \<noteq> CHR 0x5C" and "c \<noteq> CHR 0x22" and "c \<noteq> CHR 0x00"
  | (esc) e where "repr_char c = [CHR 0x5C, e]" and "e \<noteq> CHR 0x00" and "e \<noteq> CHR ''x''" and "unescape e = c"
  | (hex) h1 h2 where "repr_char c = [CHR 0x5C, CHR ''x'', h1, h2]" and "is_hex_digit h1" and "is_hex_digit h2"
      and "h2 \<noteq> CHR 0x00" and "char_of (hex_digit_to_int h1 * 16 + hex_digit_to_int h2) = c"
proof (cases "c \<in> {CHR 0x5C, CHR 0x22, CHR 0x0A, CHR 0x0D, CHR 0x09, CHR 0x07, CHR 0x08}")
  case True
  then have "\<exists>e. repr_char c = [CHR 0x5C, e] \<and> e \<noteq> CHR 0x00 \<and> e \<noteq> CHR ''x'' \<and> unescape e = c"
    by (elim insertE emptyE) (simp_all add: repr_char_def unescape_def)
  then show ?thesis using esc by blast
next
  case False
  show ?thesis
  proof (cases "isprint c")
    case True
    then have "c \<noteq> CHR 0x00" by (auto simp: isprint_def cval_def)
    then show ?thesis using False True by (intro plain) (simp_all add: repr_char_def)
  next
    case np: False
    define n :: nat where "n = of_char c"
    have n: "n div 16 < 16" "n mod 16 < 16" by (simp_all add: n_def less_mult_imp_div_less)
    have "char_of (n div 16 * 16 + n mod 16) = c" unfolding div_mult_mod_eq by (simp add: n_def)
    moreover have "repr_char c = [CHR 0x5C, CHR ''x'', hex_char (n div 16), hex_char (n mod 16)]"
      using False np by (simp add: repr_char_def n_def)
    ultimately show ?thesis
      using hex_char_cases [OF n(1)] hex_char_cases [OF n(2)]
        hex [of "hex_char (n div 16)" "hex_char (n mod 16)"] by simp
  qed
qed

lemma arg_turn_repr:
  "arg_turn (pre @ repr_char c @ rest) (length pre) True False cur =
     Some (Some (length pre + length (repr_char c) - 1, True, False, False, cur @ [c]))"
proof (cases c rule: repr_char_cases)
  case plain
  then show ?thesis by (simp add: arg_turn_def hex_escape_def)
next
  case (esc e)
  have "cstr_at (pre @ repr_char c @ rest) (length pre) = Some (CHR 0x5C)"
    "cstr_at (pre @ repr_char c @ rest) (length pre + 1) = Some e"
    using esc(1) cstr_at_append [of pre "repr_char c @ rest" 1] by simp_all
  then show ?thesis using esc by (simp add: arg_turn_def hex_escape_def)
next
  case (hex h1 h2)
  have "cstr_at (pre @ repr_char c @ rest) (length pre) = Some (CHR 0x5C)"
    "cstr_at (pre @ repr_char c @ rest) (length pre + 1) = Some (CHR ''x'')"
    "cstr_at (pre @ repr_char c @ rest) (length pre + 2) = Some h1"
    "cstr_at (pre @ repr_char c @ rest) (length pre + 3) = Some h2"
    using hex(1) cstr_at_append [of pre "repr_char c @ rest" 1]
      cstr_at_append [of pre "repr_char c @ rest" 2] cstr_at_append [of pre "repr_char c @ rest" 3]
    by (simp_all add: numeral_3_eq_3)
  then show ?thesis using hex by (simp add: arg_turn_def hex_escape_def)
qed

lemma repr_char_last: "repr_char c \<noteq> [] \<and> last (repr_char c) \<noteq> CHR 0x00"
  by (cases c rule: repr_char_cases) auto

lemma arg_loop_repr:
  "arg_loop (pre @ repr_char c @ rest) (length pre) True False cur =
     arg_loop (pre @ repr_char c @ rest) (length (pre @ repr_char c)) True False (cur @ [c])"
proof -
  let ?l = "pre @ repr_char c @ rest"
  have last: "last (repr_char c) \<noteq> CHR 0x00" "repr_char c \<noteq> []" using repr_char_last [of c] by auto
  then obtain k where k: "length (repr_char c) = Suc k" by (cases "repr_char c") auto
  have r: "cstr_at (repr_char c @ rest) k = Some (last (repr_char c))"
    using k last(2) by (simp add: cstr_at_def nth_append last_conv_nth)
  have "length pre + length (repr_char c) - 1 = length pre + k" using k by simp
  then have t: "arg_turn ?l (length pre) True False cur =
      Some (Some (length pre + k, True, False, False, cur @ [c]))"
    by (simp only: arg_turn_repr)
  show ?thesis
    using last k by (subst arg_loop.simps) (simp add: t r)
qed

text \<open>A closing quote ends the argument when a blank or the end of the line follows.\<close>

lemma arg_loop_close:
  assumes "rest = [] \<or> isspace (hd rest)"
  shows "arg_loop (pre @ CHR 0x22 # rest) (length pre) True False cur = Some (Some (length pre + 1, cur))"
proof -
  have "cstr_at (pre @ CHR 0x22 # rest) (length pre + 1) = cstr_at rest 0"
    using cstr_at_append [of pre "CHR 0x22 # rest" 1] by simp
  then have "\<exists>c. cstr_at (pre @ CHR 0x22 # rest) (length pre + 1) = Some c \<and> (c = CHR 0x00 \<or> isspace c)"
    using assms by (cases rest) auto
  then have "arg_turn (pre @ CHR 0x22 # rest) (length pre) True False cur =
      Some (Some (length pre, True, False, True, cur))"
    by (auto simp: arg_turn_def hex_escape_def close_quote_def)
  then show ?thesis by (subst arg_loop.simps) simp
qed

definition quoted :: "string \<Rightarrow> string" where
  "quoted s = [CHR 0x22] @ concat (map repr_char s) @ [CHR 0x22]"

lemma arg_loop_quoted:
  assumes "rest = [] \<or> isspace (hd rest)"
  shows "arg_loop (pre @ concat (map repr_char s) @ CHR 0x22 # rest) (length pre) True False cur =
    Some (Some (length pre + length (concat (map repr_char s)) + 1, cur @ s))"
proof (induction s arbitrary: pre cur)
  case Nil
  then show ?case using arg_loop_close [OF assms] by simp
next
  case (Cons c s)
  show ?case
    using arg_loop_repr [of pre c "concat (map repr_char s) @ CHR 0x22 # rest" cur]
      Cons.IH [of "pre @ repr_char c" "cur @ [c]"]
    by simp
qed

lemma arg_loop_token:
  assumes "rest = [] \<or> isspace (hd rest)"
  shows "arg_loop (pre @ quoted s @ rest) (length pre) False False [] =
    Some (Some (length (pre @ quoted s), s))"
proof -
  have t: "arg_turn (pre @ quoted s @ rest) (length pre) False False [] =
      Some (Some (length pre, True, False, False, []))"
    by (simp add: arg_turn_def quoted_def)
  have "arg_loop (pre @ quoted s @ rest) (length pre) False False [] =
      arg_loop (pre @ quoted s @ rest) (length pre + 1) True False []"
    by (subst arg_loop.simps) (simp add: t, simp add: quoted_def)
  then show ?thesis
    using arg_loop_quoted [OF assms, of "pre @ [CHR 0x22]" s "[]"] by (simp add: quoted_def)
qed

lemma skip_spaces_stop:
  assumes "q = [] \<or> \<not> isspace (hd q)"
  shows "skip_spaces (pre @ q) (length pre) = Some (length pre)"
  using assms by (subst skip_spaces.simps) (cases q; simp add: cstr_at_def nth_append)

lemma skip_spaces_blank:
  assumes "q = [] \<or> \<not> isspace (hd q)"
  shows "skip_spaces (pre @ CHR '' '' # q) (length pre) = Some (length pre + 1)"
  using skip_spaces_stop [OF assms, of "pre @ '' ''"]
  by (subst skip_spaces.simps) (simp add: isspace_def cval_def)

lemma quoted_hd: "quoted s \<noteq> []" "hd (quoted s) = CHR 0x22" "\<not> isspace (CHR 0x22)"
  by (simp_all add: quoted_def isspace_def cval_def)

lemma splitargs_loop_quoted:
  "splitargs_loop (pre @ concat (map (\<lambda>a. CHR '' '' # quoted a) argv)) (length pre) vec =
     Some (Some (vec @ argv))"
proof (induction argv arbitrary: pre vec)
  case Nil
  show ?case
    using skip_spaces_stop [of "[]" pre] by (subst splitargs_loop.simps) (simp add: cstr_at_def)
next
  case (Cons a argv)
  let ?rest = "concat (map (\<lambda>a. CHR '' '' # quoted a) argv)"
  let ?line = "pre @ CHR '' '' # quoted a @ ?rest"
  have rest: "?rest = [] \<or> isspace (hd ?rest)"
    by (cases argv) (simp_all add: isspace_def cval_def)
  have sk: "skip_spaces ?line (length pre) = Some (Suc (length pre))"
    using skip_spaces_blank [of "quoted a @ ?rest" pre] by (simp add: quoted_hd)
  have at: "cstr_at ?line (Suc (length pre)) = Some (CHR 0x22)"
    using cstr_at_append [of "pre @ '' ''" "quoted a @ ?rest" 0] by (simp add: quoted_def)
  have tok: "arg_loop ?line (Suc (length pre)) False False [] =
      Some (Some (length (pre @ CHR '' '' # quoted a), a))"
    using arg_loop_token [OF rest, of "pre @ '' ''" a] by simp
  have "splitargs_loop ?line (length pre) vec =
      splitargs_loop ?line (length (pre @ CHR '' '' # quoted a)) (vec @ [a])"
    by (subst splitargs_loop.simps) (simp add: sk at tok quoted_hd)
  also have "\<dots> = Some (Some ((vec @ [a]) @ argv))"
    using Cons.IH [of "pre @ CHR '' '' # quoted a" "vec @ [a]"] by simp
  finally show ?case by simp
qed

lemma sdscatrepr_correct:
  assumes "sds_inv s" and "length (contents s) + length (quoted p) < 2 ^ 62"
  obtains s' where "sdscatrepr fill s p = Some s'" and "sds_inv s'" and "contents s' = contents s @ quoted p"
proof -
  let ?app = "\<lambda>s t. sdscatlen fill s t (length t)"
  have loop: "repr_loop fill s p = append_each ?app s (map repr_char p)" for s
    by (induction p arbitrary: s) (simp_all)
  have split: "append_each ?app s (xs @ ys) = do { s \<leftarrow> append_each ?app s xs; append_each ?app s ys }" for s xs ys
    by (induction xs arbitrary: s) (simp_all add: Option.bind_assoc)
  have "sdscatrepr fill s p = append_each ?app s ([[CHR 0x22]] @ map repr_char p @ [[CHR 0x22]])"
    unfolding split sdscatrepr_def loop by simp
  moreover have "concat ([[CHR 0x22]] @ map repr_char p @ [[CHR 0x22]]) = quoted p"
    by (simp add: quoted_def)
  ultimately show ?thesis
    using sb.append_each_correct [OF assms(1), of "[[CHR 0x22]] @ map repr_char p @ [[CHR 0x22]]" fill]
      assms(2) that by auto
qed

section \<open>Numbers and formats\<close>

lemma ll2str_digits_correct:
  assumes "p + length (dec v) \<le> length buf"
  shows "ll2str_digits buf p v =
    Some (take p buf @ rev (dec v) @ drop (p + length (dec v)) buf, p + length (dec v))"
  using assms
proof (induction buf p v rule: ll2str_digits.induct)
  case (1 buf p v)
  define c where "c = (char_of (48 + v mod 10) :: char)"
  define b1 where "b1 = take p buf @ [c] @ drop (p + 1) buf"
  have "0 < length (dec v)" unfolding length_greater_0_conv by (rule dec_nonempty)
  then have pl: "p + 1 \<le> length buf" using "1.prems" by linarith
  have w: "mem_write buf p [c] = Some b1"
    using mem_write_Some [of p "[c]" buf] pl unfolding b1_def by simp
  have dc: "digit_char (v mod 10) = c" by (simp add: digit_char_def c_def)
  show ?case
  proof (cases "v div 10 = 0")
    case True
    then have "dec v = [c]" using dc by (simp add: dec_small)
    then show ?thesis
      unfolding ll2str_digits.simps [of buf p v] c_def [symmetric] w bind.bind_lunit if_P [OF True]
      by (simp add: b1_def)
  next
    case False
    then have d: "dec v = dec (v div 10) @ [c]" using dc by (simp add: dec_step)
    have lb: "length b1 = length buf" "take (p + 1) b1 = take p buf @ [c]"
      "drop (p + 1 + length (dec (v div 10))) b1 = drop (p + length (dec v)) buf"
      using pl d by (simp_all add: b1_def add.commute)
    have "ll2str_digits b1 (p + 1) (v div 10) =
        Some (take (p + 1) b1 @ rev (dec (v div 10)) @ drop (p + 1 + length (dec (v div 10))) b1,
          p + 1 + length (dec (v div 10)))"
      by (rule "1.IH" [OF w [unfolded c_def]]) (use False "1.prems" d lb in simp_all)
    then have "ll2str_digits b1 (p + 1) (v div 10) =
        Some (take p buf @ rev (dec v) @ drop (p + length (dec v)) buf, p + length (dec v))"
      unfolding lb using d by simp
    then show ?thesis
      unfolding ll2str_digits.simps [of buf p v] c_def [symmetric] w bind.bind_lunit if_not_P [OF False] .
  qed
qed

lemma str_reverse_correct:
  "str_reverse (pre @ xs @ post) (length pre) (length pre + length xs - 1) = Some (pre @ rev xs @ post)"
proof (induction "length xs" arbitrary: pre xs post rule: less_induct)
  case less
  show ?case
  proof (cases "length xs < 2")
    case True
    have r: "rev xs = xs" using True by (cases xs; cases "tl xs") auto
    have n: "\<not> length pre < length pre + length xs - 1" using True by linarith
    show ?thesis unfolding str_reverse.simps [of "pre @ xs @ post"] if_not_P [OF n] r ..
  next
    case False
    obtain a ys b where xs: "xs = a # ys @ [b]"
    proof -
      obtain a zs where "xs = a # zs" "zs \<noteq> []" using False by (cases xs; cases "tl xs") auto
      then show ?thesis using that [of a "butlast zs" "last zs"] by simp
    qed
    let ?p = "length pre + length xs - 1"
    have p: "?p = length (pre @ a # ys)" "?p = length (pre @ b # ys)" "length pre < ?p"
      using xs by simp_all
    have r1: "mem_read (pre @ xs @ post) (length pre) 1 = Some [a]"
      using mem_read_one [of "length pre" "pre @ xs @ post"] xs by simp
    have r2: "mem_read (pre @ xs @ post) ?p 1 = Some [b]"
      using mem_read_one [of ?p "pre @ xs @ post"] xs unfolding p(1) by (simp add: nth_append)
    have w1: "mem_write (pre @ xs @ post) (length pre) [b] = Some ((pre @ b # ys) @ [b] @ post)"
      using mem_write_append [of "[b]" "[a]" "length pre" pre "ys @ [b] @ post"] xs by simp
    have w2: "mem_write ((pre @ b # ys) @ [b] @ post) ?p [a] = Some ((pre @ b # ys) @ [a] @ post)"
      unfolding p(2) by (rule mem_write_append) simp_all
    have "str_reverse ((pre @ [b]) @ ys @ ([a] @ post)) (length (pre @ [b])) (length (pre @ [b]) + length ys - 1) =
        Some ((pre @ [b]) @ rev ys @ [a] @ post)"
      using xs by (intro less) simp
    then have "str_reverse ((pre @ b # ys) @ [a] @ post) (length pre + 1) (?p - 1) = Some (pre @ rev xs @ post)"
      using xs by simp
    then show ?thesis
      unfolding str_reverse.simps [of "pre @ xs @ post" "length pre" ?p] if_P [OF p(3)] r1 r2 w1 w2 bind.bind_lunit .
  qed
qed

lemma sdsull2str_correct:
  assumes "length (dec v) < length buf"
  shows "sdsull2str buf v =
    Some (dec v @ [CHR 0x00] @ drop (Suc (length (dec v))) buf, length (dec v))"
proof -
  let ?n = "length (dec v)"
  have d: "ll2str_digits buf 0 v = Some (rev (dec v) @ drop ?n buf, ?n)"
    using ll2str_digits_correct [of 0 v buf] assms by simp
  obtain x post where post: "drop ?n buf = [x] @ post"
    using assms by (cases "drop ?n buf") auto
  have "drop (Suc ?n) buf = post" using arg_cong [OF post, of tl] by (simp add: drop_Suc tl_drop)
  moreover have "mem_write (rev (dec v) @ [x] @ post) ?n [CHR 0x00] = Some (rev (dec v) @ [CHR 0x00] @ post)"
    by (rule mem_write_append) simp_all
  moreover have "str_reverse (rev (dec v) @ [CHR 0x00] @ post) 0 (?n - 1) = Some (dec v @ [CHR 0x00] @ post)"
    using str_reverse_correct [of "[]" "rev (dec v)" "[CHR 0x00] @ post"] by simp
  ultimately show ?thesis by (simp add: sdsull2str_def d post)
qed

lemma sdsll2str_correct:
  assumes "v \<noteq> LLONG_MIN" and "length (sdec v) < length buf"
  shows "sdsll2str buf v =
    Some (sdec v @ [CHR 0x00] @ drop (Suc (length (sdec v))) buf, length (sdec v))"
proof (cases "v < 0")
  case False
  then show ?thesis
    using sdsull2str_correct [of "nat v" buf] assms by (simp add: sdsll2str_def sdsull2str_def sdec_def)
next
  case True
  define n ds where "n = nat (- v)" and "ds = dec n"
  have s: "sdec v = CHR ''-'' # ds" using True by (simp add: sdec_def n_def ds_def)
  have d: "ll2str_digits buf 0 n = Some (rev ds @ drop (length ds) buf, length ds)"
    using ll2str_digits_correct [of 0 n buf] assms(2) s by (simp add: ds_def)
  have "length (drop (length ds) buf) \<ge> 2" using assms(2) s by simp
  then obtain x y post where post: "drop (length ds) buf = [x] @ [y] @ post"
    by (cases "drop (length ds) buf"; cases "tl (drop (length ds) buf)") auto
  have "drop (Suc (length (sdec v))) buf = drop 2 (drop (length ds) buf)" using s by simp
  then have p2: "drop (Suc (length (sdec v))) buf = post" using post by simp
  have w1: "mem_write (rev ds @ [x] @ [y] @ post) (length ds) ''-'' = Some (rev ds @ ''-'' @ [y] @ post)"
    by (rule mem_write_append) simp_all
  have w2: "mem_write (rev ds @ ''-'' @ [y] @ post) (length ds + 1) [CHR 0x00] =
      Some (rev ds @ ''-'' @ [CHR 0x00] @ post)"
    using mem_write_append [of "[CHR 0x00]" "[y]" "length ds + 1" "rev ds @ ''-''" post] by simp
  have "str_reverse (rev ds @ ''-'' @ [CHR 0x00] @ post) 0 (length ds + 1 - 1) = Some (sdec v @ [CHR 0x00] @ post)"
    using str_reverse_correct [of "[]" "rev ds @ ''-''" "[CHR 0x00] @ post"] s by simp
  then show ?thesis
    unfolding p2 using assms(1) True w1 w2 s
    by (simp add: sdsll2str_def d post flip: n_def)
qed

text \<open>The text a format stands for; \<open>None\<close> when the arguments do not fit the directives.\<close>

fun arg_text :: "char \<Rightarrow> fmt_arg \<Rightarrow> string option" where
  "arg_text d (Arg_s t) = (if d = CHR ''s'' then Some (take (strlen t) t) else None)"
| "arg_text d (Arg_S t) = (if d = CHR ''S'' then Some (contents t) else None)"
| "arg_text d (Arg_i v) = (if d = CHR ''i'' then Some (sdec v) else None)"
| "arg_text d (Arg_I v) = (if d = CHR ''I'' then Some (sdec v) else None)"
| "arg_text d (Arg_u n) = (if d = CHR ''u'' then Some (dec n) else None)"
| "arg_text d (Arg_U n) = (if d = CHR ''U'' then Some (dec n) else None)"

fun arg_ok :: "fmt_arg \<Rightarrow> bool" where
  "arg_ok (Arg_s t) = True"
| "arg_ok (Arg_S t) = sds_inv t"
| "arg_ok (Arg_i v) = (- (2 ^ 31) \<le> v \<and> v < 2 ^ 31)"
| "arg_ok (Arg_I v) = (fits_signed 8 v \<and> v \<noteq> LLONG_MIN)"
| "arg_ok (Arg_u n) = (n < 2 ^ 32)"
| "arg_ok (Arg_U n) = (n < 2 ^ 64)"

fun fmt_text :: "string \<Rightarrow> fmt_arg list \<Rightarrow> string option" where
  "fmt_text [] ap = Some []"
| "fmt_text [c] ap = (if c = CHR ''%'' then None else Some [c])"
| "fmt_text (c # d # fmt) ap =
     (if c \<noteq> CHR ''%'' then map_option ((#) c) (fmt_text (d # fmt) ap)
      else if d \<in> set ''sSiIuU'' then
        (case ap of
           [] \<Rightarrow> None
         | a # ap \<Rightarrow> do { t \<leftarrow> arg_text d a; u \<leftarrow> fmt_text fmt ap; Some (t @ u) })
      else map_option ((#) d) (fmt_text fmt ap))"

lemma sdsinclen_correct:
  assumes "sds_wf s" and "sdslen s + n \<le> sdsalloc s" and "length b = length (sds_buf s)"
  shows "sds_wf (sdsinclen (s\<lparr>sds_buf := b\<rparr>) n)" and "sdslen (sdsinclen (s\<lparr>sds_buf := b\<rparr>) n) = sdslen s + n"
    and "sdsalloc (sdsinclen (s\<lparr>sds_buf := b\<rparr>) n) = sdsalloc s"
proof -
  have m: "(hdr_len s + n) mod 2 ^ hdr_bits (sds_type s) = hdr_len s + n"
    using assms by (simp add: sds_wf_def sdslen_def)
  then show l: "sdslen (sdsinclen (s\<lparr>sds_buf := b\<rparr>) n) = sdslen s + n"
    by (simp add: sdsinclen_def sdslen_def)
  have a: "sdsalloc (sdsinclen (s\<lparr>sds_buf := b\<rparr>) n) = sdsalloc s"
    using assms(2) m by (auto simp: sdsinclen_def sdsalloc_def sdslen_def)
  show "sds_wf (sdsinclen (s\<lparr>sds_buf := b\<rparr>) n)"
    using assms l a by (simp add: sds_wf_def) (simp add: sdsinclen_def)
  show "sdsalloc (sdsinclen (s\<lparr>sds_buf := b\<rparr>) n) = sdsalloc s" by (rule a)
qed

text \<open>Appending bytes without a terminator.\<close>

lemma sds_raw_append:
  assumes "sds_wf s" and "sdslen s + length bs \<le> sdsalloc s"
  obtains b where "mem_write (sds_buf s) (sdslen s) bs = Some b"
    and "sds_wf (sdsinclen (s\<lparr>sds_buf := b\<rparr>) (length bs))"
    and "contents (sdsinclen (s\<lparr>sds_buf := b\<rparr>) (length bs)) = contents s @ bs"
    and "sdslen (sdsinclen (s\<lparr>sds_buf := b\<rparr>) (length bs)) = sdslen s + length bs"
proof -
  define b where "b = take (sdslen s) (sds_buf s) @ bs @ drop (sdslen s + length bs) (sds_buf s)"
  have l: "sdslen s + length bs < length (sds_buf s)" using assms by (simp add: sds_wf_def)
  have w: "mem_write (sds_buf s) (sdslen s) bs = Some b"
    using mem_write_Some [of "sdslen s" bs "sds_buf s"] l by (simp add: b_def)
  have lb: "length b = length (sds_buf s)" using l by (simp add: b_def)
  note inc = sdsinclen_correct [OF assms lb]
  have "sds_buf (sdsinclen (s\<lparr>sds_buf := b\<rparr>) (length bs)) = b" by (simp add: sdsinclen_def)
  then have "contents (sdsinclen (s\<lparr>sds_buf := b\<rparr>) (length bs)) = take (sdslen s + length bs) b"
    unfolding contents_def inc(2) by simp
  also have "\<dots> = contents s @ bs" using l by (simp add: b_def contents_def)
  finally show ?thesis using that [OF w] inc by blast
qed

lemma fmt_append_correct:
  assumes "sds_wf s" and "sdslen s + l < 2 ^ 62" and "l \<le> length t"
  obtains s' where "fmt_append fill s (sdslen s) t l = Some (s', sdslen s + l)" and "sds_wf s'"
    and "contents s' = contents s @ take l t" and "sdslen s' = sdslen s + l"
proof -
  obtain s1 where s1: "(if sdsavail s < l then sdsMakeRoomFor fill s l else Some s) = Some s1" "sds_wf s1"
    "sdslen s1 = sdslen s" "sdslen s + l \<le> sdsalloc s1" "contents s1 = contents s"
  proof (cases "sdsavail s < l")
    case True
    obtain s1 where "sdsMakeRoomFor fill s l = Some s1" "sds_wf s1" "sdslen s1 = sdslen s"
      "sdslen s + l \<le> sdsalloc s1"
      "take (Suc (sdslen s)) (sds_buf s1) = take (Suc (sdslen s)) (sds_buf s)"
      using sdsMakeRoomFor_correct [OF assms(1,2)] by blast
    moreover have "contents s1 = contents s"
      using arg_cong [OF calculation(5), of "take (sdslen s)"] calculation(3) by (simp add: contents_def)
    ultimately show ?thesis using that True by simp
  next
    case False
    then have "sdslen s + l \<le> sdsalloc s" using assms(1) by (auto simp: sdsavail_eq sds_wf_def)
    then show ?thesis using that [of s] False assms(1) by simp
  qed
  have lt: "length (take l t) = l" using assms(3) by simp
  have "sdslen s1 + length (take l t) \<le> sdsalloc s1" unfolding lt s1(3) by (rule s1(4))
  from sds_raw_append [OF s1(2) this] obtain b where b: "mem_write (sds_buf s1) (sdslen s) (take l t) = Some b"
    "sds_wf (sdsinclen (s1\<lparr>sds_buf := b\<rparr>) l)"
    "contents (sdsinclen (s1\<lparr>sds_buf := b\<rparr>) l) = contents s1 @ take l t"
    "sdslen (sdsinclen (s1\<lparr>sds_buf := b\<rparr>) l) = sdslen s + l"
    unfolding lt s1(3) by blast
  show ?thesis
  proof (rule that)
    show "fmt_append fill s (sdslen s) t l = Some (sdsinclen (s1\<lparr>sds_buf := b\<rparr>) l, sdslen s + l)"
      unfolding fmt_append_def s1(1) bind.bind_lunit mem_read_prefix [OF assms(3)] b(1) ..
  qed (use b s1(5) in simp_all)
qed

lemma fmt_char_correct:
  assumes "sds_wf s" and "sdslen s < sdsalloc s"
  obtains s' where "fmt_char s (sdslen s) c = Some (s', sdslen s + 1)" and "sds_wf s'"
    and "contents s' = contents s @ [c]" and "sdslen s' = sdslen s + 1"
proof -
  have "sdslen s + length [c] \<le> sdsalloc s" using assms(2) by simp
  from sds_raw_append [OF assms(1) this] obtain b where b: "mem_write (sds_buf s) (sdslen s) [c] = Some b"
    "sds_wf (sdsinclen (s\<lparr>sds_buf := b\<rparr>) 1)" "contents (sdsinclen (s\<lparr>sds_buf := b\<rparr>) 1) = contents s @ [c]"
    "sdslen (sdsinclen (s\<lparr>sds_buf := b\<rparr>) 1) = sdslen s + 1"
    by auto
  then show ?thesis using that by (simp add: fmt_char_def)
qed

lemma length_dec_64: "n < 2 ^ 64 \<Longrightarrow> length (dec n) < 21"
  using length_dec_bound [of n 19] by simp

lemma strlen_le: "strlen t \<le> length t"
  by (simp add: strlen_def length_takeWhile_le)

lemma fmt_directive_bytes:
  assumes "arg_text d a = Some t" and "arg_ok a"
  shows "\<exists>u. fmt_directive fill s i d (a # ap) =
      do { (s, i) \<leftarrow> fmt_append fill s i u (length t); Some (s, i, ap) } \<and> take (length t) u = t"
proof -
  let ?buf = "map fill [0..<SDS_LLSTR_SIZE]"
  have lb: "length ?buf = 21" by (simp add: SDS_LLSTR_SIZE_def)
  have signed: "\<exists>buf. sdsll2str ?buf v = Some (sdec v @ buf, length (sdec v))"
    if "fits_signed 8 v" "v \<noteq> LLONG_MIN" for v
    using sdsll2str_correct [OF that(2), of ?buf] length_sdec_bound [OF that(1)] lb by auto
  have unsigned: "\<exists>buf. sdsull2str ?buf n = Some (dec n @ buf, length (dec n))" if "n < 2 ^ 64" for n
    using sdsull2str_correct [of n ?buf] length_dec_64 [OF that] lb by auto
  show ?thesis
  proof (cases a)
    case (Arg_s str)
    then show ?thesis
      using assms(1) strlen_le [of str]
      by (intro exI [of _ str]) (auto simp: fmt_directive_def split: if_splits)
  next
    case (Arg_S str)
    then have "length (contents str) = sdslen str" using assms(2) by (simp add: sds_inv_def length_contents)
    then show ?thesis
      using assms(1) Arg_S
      by (intro exI [of _ "sds_buf str"])
        (auto simp: fmt_directive_def contents_def split: if_splits)
  next
    case (Arg_i v)
    then have "fits_signed 8 v" "v \<noteq> LLONG_MIN" using assms(2) by (auto simp: fits_signed_def LLONG_MIN_def)
    from signed [OF this] assms(1) Arg_i show ?thesis
      by (auto simp: fmt_directive_def split: if_splits intro!: exI [of _ "sdec v @ b" for b])
  next
    case (Arg_I v)
    then have "fits_signed 8 v" "v \<noteq> LLONG_MIN" using assms(2) by auto
    from signed [OF this] assms(1) Arg_I show ?thesis
      by (auto simp: fmt_directive_def split: if_splits intro!: exI [of _ "sdec v @ b" for b])
  next
    case (Arg_u n)
    then have "n < 2 ^ 64" using assms(2) by simp
    from unsigned [OF this] assms(1) Arg_u show ?thesis
      by (auto simp: fmt_directive_def split: if_splits intro!: exI [of _ "dec n @ b" for b])
  next
    case (Arg_U n)
    then have "n < 2 ^ 64" using assms(2) by simp
    from unsigned [OF this] assms(1) Arg_U show ?thesis
      by (auto simp: fmt_directive_def split: if_splits intro!: exI [of _ "dec n @ b" for b])
  qed
qed

lemma fmt_directive_arg:
  assumes "sds_wf s" and "arg_text d a = Some t" and "arg_ok a" and "sdslen s + length t < 2 ^ 62"
  obtains s' where "fmt_directive fill s (sdslen s) d (a # ap) = Some (s', sdslen s', ap)"
    and "sds_wf s'" and "contents s' = contents s @ t"
proof -
  obtain u where u: "fmt_directive fill s (sdslen s) d (a # ap) =
      do { (s, i) \<leftarrow> fmt_append fill s (sdslen s) u (length t); Some (s, i, ap) }" "take (length t) u = t"
    using fmt_directive_bytes [OF assms(2,3), of fill s "sdslen s" ap] by auto
  have "length t \<le> length u" using arg_cong [OF u(2), of length] by simp
  from fmt_append_correct [OF assms(1,4) this] obtain s' where
    "fmt_append fill s (sdslen s) u (length t) = Some (s', sdslen s + length t)" "sds_wf s'"
    "contents s' = contents s @ t" "sdslen s' = sdslen s + length t" unfolding u(2) by blast
  then show ?thesis using that [of s'] u(1) by simp
qed

lemma fmt_room:
  assumes "sds_wf s" and "sdslen s + 1 < 2 ^ 62"
  obtains s1 where "(if sdsavail s = 0 then sdsMakeRoomFor fill s 1 else Some s) = Some s1" and "sds_wf s1"
    and "sdslen s1 = sdslen s" and "contents s1 = contents s" and "sdslen s1 < sdsalloc s1"
proof (cases "sdsavail s = 0")
  case True
  obtain s1 where s1: "sdsMakeRoomFor fill s 1 = Some s1" "sds_wf s1" "sdslen s1 = sdslen s"
    "sdslen s + 1 \<le> sdsalloc s1"
    "take (Suc (sdslen s)) (sds_buf s1) = take (Suc (sdslen s)) (sds_buf s)"
    using sdsMakeRoomFor_correct [OF assms] by blast
  have "contents s1 = contents s"
    using arg_cong [OF s1(5), of "take (sdslen s)"] s1(3) by (simp add: contents_def)
  then show ?thesis using that s1 True by simp
next
  case False
  then show ?thesis using that [of s] assms(1) by (simp add: sdsavail_eq)
qed

lemma catfmt_char_step:
  assumes "sds_wf s" and "sdslen s + 1 < 2 ^ 62" and "c \<noteq> CHR 0x00" and "c \<noteq> CHR ''%''"
  obtains s' where "catfmt_loop fill (pre @ c # q) (length pre) s (sdslen s) ap =
      catfmt_loop fill (pre @ c # q) (length (pre @ [c])) s' (sdslen s') ap"
    and "sds_wf s'" and "contents s' = contents s @ [c]"
proof -
  obtain s1 where s1: "(if sdsavail s = 0 then sdsMakeRoomFor fill s 1 else Some s) = Some s1" "sds_wf s1"
    "sdslen s1 = sdslen s" "contents s1 = contents s" "sdslen s1 < sdsalloc s1"
    using fmt_room [OF assms(1,2)] by blast
  obtain s' where s': "fmt_char s1 (sdslen s) c = Some (s', sdslen s + 1)" "sds_wf s'"
    "contents s' = contents s @ [c]" "sdslen s' = sdslen s + 1"
    using fmt_char_correct [OF s1(2,5), of c] unfolding s1(3,4) by blast
  have at: "cstr_at (pre @ c # q) (length pre) = Some c" by simp
  have "catfmt_loop fill (pre @ c # q) (length pre) s (sdslen s) ap =
      catfmt_loop fill (pre @ c # q) (length (pre @ [c])) s' (sdslen s') ap"
    unfolding catfmt_loop.simps [of fill "pre @ c # q" "length pre" s "sdslen s" ap] at bind.bind_lunit
      s1(1) s'(1) s'(4) using assms(3,4) by (simp add: s'(1))
  then show ?thesis using that [of s'] s' by simp
qed

lemma catfmt_directive_step:
  assumes "sds_wf s" and "sdslen s + 1 < 2 ^ 62" and "sdslen s + length t < 2 ^ 62"
    and "d \<in> set ''sSiIuU'' \<and> ap = a # ap' \<and> arg_text d a = Some t \<and> arg_ok a \<or>
      d \<notin> set ''sSiIuU'' \<and> ap' = ap \<and> t = [d]"
  obtains s' where "catfmt_loop fill (pre @ CHR ''%'' # d # q) (length pre) s (sdslen s) ap =
      catfmt_loop fill (pre @ CHR ''%'' # d # q) (length (pre @ [CHR ''%'', d])) s' (sdslen s') ap'"
    and "sds_wf s'" and "contents s' = contents s @ t"
proof -
  obtain s1 where s1: "(if sdsavail s = 0 then sdsMakeRoomFor fill s 1 else Some s) = Some s1" "sds_wf s1"
    "sdslen s1 = sdslen s" "contents s1 = contents s" "sdslen s1 < sdsalloc s1"
    using fmt_room [OF assms(1,2)] by blast
  obtain s' where s': "fmt_directive fill s1 (sdslen s) d ap = Some (s', sdslen s', ap')" "sds_wf s'"
    "contents s' = contents s @ t"
  proof (cases "d \<in> set ''sSiIuU''")
    case True
    then have a: "ap = a # ap'" "arg_text d a = Some t" "arg_ok a" using assms(4) by auto
    show ?thesis
      using fmt_directive_arg [OF s1(2) a(2,3), of fill ap'] assms(3) that unfolding s1(3,4) a(1) by blast
  next
    case False
    obtain s' where "fmt_char s1 (sdslen s) d = Some (s', sdslen s + 1)" "sds_wf s'"
      "contents s' = contents s @ [d]" "sdslen s' = sdslen s + 1"
      using fmt_char_correct [OF s1(2,5), of d] unfolding s1(3,4) by blast
    then show ?thesis using that False assms(4) by (auto simp: fmt_directive_def)
  qed
  have at: "cstr_at (pre @ CHR ''%'' # d # q) (length pre) = Some (CHR ''%'')"
    "cstr_at (pre @ CHR ''%'' # d # q) (length pre + 1) = Some d"
    using cstr_at_append [of pre "CHR ''%'' # d # q" 1] by simp_all
  have "catfmt_loop fill (pre @ CHR ''%'' # d # q) (length pre) s (sdslen s) ap =
      catfmt_loop fill (pre @ CHR ''%'' # d # q) (length (pre @ [CHR ''%'', d])) s' (sdslen s') ap'"
    unfolding catfmt_loop.simps [of fill "pre @ CHR ''%'' # d # q" "length pre" s "sdslen s" ap] at
      bind.bind_lunit s1(1) s'(1) by simp
  then show ?thesis using that [of s'] s' by simp
qed

lemma catfmt_loop_correct:
  assumes "fmt_text q ap = Some out" and "CHR 0x00 \<notin> set q" and "\<forall>a \<in> set ap. arg_ok a"
    and "sds_wf s" and "sdslen s + length out + 1 < 2 ^ 62"
  shows "\<exists>s'. catfmt_loop fill (pre @ q) (length pre) s (sdslen s) ap = Some (s', sdslen s') \<and>
    sds_wf s' \<and> contents s' = contents s @ out"
  using assms
proof (induction q ap arbitrary: pre s out rule: fmt_text.induct)
  case (1 ap)
  then show ?case by (subst catfmt_loop.simps) (simp add: cstr_at_def)
next
  case (2 c ap)
  then have c: "c \<noteq> CHR 0x00" "c \<noteq> CHR ''%''" "out = [c]" by (auto split: if_splits)
  have "sdslen s + 1 < 2 ^ 62" using "2.prems"(5) by simp
  from catfmt_char_step [OF "2.prems"(4) this c(1,2)] obtain s' where
    s': "catfmt_loop fill (pre @ [c]) (length pre) s (sdslen s) ap =
      catfmt_loop fill (pre @ [c]) (length (pre @ [c])) s' (sdslen s') ap" "sds_wf s'"
      "contents s' = contents s @ [c]" by blast
  moreover have "catfmt_loop fill (pre @ [c]) (length (pre @ [c])) s' (sdslen s') ap = Some (s', sdslen s')"
    by (subst catfmt_loop.simps) (simp add: cstr_at_def)
  ultimately show ?case using c(3) by auto
next
  case (3 c d fmt ap)
  have one: "sdslen s + 1 < 2 ^ 62" using "3.prems"(5) by simp
  show ?case
  proof (cases "c = CHR ''%''")
    case False
    then obtain u where u: "fmt_text (d # fmt) ap = Some u" "out = c # u" using "3.prems"(1) by auto
    have cz: "c \<noteq> CHR 0x00" using "3.prems"(2) by auto
    obtain s1 where s1: "catfmt_loop fill (pre @ c # d # fmt) (length pre) s (sdslen s) ap =
        catfmt_loop fill (pre @ c # d # fmt) (length (pre @ [c])) s1 (sdslen s1) ap" "sds_wf s1"
      "contents s1 = contents s @ [c]"
      using catfmt_char_step [OF "3.prems"(4) one cz False, of fill pre "d # fmt" ap] by blast
    have l1: "sdslen s1 = sdslen s + 1"
      using arg_cong [OF s1(3), of length] s1(2) "3.prems"(4) by (simp add: length_contents)
    show ?thesis
      using "3.IH"(1) [OF False u(1) _ "3.prems"(3) s1(2), of "pre @ [c]"] "3.prems"(2,5) s1 u(2) l1 by simp
  next
    case True
    obtain t u ap' a where t: "out = t @ u" "fmt_text fmt ap' = Some u"
      "d \<in> set ''sSiIuU'' \<and> ap = a # ap' \<and> arg_text d a = Some t \<and> arg_ok a \<or>
        d \<notin> set ''sSiIuU'' \<and> ap' = ap \<and> t = [d]"
    proof (cases "d \<in> set ''sSiIuU''")
      case din: True
      obtain a ap' where ap: "ap = a # ap'" using "3.prems"(1) True din by (cases ap) auto
      then obtain t u where "arg_text d a = Some t" "fmt_text fmt ap' = Some u" "out = t @ u"
        using "3.prems"(1) True din by (auto split: bind_splits)
      then show ?thesis using that [of t u ap' a] din ap "3.prems"(3) by simp
    next
      case din: False
      then obtain u where "fmt_text fmt ap = Some u" "out = d # u" using "3.prems"(1) True by auto
      then show ?thesis using that [of "[d]" u ap] din by simp
    qed
    have lt: "sdslen s + length t < 2 ^ 62" using "3.prems"(5) t(1) by simp
    obtain s1 where s1: "catfmt_loop fill (pre @ c # d # fmt) (length pre) s (sdslen s) ap =
        catfmt_loop fill (pre @ c # d # fmt) (length (pre @ [c, d])) s1 (sdslen s1) ap'" "sds_wf s1"
      "contents s1 = contents s @ t"
      using catfmt_directive_step [OF "3.prems"(4) one lt t(3), of fill pre fmt] unfolding True by blast
    have l1: "sdslen s1 = sdslen s + length t"
      using arg_cong [OF s1(3), of length] s1(2) "3.prems"(4) by (simp add: length_contents)
    have ok: "\<forall>a \<in> set ap'. arg_ok a" using t(3) "3.prems"(3) by auto
    have "\<exists>s'. catfmt_loop fill ((pre @ [c, d]) @ fmt) (length (pre @ [c, d])) s1 (sdslen s1) ap' =
        Some (s', sdslen s') \<and> sds_wf s' \<and> contents s' = contents s1 @ u"
    proof (cases "d \<in> set ''sSiIuU''")
      case din: True
      then obtain b where ap: "ap = b # ap'" using t(3) by auto
      show ?thesis
        by (rule "3.IH"(2)) (use True din ap t(2) "3.prems"(2,5) ok s1(2) l1 t(1,3) in auto)
    next
      case din: False
      then have "ap' = ap" using t(3) by auto
      then show ?thesis
        using "3.IH"(3) [of u s1 "pre @ [c, d]"] True din t "3.prems"(2,3,5) s1(2) l1 by simp
    qed
    then show ?thesis using s1(1,3) t(1) by simp
  qed
qed

lemma sdscatfmt_correct:
  assumes "fmt_text fmt ap = Some out" and "CHR 0x00 \<notin> set fmt" and "\<forall>a \<in> set ap. arg_ok a"
    and "sds_inv s" and "length (contents s) + length out + 1 < 2 ^ 62"
  obtains s' where "sdscatfmt fill s fmt ap = Some s'" and "sds_inv s'" and "contents s' = contents s @ out"
proof -
  have "sdslen s + length out + 1 < 2 ^ 62" using assms(5) length_contents [OF sds_inv_wf [OF assms(4)]] by simp
  from catfmt_loop_correct [OF assms(1,2,3) sds_inv_wf [OF assms(4)] this, of fill "[]"]
  obtain s1 where s1: "catfmt_loop fill fmt 0 s (sdslen s) ap = Some (s1, sdslen s1)" "sds_wf s1"
    "contents s1 = contents s @ out" by auto
  have le: "sdslen s1 \<le> sdsalloc s1" using s1(2) by (simp add: sds_wf_def)
  obtain b where b: "mem_write (sds_buf s1) (sdslen s1) [CHR 0x00] = Some b"
    "sds_inv (sdssetlen (s1\<lparr>sds_buf := b\<rparr>) (sdslen s1))"
    "contents (sdssetlen (s1\<lparr>sds_buf := b\<rparr>) (sdslen s1)) = take (sdslen s1) (sds_buf s1)"
    using sds_terminate [OF s1(2) le refl] by blast
  have "sdssetlen (s1\<lparr>sds_buf := b\<rparr>) (sdslen s1) = s1\<lparr>sds_buf := b\<rparr>"
    using s1(2) by (simp add: sdssetlen_def sdslen_def sds_wf_def)
  then show ?thesis using that b s1 by (simp add: sdscatfmt_def contents_def)
qed

text \<open>A string is shortened by a negative increment.\<close>

lemma sdsIncrLen_shorten:
  assumes "sds_inv s" and "n \<le> sdslen s" and "0 < n" and "n < 2 ^ 31" and "sds_type s \<noteq> SDS_TYPE_5"
  obtains s' where "sdsIncrLen s (- int n) = Some s'" and "sds_inv s'"
    and "contents s' = take (sdslen s - n) (contents s)"
proof -
  have wf: "sds_wf s" using assms(1) by (simp add: sds_inv_def)
  have h: "n \<le> hdr_len s" "hdr_len s < 2 ^ hdr_bits (sds_type s)" "sdslen s = hdr_len s"
    using wf assms(2,5) by (auto simp: sds_wf_def sdslen_def sdsalloc_def)
  have nl: "nat ((int (hdr_len s) + - int n) mod 2 ^ hdr_bits (sds_type s)) = sdslen s - n"
  proof -
    have m: "(hdr_len s - n) mod 2 ^ hdr_bits (sds_type s) = hdr_len s - n" using h by simp
    have "int (hdr_len s) + - int n = int (hdr_len s - n)" using h(1) by simp
    then have "(int (hdr_len s) + - int n) mod 2 ^ hdr_bits (sds_type s) = int ((hdr_len s - n) mod 2 ^ hdr_bits (sds_type s))"
      by (simp only: zmod_int of_nat_power of_nat_numeral)
    then show ?thesis unfolding m h(3) by (simp only: nat_int)
  qed
  have ok: "(case sds_type s of
        SDS_TYPE_5 \<Rightarrow> - int n > 0 \<and> int (hdr_len s) + - int n < 32 \<or>
          - int n < 0 \<and> int (hdr_len s) \<ge> (- (- int n)) mod 2 ^ 32
      | SDS_TYPE_32 \<Rightarrow> - int n \<ge> 0 \<and> (int (hdr_alloc s) - int (hdr_len s)) mod 2 ^ 32 \<ge> - int n mod 2 ^ 32 \<or>
                       - int n < 0 \<and> int (hdr_len s) \<ge> (- (- int n)) mod 2 ^ 32
      | SDS_TYPE_64 \<Rightarrow> - int n \<ge> 0 \<and> (int (hdr_alloc s) - int (hdr_len s)) mod 2 ^ 64 \<ge> - int n \<or>
                       - int n < 0 \<and> int (hdr_len s) \<ge> (- (- int n)) mod 2 ^ 64
      | _ \<Rightarrow> - int n \<ge> 0 \<and> int (hdr_alloc s) - int (hdr_len s) \<ge> - int n \<or>
             - int n < 0 \<and> int (hdr_len s) \<ge> (- (- int n)) mod 2 ^ 32)"
    using h(1) assms(3,4,5) by (cases "sds_type s") simp_all
  have le: "sdslen s - n \<le> sdsalloc s" using wf unfolding sds_wf_def by linarith
  obtain b' where b': "mem_write (sds_buf s) (sdslen s - n) [CHR 0x00] = Some b'"
    "sds_inv (sdssetlen (s\<lparr>sds_buf := b'\<rparr>) (sdslen s - n))"
    "contents (sdssetlen (s\<lparr>sds_buf := b'\<rparr>) (sdslen s - n)) = take (sdslen s - n) (sds_buf s)"
    using sds_terminate [OF wf le refl] by blast
  show ?thesis
  proof (rule that)
    have "sdssetlen (s\<lparr>sds_buf := b'\<rparr>) (sdslen s - n) = s\<lparr>hdr_len := sdslen s - n, sds_buf := b'\<rparr>"
      using h by (simp add: sdssetlen_def)
    then show "sdsIncrLen s (- int n) = Some (sdssetlen (s\<lparr>sds_buf := b'\<rparr>) (sdslen s - n))"
      unfolding sdsIncrLen_def Let_def nl if_P [OF ok] b'(1) bind.bind_lunit by simp
    show "contents (sdssetlen (s\<lparr>sds_buf := b'\<rparr>) (sdslen s - n)) = take (sdslen s - n) (contents s)"
      unfolding b'(3) contents_def [of s] by simp
  qed (rule b'(2))
qed

lemma sdsnewlen_noinit:
  assumes "n < 2 ^ 62"
  obtains s where "sdsnewlen fill SDS_NOINIT n = Some s" and "sds_inv s"
proof -
  have l63: "n < 2 ^ 63" using assms by simp
  define z where "z = map fill [0..<n + 1]"
  have z: "length z = n + 1" by (simp add: z_def)
  obtain b' where b': "mem_write z n [CHR 0x00] = Some b'"
    "sds_inv \<lparr>sds_type = newlen_type n, hdr_len = n mod 2 ^ hdr_bits (newlen_type n),
      hdr_alloc = n mod 2 ^ hdr_bits (newlen_type n), sds_buf = b'\<rparr>"
    using sds_fresh [OF newlen_type_fits [OF assms] z] by blast
  have ne: "(SDS_NOINIT = INIT_NULL) = False" by simp
  show ?thesis
  proof (rule that)
    show "sdsnewlen fill SDS_NOINIT n = Some \<lparr>sds_type = newlen_type n,
        hdr_len = n mod 2 ^ hdr_bits (newlen_type n), hdr_alloc = n mod 2 ^ hdr_bits (newlen_type n), sds_buf = b'\<rparr>"
      unfolding sdsnewlen_def Let_def newlen_type_def [symmetric] sds_malloc_Some [OF l63 sdsHdrSize_le]
        bind.bind_lunit ne if_False sds_init.case z_def [symmetric] b'(1) ..
  qed (rule b'(2))
qed

text \<open>\<open>sdssplitargs\<close> reads inside the line whatever it contains, and ends.\<close>

lemma cstr_at_total: "p \<le> length line \<Longrightarrow> \<exists>c. cstr_at line p = Some c"
  by (simp add: cstr_at_def)

lemma cstr_at_next:
  assumes "cstr_at line p = Some c" and "c \<noteq> CHR 0x00"
  shows "p + 1 \<le> length line"
  using assms by (auto simp: cstr_at_def split: if_splits)

lemma nul_not_hex: "\<not> is_hex_digit (CHR 0x00)"
  by code_simp

lemma cstr_at_char: "cstr_at line p = Some c \<Longrightarrow> c \<noteq> CHR 0x00 \<Longrightarrow> p < length line \<and> line ! p = c"
  by (auto simp: cstr_at_def split: if_splits)

lemma hex_escape_total:
  assumes "p \<le> length line"
  shows "\<exists>h. hex_escape line p = Some h \<and> (h \<noteq> None \<longrightarrow> p + 3 < length line \<and> line ! (p + 3) \<noteq> CHR 0x00)"
proof -
  have hex: "is_hex_digit c \<Longrightarrow> c \<noteq> CHR 0x00" for c using nul_not_hex by auto
  obtain c0 where c0: "cstr_at line p = Some c0" using cstr_at_total [OF assms] by blast
  show ?thesis
  proof (cases "c0 = CHR 0x5C")
    case True
    then have "p + 1 \<le> length line" using cstr_at_next [OF c0] by simp
    then obtain c1 where c1: "cstr_at line (p + 1) = Some c1" using cstr_at_total by blast
    show ?thesis
    proof (cases "c1 = CHR ''x''")
      case x: True
      then have "p + 2 \<le> length line" using cstr_at_next [OF c1] by simp
      then obtain c2 where c2: "cstr_at line (p + 2) = Some c2" using cstr_at_total by blast
      show ?thesis
      proof (cases "is_hex_digit c2")
        case h2: True
        then have "p + 3 \<le> length line" using cstr_at_next [OF c2] hex by simp
        then obtain c3 where c3: "cstr_at line (p + 3) = Some c3" using cstr_at_total by blast
        then have "is_hex_digit c3 \<Longrightarrow> p + 3 < length line \<and> line ! (p + 3) \<noteq> CHR 0x00" using cstr_at_char [OF c3] hex by auto
        then show ?thesis using c0 c1 c2 c3 True x h2 by (simp add: hex_escape_def)
      qed (use c0 c1 c2 True x in \<open>simp add: hex_escape_def\<close>)
    qed (use c0 c1 True in \<open>simp add: hex_escape_def\<close>)
  qed (use c0 in \<open>simp add: hex_escape_def\<close>)
qed

definition turn_ok :: "string \<Rightarrow> nat \<Rightarrow> arg_state option \<Rightarrow> bool" where
  "turn_ok line p r \<longleftrightarrow> (case r of None \<Rightarrow> True
     | Some (p', inq, insq, stop, cur) \<Rightarrow> p \<le> p' \<and> p' \<le> length line \<and> (\<not> stop \<longrightarrow> p' < length line \<and> line ! p' \<noteq> CHR 0x00))"

lemma close_quote_total:
  assumes "cstr_at line p = Some c" and "c \<noteq> CHR 0x00"
  shows "\<exists>r. close_quote line p inq insq cur = Some r \<and> turn_ok line p r"
proof -
  have le: "p + 1 \<le> length line" by (rule cstr_at_next [OF assms])
  then obtain x where "cstr_at line (p + 1) = Some x" using cstr_at_total by blast
  then show ?thesis using le by (simp add: close_quote_def turn_ok_def)
qed

lemma arg_turn_total:
  assumes "p \<le> length line"
  shows "\<exists>r. arg_turn line p inq insq cur = Some r \<and> turn_ok line p r"
proof -
  obtain c where c: "cstr_at line p = Some c" using cstr_at_total [OF assms] by blast
  obtain h where h: "hex_escape line p = Some h" "h \<noteq> None \<longrightarrow> p + 3 < length line \<and> line ! (p + 3) \<noteq> CHR 0x00"
    using hex_escape_total [OF assms] by blast
  obtain c1 where c1: "(if c = CHR 0x5C then cstr_at line (p + 1) else Some (CHR 0x00)) = Some c1"
    using cstr_at_total [of "p + 1" line] cstr_at_next [OF c] by (cases "c = CHR 0x5C") auto
  have c1': "c1 \<noteq> CHR 0x00 \<Longrightarrow> p + 1 < length line \<and> line ! (p + 1) = c1"
    using c1 cstr_at_char [of line "p + 1" c1] by (auto split: if_splits)
  have here: "c \<noteq> CHR 0x00 \<Longrightarrow> turn_ok line p (Some (p, a, b, d, e))" for a b d e
    using cstr_at_char [OF c] by (auto simp: turn_ok_def)
  have next1: "c1 \<noteq> CHR 0x00 \<Longrightarrow> turn_ok line p (Some (p + 1, a, b, d, e))" for a b d e
    using c1' by (auto simp: turn_ok_def)
  have next3: "h \<noteq> None \<Longrightarrow> turn_ok line p (Some (p + 3, a, b, d, e))" for a b d e
    using h(2) by (auto simp: turn_ok_def)
  have none: "turn_ok line p None" by (simp add: turn_ok_def)
  have stop: "turn_ok line p (Some (p, a, b, True, e))" for a b e using assms by (simp add: turn_ok_def)
  have some: "\<exists>r. Some x = Some r \<and> turn_ok line p r" if "turn_ok line p x" for x using that by simp
  have branch: "\<exists>r. (if b then x else y) = Some r \<and> turn_ok line p r"
    if "b \<Longrightarrow> \<exists>r. x = Some r \<and> turn_ok line p r" "\<not> b \<Longrightarrow> \<exists>r. y = Some r \<and> turn_ok line p r" for b x y
    using that by (cases b) simp_all
  note quote = close_quote_total [OF c]
  have in_q: "\<exists>r. (case h of Some byte \<Rightarrow> Some (Some (p + 3, inq, insq, False, cur @ [byte]))
       | None \<Rightarrow> if c1 \<noteq> CHR 0x00 then Some (Some (p + 1, inq, insq, False, cur @ [unescape c1]))
           else if c = CHR 0x22 then close_quote line p inq insq cur
           else if c = CHR 0x00 then Some None
           else Some (Some (p, inq, insq, False, cur @ [c]))) = Some r \<and> turn_ok line p r"
  proof (cases h)
    case None
    have "\<exists>r. (if c1 \<noteq> CHR 0x00 then Some (Some (p + 1, inq, insq, False, cur @ [unescape c1]))
           else if c = CHR 0x22 then close_quote line p inq insq cur
           else if c = CHR 0x00 then Some None
           else Some (Some (p, inq, insq, False, cur @ [c]))) = Some r \<and> turn_ok line p r"
      by (intro branch some next1 here none quote) simp_all
    then show ?thesis using None by simp
  next
    case (Some byte)
    then show ?thesis using next3 by simp
  qed
  show ?thesis unfolding arg_turn_def c h(1) c1 bind.bind_lunit
    by (intro branch some in_q next1 here none quote stop) auto
qed

lemma arg_loop_total:
  assumes "p \<le> length line"
  shows "\<exists>r. arg_loop line p inq insq cur = Some r \<and> (\<forall>q cur'. r = Some (q, cur') \<longrightarrow> p \<le> q \<and> q \<le> length line)"
  using assms
proof (induction line p inq insq cur rule: arg_loop.induct)
  case (1 line p inq insq cur)
  obtain r where r: "arg_turn line p inq insq cur = Some r" "turn_ok line p r" using arg_turn_total [OF 1(2)] by blast
  show ?case
  proof (cases r)
    case None
    then show ?thesis using r(1) by (subst arg_loop.simps) simp
  next
    case (Some t)
    obtain p' i j stop cu where t: "t = (p', i, j, stop, cu)" by (cases t) auto
    have ok: "p \<le> p'" "p' \<le> length line" "\<not> stop \<longrightarrow> p' < length line \<and> line ! p' \<noteq> CHR 0x00"
      using r(2) by (simp_all add: turn_ok_def Some t)
    obtain c where c: "cstr_at line p' = Some c" using cstr_at_total [OF ok(2)] by blast
    define q where "q = (if c \<noteq> CHR 0x00 then p' + 1 else p')"
    have q: "p' \<le> q" "q \<le> length line" using ok(2) cstr_at_next [OF c] by (auto simp: q_def)
    have e: "arg_loop line p inq insq cur = (if stop then Some (Some (q, cu)) else if q \<le> p then None else arg_loop line q i j cu)"
      using r(1) c by (subst arg_loop.simps) (simp add: Some t q_def Let_def)
    show ?thesis
    proof (cases stop)
      case True
      then show ?thesis using e ok q by auto
    next
      case False
      then have "c \<noteq> CHR 0x00" using ok(3) c by (auto simp: cstr_at_def)
      then have "\<not> q \<le> p" using ok(1) by (simp add: q_def)
      have "\<exists>r. arg_loop line q i j cu = Some r \<and> (\<forall>q' cur'. r = Some (q', cur') \<longrightarrow> q \<le> q' \<and> q' \<le> length line)"
        by (rule 1(1) [OF r(1) Some t [symmetric] refl refl refl c q_def False \<open>\<not> q \<le> p\<close> q(2)])
      then show ?thesis using e False \<open>\<not> q \<le> p\<close> by auto
    qed
  qed
qed

lemma skip_spaces_total:
  assumes "p \<le> length line"
  shows "\<exists>q c. skip_spaces line p = Some q \<and> p \<le> q \<and> q \<le> length line \<and> cstr_at line q = Some c \<and> (c = CHR 0x00 \<or> \<not> isspace c)"
  using assms
proof (induction line p rule: skip_spaces.induct)
  case (1 line p)
  obtain c where c: "cstr_at line p = Some c" using cstr_at_total [OF 1(2)] by blast
  show ?case
  proof (cases "c \<noteq> CHR 0x00 \<and> isspace c")
    case True
    then have "p + 1 \<le> length line" using cstr_at_next [OF c] by simp
    from 1(1) [OF c True this] obtain q d where "skip_spaces line (p + 1) = Some q" "p + 1 \<le> q" "q \<le> length line"
      "cstr_at line q = Some d" "d = CHR 0x00 \<or> \<not> isspace d" by blast
    moreover have "skip_spaces line p = skip_spaces line (p + 1)" using c True by (subst skip_spaces.simps) simp
    ultimately show ?thesis by (intro exI [of _ q] exI [of _ d]) simp
  next
    case False
    then have "skip_spaces line p = Some p" using c by (subst skip_spaces.simps) auto
    then show ?thesis using c 1(2) False by (intro exI [of _ p] exI [of _ c]) simp
  qed
qed

lemma arg_loop_advances:
  assumes "q \<le> length line" and "cstr_at line q = Some c" and "c \<noteq> CHR 0x00" and "\<not> isspace c"
  shows "\<exists>r. arg_loop line q False False [] = Some r \<and> (\<forall>q' cur. r = Some (q', cur) \<longrightarrow> q < q')"
proof -
  have "isspace (CHR '' '')" "isspace (CHR 0x0A)" "isspace (CHR 0x0D)" "isspace (CHR 0x09)" by code_simp+
  then have sp: "c \<notin> {CHR '' '', CHR 0x0A, CHR 0x0D, CHR 0x09, CHR 0x00}" using assms(3,4) by auto
  have "\<exists>i j cu. arg_turn line q False False [] = Some (Some (q, i, j, False, cu))"
    unfolding arg_turn_def assms(2) bind.bind_lunit if_False if_not_P [OF sp] by (simp split: if_splits, blast)
  then obtain i j cu where t: "arg_turn line q False False [] = Some (Some (q, i, j, False, cu))" by blast
  have le: "q + 1 \<le> length line" by (rule cstr_at_next [OF assms(2,3)])
  have "arg_loop line q False False [] = arg_loop line (q + 1) i j cu"
    using t assms(2,3) by (subst arg_loop.simps) (simp add: Let_def)
  then show ?thesis using arg_loop_total [OF le, of i j cu] by fastforce
qed

lemma splitargs_loop_total:
  assumes "p \<le> length line"
  shows "\<exists>r. splitargs_loop line p vector = Some r"
  using assms
proof (induction line p vector rule: splitargs_loop.induct)
  case (1 line p vector)
  obtain q c where q: "skip_spaces line p = Some q" "q \<le> length line" "cstr_at line q = Some c" "c = CHR 0x00 \<or> \<not> isspace c"
    using skip_spaces_total [OF 1(2)] by blast
  show ?case
  proof (cases "c = CHR 0x00")
    case True
    then show ?thesis using q by (subst splitargs_loop.simps) simp
  next
    case False
    then obtain r where r: "arg_loop line q False False [] = Some r" "\<forall>q' cur. r = Some (q', cur) \<longrightarrow> q < q'"
      using arg_loop_advances [OF q(2,3)] q(4) by blast
    show ?thesis
    proof (cases r)
      case None
      then show ?thesis using q(1,3) False r(1) by (subst splitargs_loop.simps) simp
    next
      case (Some t)
      obtain q' cur where t: "t = (q', cur)" by (cases t) auto
      have lt: "\<not> q' \<le> q" using r(2) Some t by simp
      have "q' \<le> length line" using arg_loop_total [OF q(2), of False False "[]"] r(1) Some t by auto
      from 1(1) [OF q(1,3) False r(1) Some t [symmetric] lt this]
      show ?thesis using q(1,3) False r(1) Some t lt by (subst splitargs_loop.simps) simp
    qed
  qed
qed

lemma sdssplitargs_total: "\<exists>r. sdssplitargs line = Some r"
  unfolding sdssplitargs_def by (rule splitargs_loop_total) simp

section \<open>The properties\<close>

text \<open>A concrete string, for the witnesses.\<close>

definition sds_abc :: sds where
  "sds_abc = \<lparr>sds_type = SDS_TYPE_8, hdr_len = 3, hdr_alloc = 3, sds_buf = ''abc'' @ [CHR 0x00]\<rparr>"

lemma sds_abc: "sds_inv sds_abc" "contents sds_abc = ''abc''" "sdslen sds_abc = 3"
  by (simp_all add: sds_abc_def sds_inv_def sds_wf_def contents_def sdslen_def sdsalloc_def)

text \<open>C10: appending \<open>len\<close> bytes to a string (\<open>sdscatlen\<close>, with the reallocation and the change
  of header type that \<open>sdsMakeRoomFor\<close> may need) stays inside of the two blocks, keeps the
  invariant of strings (length within allocation, allocation within the header's range,
  terminator in place) and appends exactly these bytes.\<close>

theorem sdscatlen_appends:
  assumes "sds_inv s" and "len \<le> length t" and "length (contents s) + len < 2 ^ 62"
  shows "\<exists>s'. sdscatlen fill s t len = Some s' \<and> sds_inv s' \<and> contents s' = contents s @ take len t"
proof -
  have "sdslen s + len < 2 ^ 62" using assms(3) length_contents [OF sds_inv_wf [OF assms(1)]] by simp
  from sdscatlen_correct [OF sds_inv_wf [OF assms(1)] this assms(2), of fill]
  show ?thesis by blast
qed

theorem sdscatlen_appends_witness:
  "\<exists>s'. sdscatlen (\<lambda>_. CHR ''?'') sds_abc ''defg'' 2 = Some s' \<and> sds_inv s' \<and> contents s' = ''abcde''"
  using sdscatlen_appends [of sds_abc 2 "''defg''" "\<lambda>_. CHR ''?''"] by (simp add: sds_abc)

text \<open>C30: \<open>sdsMakeRoomFor\<close> leaves the string and its invariant as they are and afterwards there
  is room for \<open>addlen\<close> more bytes, within the range of the header in use.\<close>

theorem sdsMakeRoomFor_bounds:
  assumes "sds_inv s" and "sdslen s + addlen < 2 ^ 62"
  shows "\<exists>s'. sdsMakeRoomFor fill s addlen = Some s' \<and> sds_inv s' \<and> contents s' = contents s \<and>
    addlen \<le> sdsavail s' \<and> sdsalloc s' < 2 ^ hdr_bits (sds_type s') \<and> sdsalloc s' < length (sds_buf s')"
proof -
  obtain s' where s': "sdsMakeRoomFor fill s addlen = Some s'" "sds_wf s'" "sdslen s' = sdslen s"
    "sdslen s + addlen \<le> sdsalloc s'"
    "take (Suc (sdslen s)) (sds_buf s') = take (Suc (sdslen s)) (sds_buf s)"
    using sdsMakeRoomFor_correct [OF sds_inv_wf [OF assms(1)] assms(2)] by blast
  have "contents s' = contents s"
    using arg_cong [OF s'(5), of "take (sdslen s)"] s'(3) by (simp add: contents_def)
  moreover have "sds_buf s' ! sdslen s = sds_buf s ! sdslen s"
    using arg_cong [OF s'(5), of "\<lambda>b. b ! sdslen s"] by simp
  ultimately show ?thesis
    using s' assms(1) by (auto simp: sds_inv_def sdsavail_eq sds_wf_def)
qed

theorem sdsMakeRoomFor_bounds_witness:
  "\<exists>s'. sdsMakeRoomFor (\<lambda>_. CHR ''?'') sds_abc 1000 = Some s' \<and> sds_inv s' \<and> contents s' = ''abc'' \<and>
     1000 \<le> sdsavail s' \<and> sdsalloc s' < 2 ^ hdr_bits (sds_type s') \<and> sdsalloc s' < length (sds_buf s')"
  using sdsMakeRoomFor_bounds [of sds_abc 1000 "\<lambda>_. CHR ''?''"] by (simp add: sds_abc)

text \<open>C37: \<open>sdsrange\<close> keeps exactly the inclusive slice between two positions, negative ones
  counted from the end and both clamped to the string.\<close>

theorem sdsrange_slices:
  assumes "sds_inv s" and "sdslen s < 2 ^ 62" and "stop < LLONG_MAX"
  shows "\<exists>s'. sdsrange s start stop = Some s' \<and> sds_inv s' \<and>
    contents s' = slice (contents s) start stop"
  using sdsrange_correct [OF assms] by blast

theorem sdsrange_slices_witness:
  "\<exists>s'. sdsrange sds_abc (- 2) (- 1) = Some s' \<and> sds_inv s' \<and> contents s' = ''bc''"
proof -
  have "slice ''abc'' (- 2) (- 1) = ''bc''" by (simp add: slice_def clamp_def)
  then show ?thesis using sdsrange_slices [of sds_abc "- 1" "- 2"] by (simp add: sds_abc LLONG_MAX_def)
qed

text \<open>C38: \<open>sdstrim\<close> removes from both ends the characters of \<open>cset\<close>, and NUL bytes.\<close>

theorem sdstrim_trims:
  assumes "sds_inv s"
  shows "\<exists>s'. sdstrim s cset = Some s' \<and> sds_inv s' \<and> contents s' =
    rev (dropWhile (strchr_has cset) (rev (dropWhile (strchr_has cset) (contents s))))"
  using sdstrim_correct [OF assms] by blast

theorem sdstrim_trims_witness:
  "\<exists>s'. sdstrim sds_abc ''ca'' = Some s' \<and> sds_inv s' \<and> contents s' = ''b''"
  using sdstrim_trims [of sds_abc "''ca''"] by (simp add: sds_abc strchr_has_def strlen_def)

text \<open>\<open>sdscmp\<close> orders strings by their bytes as unsigned numbers, a proper prefix first.\<close>

theorem sdscmp_orders:
  assumes "sds_inv s1" and "sds_inv s2"
  shows "sdscmp s1 s2 = Some
    (if contents s1 = contents s2 then 0 else if byte_less (contents s1) (contents s2) then - 1 else 1)"
  using sdscmp_correct assms by (simp add: sds_inv_wf)

theorem sdscmp_orders_witness: "sdscmp sds_abc sds_abc = Some 0"
  using sdscmp_orders [OF sds_abc(1) sds_abc(1)] by simp

text \<open>C31: on a text of less than \<open>2 ^ 30\<close> bytes, for which the \<open>int\<close> counters do not overflow,
  \<open>sdssplitlen\<close> never writes outside of its array of tokens; it cuts the text at each
  occurrence of the separator from the left, and joining the tokens with the separator gives the
  text back.\<close>

theorem sdssplitlen_splits:
  assumes "sep \<noteq> []" and "s \<noteq> []" and "length s < 2 ^ 30"
  shows "sdssplitlen s sep = Some (Some (split_ref sep [] s)) \<and> separated sep (split_ref sep [] s) = s"
  using sdssplitlen_correct [OF assms] split_ref_separated [of sep "[]" s] by simp

theorem sdssplitlen_splits_witness: "sdssplitlen ''a::b:c'' ''::'' = Some (Some [''a'', ''b:c''])"
  using sdssplitlen_splits [of "''::''" "''a::b:c''"] by (simp add: split_ref.simps)

text \<open>C13: a command line made of the quoted forms that \<open>sdscatrepr\<close> writes, each after a
  blank, is split by \<open>sdssplitargs\<close> into the original binary strings.\<close>

theorem sdssplitargs_sdscatrepr:
  assumes "sds_inv s" and "\<forall>a \<in> set argv. length (contents s) + length (quoted a) < 2 ^ 62"
  shows "(\<forall>a \<in> set argv. \<exists>s'. sdscatrepr fill s a = Some s' \<and> sds_inv s' \<and> contents s' = contents s @ quoted a) \<and>
    sdssplitargs (concat (map (\<lambda>a. CHR '' '' # quoted a) argv)) = Some (Some argv)"
proof
  show "\<forall>a \<in> set argv. \<exists>s'. sdscatrepr fill s a = Some s' \<and> sds_inv s' \<and> contents s' = contents s @ quoted a"
    using sdscatrepr_correct [OF assms(1)] assms(2) by metis
  show "sdssplitargs (concat (map (\<lambda>a. CHR '' '' # quoted a) argv)) = Some (Some argv)"
    using splitargs_loop_quoted [of "[]" argv "[]"] by (simp add: sdssplitargs_def)
qed

theorem sdssplitargs_sdscatrepr_witness:
  "(\<exists>s'. sdscatrepr (\<lambda>_. CHR ''?'') sds_abc [CHR 0xFF] = Some s' \<and> sds_inv s' \<and>
      contents s' = ''abc'' @ quoted [CHR 0xFF]) \<and>
   sdssplitargs (concat (map (\<lambda>a. CHR '' '' # quoted a) [[CHR 0xFF]])) = Some (Some [[CHR 0xFF]])"
  using sdssplitargs_sdscatrepr [of sds_abc "[[CHR 0xFF]]" "\<lambda>_. CHR ''?''"]
  by (simp add: sds_abc) (simp add: quoted_def repr_char_def isprint_def cval_def)

text \<open>C32: \<open>sdscatfmt\<close> appends the text that the format and its arguments stand for.\<close>

theorem sdscatfmt_formats:
  assumes "fmt_text fmt ap = Some out" and "CHR 0x00 \<notin> set fmt" and "\<forall>a \<in> set ap. arg_ok a"
    and "sds_inv s" and "length (contents s) + length out + 1 < 2 ^ 62"
  shows "\<exists>s'. sdscatfmt fill s fmt ap = Some s' \<and> sds_inv s' \<and> contents s' = contents s @ out"
  using sdscatfmt_correct [OF assms] by blast

theorem sdscatfmt_formats_witness:
  "\<exists>s'. sdscatfmt (\<lambda>_. CHR ''?'') sds_abc ''=%i%%'' [Arg_i (- 7)] = Some s' \<and> sds_inv s' \<and>
     contents s' = ''abc=-7%''"
proof -
  have "fmt_text ''=%i%%'' [Arg_i (- 7)] = Some ''=-7%''"
    by (simp add: sdec_def dec.simps digit_chars)
  from sdscatfmt_formats [OF this, of sds_abc "\<lambda>_. CHR ''?''"] show ?thesis by (simp add: sds_abc)
qed

end
