(* ===== verification/Siphash.thy ===== *)
theory Siphash
  imports Sds
begin

text \<open>
  The hash function of the dictionaries: SipHash with one compression and two finalisation
  rounds (\<open>siphash.c\<close>), its case-insensitive variant, and the hash and comparison functions
  that \<open>server.c\<close> builds from them for string keys. A key is the contents of its string.
\<close>

section \<open>SipHash\<close>

definition siptlw :: "int \<Rightarrow> int" where
  "siptlw c = (if c \<ge> 65 \<and> c \<le> 90 then c + (97 - 65) else c)"

definition ROTL :: "64 word \<Rightarrow> nat \<Rightarrow> 64 word" where
  "ROTL x b = (push_bit b x OR drop_bit (64 - b) x)"

definition byte64 :: "byte \<Rightarrow> 64 word" where
  "byte64 b = word_of_int (uint b)"

definition byte64_lower :: "byte \<Rightarrow> 64 word" where
  "byte64_lower b = word_of_int (siptlw (uint b))"

text \<open>The eight bytes from \<open>p\<close>, least significant first, each converted by \<open>f\<close>.\<close>

definition load64 :: "(byte \<Rightarrow> 64 word) \<Rightarrow> byte list \<Rightarrow> 64 word" where
  "load64 f p =
     f (p ! 0) OR push_bit 8 (f (p ! 1)) OR push_bit 16 (f (p ! 2)) OR push_bit 24 (f (p ! 3)) OR
     push_bit 32 (f (p ! 4)) OR push_bit 40 (f (p ! 5)) OR push_bit 48 (f (p ! 6)) OR
     push_bit 56 (f (p ! 7))"

definition U8TO64_LE :: "byte list \<Rightarrow> 64 word" where
  "U8TO64_LE p = load64 byte64 p"

definition U8TO64_LE_NOCASE :: "byte list \<Rightarrow> 64 word" where
  "U8TO64_LE_NOCASE p = load64 byte64_lower p"

type_synonym sip_state = "64 word \<times> 64 word \<times> 64 word \<times> 64 word"

definition SIPROUND :: "sip_state \<Rightarrow> sip_state" where
  "SIPROUND s =
     (let (v0, v1, v2, v3) = s;
          v0 = v0 + v1;
          v1 = ROTL v1 13;
          v1 = v1 XOR v0;
          v0 = ROTL v0 32;
          v2 = v2 + v3;
          v3 = ROTL v3 16;
          v3 = v3 XOR v2;
          v0 = v0 + v3;
          v3 = ROTL v3 21;
          v3 = v3 XOR v0;
          v2 = v2 + v1;
          v1 = ROTL v1 17;
          v1 = v1 XOR v2;
          v2 = ROTL v2 32
      in (v0, v1, v2, v3))"

text \<open>The loop over the full blocks, with the unread rest of the input.\<close>

fun sip_blocks :: "(byte list \<Rightarrow> 64 word) \<Rightarrow> byte list \<Rightarrow> sip_state \<Rightarrow> byte list \<times> sip_state" where
  "sip_blocks ld inp s =
     (if length inp < 8 then (inp, s)
      else
        (let m = ld inp;
             (v0, v1, v2, v3) = s;
             v3 = v3 XOR m;
             (v0, v1, v2, v3) = SIPROUND (v0, v1, v2, v3);
             v0 = v0 XOR m
         in sip_blocks ld (drop 8 inp) (v0, v1, v2, v3)))"

declare sip_blocks.simps [simp del]

text \<open>The switch over the \<open>left\<close> remaining bytes, which falls through from the last to the first.\<close>

fun sip_tail :: "(byte \<Rightarrow> 64 word) \<Rightarrow> byte list \<Rightarrow> nat \<Rightarrow> 64 word \<Rightarrow> 64 word" where
  "sip_tail f inp 0 b = b"
| "sip_tail f inp (Suc i) b = sip_tail f inp i (b OR push_bit (8 * i) (f (inp ! i)))"

text \<open>Both variants: the two functions of the source have the same body but for the load of a block and the
  conversion of a remaining byte.\<close>

definition sip_core :: "(byte list \<Rightarrow> 64 word) \<Rightarrow> (byte \<Rightarrow> 64 word) \<Rightarrow> byte list \<Rightarrow> byte list \<Rightarrow> 64 word" where
  "sip_core ld f inp k =
     (let v0 = 0x736f6d6570736575;
          v1 = 0x646f72616e646f6d;
          v2 = 0x6c7967656e657261;
          v3 = 0x7465646279746573;
          k0 = U8TO64_LE k;
          k1 = U8TO64_LE (drop 8 k);
          left = length inp mod 8;
          b = push_bit 56 (of_nat (length inp));
          v3 = v3 XOR k1;
          v2 = v2 XOR k0;
          v1 = v1 XOR k1;
          v0 = v0 XOR k0;
          (rest, v0, v1, v2, v3) = sip_blocks ld inp (v0, v1, v2, v3);
          b = sip_tail f rest left b;
          v3 = v3 XOR b;
          (v0, v1, v2, v3) = SIPROUND (v0, v1, v2, v3);
          v0 = v0 XOR b;
          v2 = v2 XOR 0xff;
          (v0, v1, v2, v3) = SIPROUND (SIPROUND (v0, v1, v2, v3))
      in v0 XOR v1 XOR v2 XOR v3)"

definition siphash :: "byte list \<Rightarrow> byte list \<Rightarrow> 64 word" where
  "siphash inp k = sip_core U8TO64_LE byte64 inp k"

definition siphash_nocase :: "byte list \<Rightarrow> byte list \<Rightarrow> 64 word" where
  "siphash_nocase inp k = sip_core U8TO64_LE_NOCASE byte64_lower inp k"

section \<open>Hashing and comparing string keys\<close>

definition byte_of :: "char \<Rightarrow> byte" where
  "byte_of c = word_of_int (int (of_char c))"

text \<open>The length is passed as an \<open>int\<close>; \<open>seed\<close> is \<open>dict_hash_function_seed\<close>.\<close>

definition dictGenHashFunction :: "byte list \<Rightarrow> string \<Rightarrow> int \<Rightarrow> 64 word" where
  "dictGenHashFunction seed key len = siphash (map byte_of (take (nat len) key)) seed"

definition dictGenCaseHashFunction :: "byte list \<Rightarrow> string \<Rightarrow> int \<Rightarrow> 64 word" where
  "dictGenCaseHashFunction seed key len = siphash_nocase (map byte_of (take (nat len) key)) seed"

definition dictSdsHash :: "byte list \<Rightarrow> string \<Rightarrow> 64 word" where
  "dictSdsHash seed key = dictGenHashFunction seed key (s32 (int (length key)))"

definition dictSdsCaseHash :: "byte list \<Rightarrow> string \<Rightarrow> 64 word" where
  "dictSdsCaseHash seed key = dictGenCaseHashFunction seed key (s32 (int (length key)))"

definition dictSdsKeyCompare :: "string \<Rightarrow> string \<Rightarrow> bool" where
  "dictSdsKeyCompare key1 key2 =
     (let l1 = s32 (int (length key1)); l2 = s32 (int (length key2))
      in if l1 \<noteq> l2 then False
         else memcmp (take (nat l1) key1) (take (nat l1) key2) = 0)"

text \<open>\<open>strcasecmp\<close> compares up to the first NUL.\<close>

definition dictSdsKeyCaseCompare :: "string \<Rightarrow> string \<Rightarrow> bool" where
  "dictSdsKeyCaseCompare key1 key2 =
     eq_nocase (take (strlen key1) key1) (take (strlen key2) key2)"

section \<open>Properties of the hash functions\<close>

lemma load64_comp:
  assumes "8 \<le> length p"
  shows "load64 (f \<circ> g) p = load64 f (map g p)"
proof -
  have "map g p ! i = g (p ! i)" if "i < 8" for i using that assms by simp
  then show ?thesis unfolding load64_def comp_def by simp
qed

lemma sip_blocks_comp:
  "sip_blocks (load64 f) (map g inp) s = apfst (map g) (sip_blocks (load64 (f \<circ> g)) inp s)"
proof (induction "load64 (f \<circ> g)" inp s rule: sip_blocks.induct)
  case (1 inp s)
  show ?case
  proof (cases "length inp < 8")
    case True
    then show ?thesis by (simp add: sip_blocks.simps [of _ inp] sip_blocks.simps [of _ "map g inp"])
  next
    case False
    then have "load64 f (map g inp) = load64 (f \<circ> g) inp" by (simp add: load64_comp)
    then show ?thesis
      using 1 [OF False refl] False
      by (simp add: sip_blocks.simps [of _ inp] sip_blocks.simps [of _ "map g inp"] Let_def drop_map split: prod.splits)
  qed
qed

lemma sip_blocks_rest: "length (fst (sip_blocks ld inp s)) = length inp mod 8"
proof (induction ld inp s rule: sip_blocks.induct)
  case (1 ld inp s)
  then show ?case
    by (subst sip_blocks.simps) (auto simp: Let_def le_mod_geq not_less split: prod.splits)
qed

lemma sip_tail_comp: "n \<le> length inp \<Longrightarrow> sip_tail f (map g inp) n b = sip_tail (f \<circ> g) inp n b"
  by (induction n arbitrary: b) auto

lemma sip_core_comp: "sip_core (load64 (f \<circ> g)) (f \<circ> g) inp k = sip_core (load64 f) f (map g inp) k"
proof -
  have "sip_tail f (map g (fst (sip_blocks (load64 (f \<circ> g)) inp s))) (length inp mod 8) b =
      sip_tail (f \<circ> g) (fst (sip_blocks (load64 (f \<circ> g)) inp s)) (length inp mod 8) b" for s b
    by (rule sip_tail_comp) (simp add: sip_blocks_rest)
  then show ?thesis
    unfolding sip_core_def Let_def sip_blocks_comp case_prod_beta by simp
qed

definition byte_lower :: "byte \<Rightarrow> byte" where
  "byte_lower b = word_of_int (siptlw (uint b))"

lemma byte64_byte_lower: "byte64_lower = byte64 \<circ> byte_lower"
proof
  fix b :: byte
  have "0 \<le> siptlw (uint b)" "siptlw (uint b) < 2 ^ 8"
    using uint_bounded [of b] by (auto simp: siptlw_def)
  then show "byte64_lower b = (byte64 \<circ> byte_lower) b"
    by (simp add: byte64_lower_def byte64_def byte_lower_def uint_word_of_int)
qed

lemma siphash_nocase_lower: "siphash_nocase inp k = siphash (map byte_lower inp) k"
proof -
  have "U8TO64_LE = load64 byte64" "U8TO64_LE_NOCASE = load64 (byte64 \<circ> byte_lower)"
    by (simp_all add: fun_eq_iff U8TO64_LE_def U8TO64_LE_NOCASE_def byte64_byte_lower)
  note loads = this
  show ?thesis unfolding siphash_nocase_def siphash_def loads byte64_byte_lower by (rule sip_core_comp)
qed

definition sds_key :: "string \<Rightarrow> bool" where
  "sds_key k \<longleftrightarrow> length k < 2 ^ 31"

definition case_key :: "string \<Rightarrow> bool" where
  "case_key k \<longleftrightarrow> length k < 2 ^ 31 \<and> CHR 0x00 \<notin> set k"

lemma s32_length: "n < 2 ^ 31 \<Longrightarrow> s32 (int n) = int n"
  by (intro s32_id) simp_all

lemma memcmp_eq_0: "length a = length b \<Longrightarrow> memcmp a b = 0 \<longleftrightarrow> a = b"
  by (induction a b rule: memcmp.induct) auto

lemma dictSdsKeyCompare_eq:
  assumes "sds_key a" and "sds_key b"
  shows "dictSdsKeyCompare a b \<longleftrightarrow> a = b"
  using assms by (auto simp: dictSdsKeyCompare_def sds_key_def s32_length memcmp_eq_0)

lemma byte_lower_cval: "byte_lower (byte_of c) = word_of_int (tolower_int (cval c))"
proof -
  define u :: nat where "u = of_char c"
  have u: "u < 256" by (simp add: u_def)
  have b: "uint (byte_of c) = int u"
    using u by (simp add: byte_of_def u_def unsigned_of_nat take_bit_nat_eq_self)
  have "word_of_int (int u - 256) = (word_of_int (int u) :: byte)"
    by (simp add: word_of_int_eq_iff take_bit_eq_mod)
  then show ?thesis
    using u by (auto simp: byte_lower_def b siptlw_def tolower_int_def cval_def Let_def simp flip: u_def)
qed

lemma strlen_no_NUL: "CHR 0x00 \<notin> set k \<Longrightarrow> strlen k = length k"
  by (induction k) (auto simp: strlen_def)

interpretation sds_keys: dict_type sds_key "dictSdsHash seed" dictSdsKeyCompare for seed
  by unfold_locales (auto simp: dictSdsKeyCompare_eq)

interpretation case_keys: dict_type case_key "dictSdsCaseHash seed" dictSdsKeyCaseCompare for seed
proof unfold_locales
  fix a b
  assume ab: "case_key a" "case_key b" "dictSdsKeyCaseCompare a b"
  then have m: "map (tolower_int \<circ> cval) a = map (tolower_int \<circ> cval) b"
    by (simp add: dictSdsKeyCaseCompare_def case_key_def strlen_no_NUL eq_nocase_def)
  have e: "map (byte_lower \<circ> byte_of) k = map word_of_int (map (tolower_int \<circ> cval) k)" for k
    by (simp add: byte_lower_cval)
  have "map (byte_lower \<circ> byte_of) a = map (byte_lower \<circ> byte_of) b" unfolding e m ..
  then show "dictSdsCaseHash seed a = dictSdsCaseHash seed b"
    using ab(1,2)
    by (simp add: dictSdsCaseHash_def dictGenCaseHashFunction_def siphash_nocase_lower case_key_def s32_length)
qed (auto simp: dictSdsKeyCaseCompare_def eq_nocase_def)

text \<open>C39: the case-insensitive hash of a key is the hash of the key in lower case, and on
  keys without NUL bytes the case-insensitive comparison implies equal hashes, as the tables
  that use both require.\<close>

theorem siphash_case_insensitive:
  assumes "case_key a" and "case_key b" and "dictSdsKeyCaseCompare a b"
  shows "dictSdsCaseHash seed a = dictSdsCaseHash seed b \<and>
    dictSdsCaseHash seed a = siphash (map (byte_lower \<circ> byte_of) a) seed"
proof
  show "dictSdsCaseHash seed a = dictSdsCaseHash seed b" by (rule case_keys.cmp_hash [OF assms])
  show "dictSdsCaseHash seed a = siphash (map (byte_lower \<circ> byte_of) a) seed"
    using assms(1) by (simp add: dictSdsCaseHash_def dictGenCaseHashFunction_def siphash_nocase_lower case_key_def s32_length)
qed

theorem siphash_case_insensitive_witness:
  "dictSdsCaseHash (replicate 16 0) ''GET'' = dictSdsCaseHash (replicate 16 0) ''get''"
  using siphash_case_insensitive [of "''GET''" "''get''" "replicate 16 0"]
  by (simp add: case_key_def dictSdsKeyCaseCompare_def strlen_def eq_nocase_def tolower_int_def cval_def)

text \<open>With an embedded NUL the comparison stops early while the hash does not.\<close>

lemma case_compare_NUL: "dictSdsKeyCaseCompare [CHR ''a'', CHR 0x00, CHR ''b''] ''a''"
  by (simp add: dictSdsKeyCaseCompare_def strlen_def eq_nocase_def)

end
