(* ===== verification/Dict.thy ===== *)
theory Dict
  imports Siphash "HOL-Library.Multiset"
begin

text \<open>
  The hash tables of \<open>dict.c\<close>, with incremental rehashing. A table is the list of its
  buckets, a bucket the list of its entries in the order of the chain; the table pointer
  \<open>NULL\<close> is the empty list. A pointer to an entry is its table, its bucket and its position in
  the chain. The counters \<open>size\<close> and \<open>used\<close> are bounded by the memory of the host and are
  natural numbers; hashes and \<open>sizemask\<close> are 64-bit words.

  The functions of \<open>dictType\<close> are arguments (\<open>hash\<close>, \<open>cmp\<close>), as is the global flag
  \<open>dict_can_resize\<close> (\<open>can\<close>). The test \<open>key == he->key\<close> before \<open>dictCompareKeys\<close> is implied by
  the latter. Duplication and destruction of keys and values (\<open>keyDup\<close>, \<open>keyDestructor\<close>, ...)
  have no effect on the model, where keys and values are not shared.
\<close>

section \<open>Tables\<close>

record ('k, 'v) dictht =
  ht_table :: "('k \<times> 'v) list list"
  ht_size :: nat
  ht_sizemask :: "64 word"
  ht_used :: nat

record ('k, 'v) dict =
  ht0 :: "('k, 'v) dictht"
  ht1 :: "('k, 'v) dictht"
  rehashidx :: int
  iterators :: nat

type_synonym entry_ref = "nat \<times> nat \<times> nat"

definition DICT_HT_INITIAL_SIZE :: nat where "DICT_HT_INITIAL_SIZE = 4"

definition dict_force_resize_ratio :: nat where "dict_force_resize_ratio = 5"

definition dictReset :: "('k, 'v) dictht" where
  "dictReset = \<lparr>ht_table = [], ht_size = 0, ht_sizemask = 0, ht_used = 0\<rparr>"

definition dictCreate :: "('k, 'v) dict" where
  "dictCreate = \<lparr>ht0 = dictReset, ht1 = dictReset, rehashidx = - 1, iterators = 0\<rparr>"

definition dictIsRehashing :: "('k, 'v) dict \<Rightarrow> bool" where
  "dictIsRehashing d \<longleftrightarrow> rehashidx d \<noteq> - 1"

definition dictSize :: "('k, 'v) dict \<Rightarrow> nat" where
  "dictSize d = ht_used (ht0 d) + ht_used (ht1 d)"

definition dictSlots :: "('k, 'v) dict \<Rightarrow> nat" where
  "dictSlots d = ht_size (ht0 d) + ht_size (ht1 d)"

text \<open>Access to a bucket, and to the table of a given number.\<close>

definition bucket :: "('k, 'v) dictht \<Rightarrow> nat \<Rightarrow> ('k \<times> 'v) list option" where
  "bucket t i = (if i < length (ht_table t) then Some (ht_table t ! i) else None)"

definition set_bucket :: "('k, 'v) dictht \<Rightarrow> nat \<Rightarrow> ('k \<times> 'v) list \<Rightarrow> ('k, 'v) dictht" where
  "set_bucket t i b = t\<lparr>ht_table := (ht_table t)[i := b]\<rparr>"

definition index_of :: "64 word \<Rightarrow> ('k, 'v) dictht \<Rightarrow> nat" where
  "index_of h t = unat (h AND ht_sizemask t)"

definition ht :: "('k, 'v) dict \<Rightarrow> nat \<Rightarrow> ('k, 'v) dictht" where
  "ht d t = (if t = 0 then ht0 d else ht1 d)"

definition set_ht :: "('k, 'v) dict \<Rightarrow> nat \<Rightarrow> ('k, 'v) dictht \<Rightarrow> ('k, 'v) dict" where
  "set_ht d t h = (if t = 0 then d\<lparr>ht0 := h\<rparr> else d\<lparr>ht1 := h\<rparr>)"

section \<open>Resizing\<close>

text \<open>The loop that doubles \<open>i\<close>; it starts at 4 and stays below \<open>LONG_MAX + 1\<close>.\<close>

function next_power_loop :: "nat \<Rightarrow> nat \<Rightarrow> nat" where
  "next_power_loop i sz = (if i \<ge> sz \<or> i = 0 then i else next_power_loop (i * 2) sz)"
  by pat_completeness auto
termination
  by (relation "measure (\<lambda>(i, sz). sz - i)") auto

declare next_power_loop.simps [simp del]

definition dictNextPower :: "nat \<Rightarrow> nat" where
  "dictNextPower sz =
     (if int sz \<ge> LLONG_MAX then 2 ^ 63 else next_power_loop DICT_HT_INITIAL_SIZE sz)"

text \<open>The size of the allocation, \<open>realsize * sizeof(dictEntry*)\<close>, is taken modulo \<open>2 ^ 64\<close>: the new table
  has as many buckets as were allocated. The table pointer is \<open>NULL\<close> exactly when \<open>size\<close> is 0.\<close>

definition dictExpand :: "('k, 'v) dict \<Rightarrow> nat \<Rightarrow> ('k, 'v) dict \<times> bool" where
  "dictExpand d sz =
     (if dictIsRehashing d \<or> ht_used (ht0 d) > sz then (d, False)
      else
        (let realsize = dictNextPower sz
         in if realsize = ht_size (ht0 d) then (d, False)
            else
              (let n = \<lparr>ht_table = replicate (realsize * 8 mod 2 ^ 64 div 8) [], ht_size = realsize,
                        ht_sizemask = of_nat (realsize - 1), ht_used = 0\<rparr>
               in if ht_size (ht0 d) = 0 then (d\<lparr>ht0 := n\<rparr>, True)
                  else (d\<lparr>ht1 := n, rehashidx := 0\<rparr>, True))))"

text \<open>\<open>minimal\<close> is an \<open>int\<close>.\<close>

definition dictResize :: "bool \<Rightarrow> ('k, 'v) dict \<Rightarrow> ('k, 'v) dict \<times> bool" where
  "dictResize can d =
     (if \<not> can \<or> dictIsRehashing d then (d, False)
      else
        (let minimal = s32 (int (ht_used (ht0 d)));
             minimal = (if minimal < int DICT_HT_INITIAL_SIZE then int DICT_HT_INITIAL_SIZE else minimal)
         in dictExpand d (nat minimal)))"

definition dictExpandIfNeeded :: "bool \<Rightarrow> ('k, 'v) dict \<Rightarrow> ('k, 'v) dict \<times> bool" where
  "dictExpandIfNeeded can d =
     (if dictIsRehashing d then (d, True)
      else if ht_size (ht0 d) = 0 then dictExpand d DICT_HT_INITIAL_SIZE
      else if ht_used (ht0 d) \<ge> ht_size (ht0 d) \<and>
              (can \<or> ht_used (ht0 d) div ht_size (ht0 d) > dict_force_resize_ratio)
      then dictExpand d (ht_used (ht0 d) * 2 mod 2 ^ 64)
      else (d, True))"

section \<open>Incremental rehashing\<close>

text \<open>Moving the entries of a bucket: each becomes the head of its new chain.\<close>

definition move_entry :: "('k \<Rightarrow> 64 word) \<Rightarrow> 'k \<times> 'v \<Rightarrow> ('k, 'v) dict \<Rightarrow> ('k, 'v) dict option" where
  "move_entry hash e d =
     (let h = index_of (hash (fst e)) (ht1 d)
      in do {
        b \<leftarrow> bucket (ht1 d) h;
        Some (d\<lparr>ht1 := (set_bucket (ht1 d) h (e # b))\<lparr>ht_used := ht_used (ht1 d) + 1\<rparr>,
                ht0 := (ht0 d)\<lparr>ht_used := ht_used (ht0 d) - 1\<rparr>\<rparr>) })"

primrec move_bucket :: "('k \<Rightarrow> 64 word) \<Rightarrow> ('k \<times> 'v) list \<Rightarrow> ('k, 'v) dict \<Rightarrow> ('k, 'v) dict option" where
  "move_bucket hash [] d = Some d"
| "move_bucket hash (e # es) d = do { d \<leftarrow> move_entry hash e d; move_bucket hash es d }"

text \<open>The search for a bucket in use: the new dictionary, the rest of \<open>empty_visits\<close> and
  whether the function returns because it has visited enough empty buckets.\<close>

function skip_empty :: "int \<Rightarrow> ('k, 'v) dict \<Rightarrow> (('k, 'v) dict \<times> int \<times> bool) option" where
  "skip_empty ev d =
     (if rehashidx d < 0 then None
      else do {
        b \<leftarrow> bucket (ht0 d) (nat (rehashidx d));
        if b = [] then
          (let d = d\<lparr>rehashidx := rehashidx d + 1\<rparr>; ev = ev - 1
           in if ev = 0 then Some (d, ev, True) else skip_empty ev d)
        else Some (d, ev, False) })"
  by pat_completeness auto
termination
  by (relation "measure (\<lambda>(ev, d). length (ht_table (ht0 d)) - nat (rehashidx d))")
    (auto simp: bucket_def split: if_splits)

declare skip_empty.simps [simp del]

primrec rehash_loop ::
  "('k \<Rightarrow> 64 word) \<Rightarrow> nat \<Rightarrow> int \<Rightarrow> ('k, 'v) dict \<Rightarrow> (('k, 'v) dict \<times> bool) option" where
  "rehash_loop hash 0 ev d = Some (d, False)"
| "rehash_loop hash (Suc n) ev d =
     (if ht_used (ht0 d) = 0 then Some (d, False)
      else if \<not> int (ht_size (ht0 d)) > rehashidx d mod 2 ^ 64 then None
      else do {
        (d, ev, stop) \<leftarrow> skip_empty ev d;
        if stop then Some (d, True)
        else do {
          b \<leftarrow> bucket (ht0 d) (nat (rehashidx d));
          d \<leftarrow> move_bucket hash b d;
          let d = d\<lparr>ht0 := set_bucket (ht0 d) (nat (rehashidx d)) [], rehashidx := rehashidx d + 1\<rparr>;
          rehash_loop hash n ev d } })"

text \<open>\<open>empty_visits\<close> is an \<open>int\<close>: the product must not overflow.\<close>

definition dictRehash :: "('k \<Rightarrow> 64 word) \<Rightarrow> ('k, 'v) dict \<Rightarrow> nat \<Rightarrow> (('k, 'v) dict \<times> bool) option" where
  "dictRehash hash d n =
     (if \<not> n * 10 < 2 ^ 31 then None
      else if \<not> dictIsRehashing d then Some (d, False)
      else do {
        (d, stop) \<leftarrow> rehash_loop hash n (int n * 10) d;
        if stop then Some (d, True)
        else if ht_used (ht0 d) = 0 then
          Some (d\<lparr>ht0 := ht1 d, ht1 := dictReset, rehashidx := - 1\<rparr>, False)
        else Some (d, True) })"

text \<open>\<open>clock i\<close> is the result of the \<open>i\<close>-th call of \<open>timeInMilliseconds\<close>.\<close>

partial_function (option) rehash_ms_loop ::
  "('k \<Rightarrow> 64 word) \<Rightarrow> (nat \<Rightarrow> int) \<Rightarrow> nat \<Rightarrow> int \<Rightarrow> int \<Rightarrow> ('k, 'v) dict \<Rightarrow> nat \<Rightarrow> (('k, 'v) dict \<times> nat) option" where
  "rehash_ms_loop hash clock i start ms d rehashes =
     do { (d, more) \<leftarrow> dictRehash hash d 100;
          if more then
            (let rehashes = rehashes + 100
             in if clock i - start > ms then Some (d, rehashes)
                else rehash_ms_loop hash clock (i + 1) start ms d rehashes)
          else Some (d, rehashes) }"

definition dictRehashMilliseconds ::
  "('k \<Rightarrow> 64 word) \<Rightarrow> (nat \<Rightarrow> int) \<Rightarrow> ('k, 'v) dict \<Rightarrow> int \<Rightarrow> (('k, 'v) dict \<times> nat) option" where
  "dictRehashMilliseconds hash clock d ms = rehash_ms_loop hash clock 1 (clock 0) ms d 0"

definition dictRehashStep :: "('k \<Rightarrow> 64 word) \<Rightarrow> ('k, 'v) dict \<Rightarrow> ('k, 'v) dict option" where
  "dictRehashStep hash d =
     (if iterators d = 0 then do { (d, _) \<leftarrow> dictRehash hash d 1; Some d } else Some d)"

section \<open>Lookup, insertion and deletion\<close>

fun bucket_find :: "('k \<Rightarrow> 'k \<Rightarrow> bool) \<Rightarrow> 'k \<Rightarrow> ('k \<times> 'v) list \<Rightarrow> nat option" where
  "bucket_find cmp key [] = None"
| "bucket_find cmp key (e # es) =
     (if cmp key (fst e) then Some 0 else map_option Suc (bucket_find cmp key es))"

definition find_table ::
  "('k \<Rightarrow> 'k \<Rightarrow> bool) \<Rightarrow> ('k, 'v) dict \<Rightarrow> nat \<Rightarrow> 64 word \<Rightarrow> 'k \<Rightarrow> entry_ref option option" where
  "find_table cmp d t h key =
     (let idx = index_of h (ht d t)
      in do { b \<leftarrow> bucket (ht d t) idx;
              Some (map_option (\<lambda>p. (t, idx, p)) (bucket_find cmp key b)) })"

text \<open>The loop over the two tables, which leaves the second one out unless a rehashing is
  under way.\<close>

definition find_tables ::
  "('k \<Rightarrow> 'k \<Rightarrow> bool) \<Rightarrow> ('k, 'v) dict \<Rightarrow> 64 word \<Rightarrow> 'k \<Rightarrow> entry_ref option option" where
  "find_tables cmp d h key =
     do { r \<leftarrow> find_table cmp d 0 h key;
          case r of
            Some ref \<Rightarrow> Some (Some ref)
          | None \<Rightarrow> if \<not> dictIsRehashing d then Some None else find_table cmp d 1 h key }"

definition deref :: "('k, 'v) dict \<Rightarrow> entry_ref \<Rightarrow> ('k \<times> 'v) option" where
  "deref d r =
     (let (t, i, p) = r
      in do { b \<leftarrow> bucket (ht d t) i; if p < length b then Some (b ! p) else None })"

definition dictSetVal :: "('k, 'v) dict \<Rightarrow> entry_ref \<Rightarrow> 'v \<Rightarrow> ('k, 'v) dict option" where
  "dictSetVal d r v =
     (let (t, i, p) = r
      in do { b \<leftarrow> bucket (ht d t) i;
              if p < length b then Some (set_ht d t (set_bucket (ht d t) i (b[p := (fst (b ! p), v)])))
              else None })"

definition dictFind ::
  "('k \<Rightarrow> 64 word) \<Rightarrow> ('k \<Rightarrow> 'k \<Rightarrow> bool) \<Rightarrow> ('k, 'v) dict \<Rightarrow> 'k \<Rightarrow>
     (('k, 'v) dict \<times> entry_ref option) option" where
  "dictFind hash cmp d key =
     (if ht_used (ht0 d) + ht_used (ht1 d) = 0 then Some (d, None)
      else do {
        d \<leftarrow> (if dictIsRehashing d then dictRehashStep hash d else Some d);
        r \<leftarrow> find_tables cmp d (hash key) key;
        Some (d, r) })"

definition dictFetchValue ::
  "('k \<Rightarrow> 64 word) \<Rightarrow> ('k \<Rightarrow> 'k \<Rightarrow> bool) \<Rightarrow> ('k, 'v) dict \<Rightarrow> 'k \<Rightarrow> (('k, 'v) dict \<times> 'v option) option" where
  "dictFetchValue hash cmp d key =
     do { (d, he) \<leftarrow> dictFind hash cmp d key;
          case he of
            None \<Rightarrow> Some (d, None)
          | Some r \<Rightarrow> do { e \<leftarrow> deref d r; Some (d, Some (snd e)) } }"

text \<open>The result is the index of the bucket for a new entry, or no index and the existing
  entry; no index and no entry when the table could not be expanded.\<close>

definition dictKeyIndex ::
  "bool \<Rightarrow> ('k \<Rightarrow> 'k \<Rightarrow> bool) \<Rightarrow> ('k, 'v) dict \<Rightarrow> 'k \<Rightarrow> 64 word \<Rightarrow>
     (('k, 'v) dict \<times> nat option \<times> entry_ref option) option" where
  "dictKeyIndex can cmp d key h =
     (let (d, ok) = dictExpandIfNeeded can d
      in if \<not> ok then Some (d, None, None)
         else do {
           r \<leftarrow> find_tables cmp d h key;
           case r of
             Some ref \<Rightarrow> Some (d, None, Some ref)
           | None \<Rightarrow> Some (d, Some (index_of h (ht d (if dictIsRehashing d then 1 else 0))), None) })"

text \<open>The value of the new entry is whatever the allocator left there (\<open>uninit\<close>) until the
  caller sets it.\<close>

definition dictAddRaw ::
  "bool \<Rightarrow> ('k \<Rightarrow> 64 word) \<Rightarrow> ('k \<Rightarrow> 'k \<Rightarrow> bool) \<Rightarrow> 'v \<Rightarrow> ('k, 'v) dict \<Rightarrow> 'k \<Rightarrow>
     (('k, 'v) dict \<times> entry_ref option \<times> entry_ref option) option" where
  "dictAddRaw can hash cmp uninit d key =
     do { d \<leftarrow> (if dictIsRehashing d then dictRehashStep hash d else Some d);
          (d, index, existing) \<leftarrow> dictKeyIndex can cmp d key (hash key);
          case index of
            None \<Rightarrow> Some (d, None, existing)
          | Some idx \<Rightarrow>
              (let t = (if dictIsRehashing d then 1 else 0)
               in do { b \<leftarrow> bucket (ht d t) idx;
                       Some (set_ht d t ((set_bucket (ht d t) idx ((key, uninit) # b))
                                           \<lparr>ht_used := ht_used (ht d t) + 1\<rparr>),
                             Some (t, idx, 0), None) }) }"

definition dictAdd ::
  "bool \<Rightarrow> ('k \<Rightarrow> 64 word) \<Rightarrow> ('k \<Rightarrow> 'k \<Rightarrow> bool) \<Rightarrow> 'v \<Rightarrow> ('k, 'v) dict \<Rightarrow> 'k \<Rightarrow> 'v \<Rightarrow>
     (('k, 'v) dict \<times> bool) option" where
  "dictAdd can hash cmp uninit d key val =
     do { (d, entry, _) \<leftarrow> dictAddRaw can hash cmp uninit d key;
          case entry of
            None \<Rightarrow> Some (d, False)
          | Some r \<Rightarrow> do { d \<leftarrow> dictSetVal d r val; Some (d, True) } }"

text \<open>With neither an entry nor an existing one the C code would read through \<open>NULL\<close>.\<close>

definition dictReplace ::
  "bool \<Rightarrow> ('k \<Rightarrow> 64 word) \<Rightarrow> ('k \<Rightarrow> 'k \<Rightarrow> bool) \<Rightarrow> 'v \<Rightarrow> ('k, 'v) dict \<Rightarrow> 'k \<Rightarrow> 'v \<Rightarrow>
     (('k, 'v) dict \<times> bool) option" where
  "dictReplace can hash cmp uninit d key val =
     do { (d, entry, existing) \<leftarrow> dictAddRaw can hash cmp uninit d key;
          case entry of
            Some r \<Rightarrow> do { d \<leftarrow> dictSetVal d r val; Some (d, True) }
          | None \<Rightarrow>
              (case existing of
                 None \<Rightarrow> None
               | Some r \<Rightarrow> do { d \<leftarrow> dictSetVal d r val; Some (d, False) }) }"

definition dictAddOrFind ::
  "bool \<Rightarrow> ('k \<Rightarrow> 64 word) \<Rightarrow> ('k \<Rightarrow> 'k \<Rightarrow> bool) \<Rightarrow> 'v \<Rightarrow> ('k, 'v) dict \<Rightarrow> 'k \<Rightarrow>
     (('k, 'v) dict \<times> entry_ref option) option" where
  "dictAddOrFind can hash cmp uninit d key =
     do { (d, entry, existing) \<leftarrow> dictAddRaw can hash cmp uninit d key;
          Some (d, case entry of Some r \<Rightarrow> Some r | None \<Rightarrow> existing) }"

definition unlink :: "('k, 'v) dict \<Rightarrow> entry_ref \<Rightarrow> ('k, 'v) dict option" where
  "unlink d r =
     (let (t, i, p) = r
      in do { b \<leftarrow> bucket (ht d t) i;
              Some (set_ht d t ((set_bucket (ht d t) i (take p b @ drop (p + 1) b))
                                  \<lparr>ht_used := ht_used (ht d t) - 1\<rparr>)) })"

definition dictGenericDelete ::
  "('k \<Rightarrow> 64 word) \<Rightarrow> ('k \<Rightarrow> 'k \<Rightarrow> bool) \<Rightarrow> ('k, 'v) dict \<Rightarrow> 'k \<Rightarrow>
     (('k, 'v) dict \<times> ('k \<times> 'v) option) option" where
  "dictGenericDelete hash cmp d key =
     (if ht_used (ht0 d) = 0 \<and> ht_used (ht1 d) = 0 then Some (d, None)
      else do {
        d \<leftarrow> (if dictIsRehashing d then dictRehashStep hash d else Some d);
        he \<leftarrow> find_tables cmp d (hash key) key;
        case he of
          None \<Rightarrow> Some (d, None)
        | Some r \<Rightarrow> do { e \<leftarrow> deref d r; d \<leftarrow> unlink d r; Some (d, Some e) } })"

definition dictDelete ::
  "('k \<Rightarrow> 64 word) \<Rightarrow> ('k \<Rightarrow> 'k \<Rightarrow> bool) \<Rightarrow> ('k, 'v) dict \<Rightarrow> 'k \<Rightarrow> (('k, 'v) dict \<times> bool) option" where
  "dictDelete hash cmp d key =
     do { (d, he) \<leftarrow> dictGenericDelete hash cmp d key; Some (d, he \<noteq> None) }"

definition dictUnlink ::
  "('k \<Rightarrow> 64 word) \<Rightarrow> ('k \<Rightarrow> 'k \<Rightarrow> bool) \<Rightarrow> ('k, 'v) dict \<Rightarrow> 'k \<Rightarrow>
     (('k, 'v) dict \<times> ('k \<times> 'v) option) option" where
  "dictUnlink hash cmp d key = dictGenericDelete hash cmp d key"

text \<open>The loop of \<open>_dictClear\<close> over the buckets, which stops when no entry is left.\<close>

function clear_loop :: "('k, 'v) dictht \<Rightarrow> nat \<Rightarrow> nat \<Rightarrow> nat option" where
  "clear_loop t i n =
     (if i < ht_size t \<and> n > 0 then do { b \<leftarrow> bucket t i; clear_loop t (i + 1) (n - length b) }
      else Some n)"
  by pat_completeness auto
termination
  by (relation "measure (\<lambda>(t, i, n). ht_size t - i)") auto

declare clear_loop.simps [simp del]

definition dictClear :: "('k, 'v) dictht \<Rightarrow> ('k, 'v) dictht option" where
  "dictClear t = do { _ \<leftarrow> clear_loop t 0 (ht_used t); Some dictReset }"

definition dictEmpty :: "('k, 'v) dict \<Rightarrow> ('k, 'v) dict option" where
  "dictEmpty d =
     do { t0 \<leftarrow> dictClear (ht0 d);
          t1 \<leftarrow> dictClear (ht1 d);
          Some (d\<lparr>ht0 := t0, ht1 := t1, rehashidx := - 1, iterators := 0\<rparr>) }"

section \<open>Iterators\<close>

text \<open>The entry an iterator is at and the one it returns next are the chains that start
  there; an unsafe iterator's fingerprint is left out.\<close>

record ('k, 'v) dictIterator =
  it_index :: int
  it_table :: nat
  it_safe :: bool
  it_entry :: "('k \<times> 'v) list"
  it_next :: "('k \<times> 'v) list"

definition dictGetIterator :: "('k, 'v) dictIterator" where
  "dictGetIterator = \<lparr>it_index = - 1, it_table = 0, it_safe = False, it_entry = [], it_next = []\<rparr>"

definition dictGetSafeIterator :: "('k, 'v) dictIterator" where
  "dictGetSafeIterator = dictGetIterator\<lparr>it_safe := True\<rparr>"

partial_function (option) dictNext ::
  "('k, 'v) dict \<Rightarrow> ('k, 'v) dictIterator \<Rightarrow>
     (('k, 'v) dict \<times> ('k, 'v) dictIterator \<times> ('k \<times> 'v) option) option" where
  "dictNext d it =
     (if it_entry it = [] then
        (let d = (if it_index it = - 1 \<and> it_table it = 0 \<and> it_safe it
                  then d\<lparr>iterators := iterators d + 1\<rparr> else d);
             it = it\<lparr>it_index := it_index it + 1\<rparr>;
             over = it_index it \<ge> int (ht_size (ht d (it_table it)))
         in if over \<and> \<not> (dictIsRehashing d \<and> it_table it = 0) then Some (d, it, None)
            else do {
              let it = (if over then it\<lparr>it_table := 1, it_index := 0\<rparr> else it);
              b \<leftarrow> (if it_index it < 0 then None else bucket (ht d (it_table it)) (nat (it_index it)));
              case b of
                [] \<Rightarrow> dictNext d (it\<lparr>it_entry := []\<rparr>)
              | e # nx \<Rightarrow> Some (d, it\<lparr>it_entry := b, it_next := nx\<rparr>, Some e) })
      else
        (case it_next it of
           [] \<Rightarrow> dictNext d (it\<lparr>it_entry := []\<rparr>)
         | e # nx \<Rightarrow> Some (d, it\<lparr>it_entry := it_next it, it_next := nx\<rparr>, Some e)))"

definition dictReleaseIterator :: "('k, 'v) dict \<Rightarrow> ('k, 'v) dictIterator \<Rightarrow> ('k, 'v) dict" where
  "dictReleaseIterator d it =
     (if \<not> (it_index it = - 1 \<and> it_table it = 0) \<and> it_safe it
      then d\<lparr>iterators := iterators d - 1\<rparr> else d)"

section \<open>Scanning\<close>

text \<open>Reversal of the bits of a word: swap ever smaller halves of it.\<close>

fun rev_loop :: "nat \<Rightarrow> 64 word \<Rightarrow> 64 word \<Rightarrow> 64 word" where
  "rev_loop s mk v =
     (let s = s div 2
      in if s = 0 then v
         else
           (let mk = mk XOR push_bit s mk;
                v = (drop_bit s v AND mk) OR (push_bit s v AND NOT mk)
            in rev_loop s mk v))"

declare rev_loop.simps [simp del]

definition rev64 :: "64 word \<Rightarrow> 64 word" where
  "rev64 v = rev_loop 64 (NOT 0) v"

text \<open>Setting the bits outside of the mask makes the increment of the reversed cursor carry
  into the masked ones.\<close>

definition scan_next :: "64 word \<Rightarrow> 64 word \<Rightarrow> 64 word" where
  "scan_next m v = (let v = v OR NOT m; v = rev64 v; v = v + 1 in rev64 v)"

text \<open>The loop over the expansions of the cursor in the larger table \<open>t1\<close>.\<close>

partial_function (option) scan_large ::
  "('k, 'v) dictht \<Rightarrow> 64 word \<Rightarrow> 64 word \<Rightarrow> ('k \<times> 'v) list \<Rightarrow> (64 word \<times> ('k \<times> 'v) list) option" where
  "scan_large t1 m0 v out =
     do { b \<leftarrow> bucket t1 (index_of v t1);
          let v = scan_next (ht_sizemask t1) v;
          if v AND (m0 XOR ht_sizemask t1) \<noteq> 0 then scan_large t1 m0 v (out @ b)
          else Some (v, out @ b) }"

text \<open>The callback \<open>fn\<close> is called on the entries of the second result, in this order;
  \<open>bucketfn\<close> is \<open>NULL\<close>.\<close>

definition dictScan :: "('k, 'v) dict \<Rightarrow> 64 word \<Rightarrow> (64 word \<times> ('k \<times> 'v) list) option" where
  "dictScan d v =
     (if dictSize d = 0 then Some (0, [])
      else if \<not> dictIsRehashing d then
        do { b \<leftarrow> bucket (ht0 d) (index_of v (ht0 d));
             Some (scan_next (ht_sizemask (ht0 d)) v, b) }
      else
        (let (t0, t1) = (if ht_size (ht0 d) > ht_size (ht1 d) then (ht1 d, ht0 d) else (ht0 d, ht1 d))
         in do { b \<leftarrow> bucket t0 (index_of v t0);
                 scan_large t1 (ht_sizemask t0) v b }))"

section \<open>The invariant\<close>

text \<open>\<open>ht_ok\<close>: a table has a power of two of buckets, each entry is in the bucket of its
  hash, and \<open>used\<close> counts the entries. An unused table is reset.\<close>

definition entries :: "('k, 'v) dictht \<Rightarrow> ('k \<times> 'v) list" where
  "entries t = concat (ht_table t)"

definition ht_shape :: "('k, 'v) dictht \<Rightarrow> bool" where
  "ht_shape t \<longleftrightarrow> ht_size t = length (ht_table t) \<and>
     (\<exists>k < 64. length (ht_table t) = 2 ^ k \<and> ht_sizemask t = mask k)"

definition ht_placed :: "('k \<Rightarrow> 64 word) \<Rightarrow> ('k, 'v) dictht \<Rightarrow> bool" where
  "ht_placed hash t \<longleftrightarrow>
     (\<forall>i < length (ht_table t). \<forall>e \<in> set (ht_table t ! i). index_of (hash (fst e)) t = i)"

definition ht_ok :: "('k \<Rightarrow> 64 word) \<Rightarrow> ('k, 'v) dictht \<Rightarrow> bool" where
  "ht_ok hash t \<longleftrightarrow> ht_shape t \<and> ht_placed hash t \<and> ht_used t = length (entries t)"

definition dict_entries :: "('k, 'v) dict \<Rightarrow> ('k \<times> 'v) list" where
  "dict_entries d = entries (ht0 d) @ entries (ht1 d)"

text \<open>\<open>dict_ok\<close> is about the two tables and the rehashing between them, \<open>dict_inv\<close> adds that no
  two entries have equal keys.\<close>

definition dict_ok :: "('k \<Rightarrow> 64 word) \<Rightarrow> ('k, 'v) dict \<Rightarrow> bool" where
  "dict_ok hash d \<longleftrightarrow>
     (if dictIsRehashing d then
        ht_ok hash (ht0 d) \<and> ht_ok hash (ht1 d) \<and> 0 \<le> rehashidx d \<and>
        (\<forall>i < length (ht_table (ht0 d)). int i < rehashidx d \<longrightarrow> ht_table (ht0 d) ! i = [])
      else (ht0 d = dictReset \<or> ht_ok hash (ht0 d)) \<and> ht1 d = dictReset)"

definition keys_ok :: "('k \<Rightarrow> bool) \<Rightarrow> ('k \<Rightarrow> 'k \<Rightarrow> bool) \<Rightarrow> ('k \<times> 'v) list \<Rightarrow> bool" where
  "keys_ok valid cmp es \<longleftrightarrow> (\<forall>e \<in> set es. valid (fst e)) \<and> pairwise (\<lambda>a b. \<not> cmp (fst a) (fst b)) (set es) \<and> distinct es"

definition dict_inv :: "('k \<Rightarrow> bool) \<Rightarrow> ('k \<Rightarrow> 64 word) \<Rightarrow> ('k \<Rightarrow> 'k \<Rightarrow> bool) \<Rightarrow> ('k, 'v) dict \<Rightarrow> bool" where
  "dict_inv valid hash cmp d \<longleftrightarrow> dict_ok hash d \<and> keys_ok valid cmp (dict_entries d)"

text \<open>The finite map a dictionary stands for.\<close>

definition dict_map :: "('k \<Rightarrow> 'k \<Rightarrow> bool) \<Rightarrow> ('k, 'v) dict \<Rightarrow> 'k \<Rightarrow> 'v option" where
  "dict_map cmp d key = map_option snd (find (\<lambda>e. cmp key (fst e)) (dict_entries d))"

section \<open>Tables and their entries\<close>

lemma unat_and_mask: "k < 64 \<Longrightarrow> unat (h AND mask k :: 64 word) = unat h mod 2 ^ k"
proof -
  have "unat (take_bit k h) = take_bit k (unat h)" if "k < 64" using that by (simp add: unsigned_take_bit_eq)
  then show "k < 64 \<Longrightarrow> ?thesis" by (simp add: take_bit_eq_mask [symmetric] take_bit_nat_def)
qed

lemma index_bound:
  assumes "ht_shape t"
  shows "index_of h t < length (ht_table t)"
proof -
  obtain k where "k < 64" "length (ht_table t) = 2 ^ k" "ht_sizemask t = mask k"
    using assms by (auto simp: ht_shape_def)
  then show ?thesis by (simp add: index_of_def unat_and_mask)
qed

lemma bucket_Some: "i < length (ht_table t) \<Longrightarrow> bucket t i = Some (ht_table t ! i)"
  by (simp add: bucket_def)

lemma mset_exchange:
  assumes "A + B = C + D" and "D + E = B + (F :: 'a multiset)"
  shows "A + E = C + F"
proof -
  have "(A + B) + (D + E) = (C + D) + (B + F)" using assms by simp
  then show ?thesis by (simp add: ac_simps)
qed

lemma mset_concat_update:
  assumes "i < length xs"
  shows "mset (concat (xs[i := b])) + mset (xs ! i) = mset (concat xs) + mset b"
proof -
  have "xs = take i xs @ xs ! i # drop (Suc i) xs" using assms by (rule id_take_nth_drop)
  then have "mset (concat xs) = mset (concat (take i xs)) + mset (xs ! i) + mset (concat (drop (Suc i) xs))"
    by (metis (no_types, lifting) concat.simps(2) concat_append mset_append union_assoc)
  then show ?thesis using assms by (simp add: upd_conv_take_nth_drop)
qed

lemma entries_set_bucket:
  "i < length (ht_table t) \<Longrightarrow>
   mset (entries (set_bucket t i b)) + mset (ht_table t ! i) = mset (entries t) + mset b"
  by (simp add: entries_def set_bucket_def mset_concat_update)

lemma entries_used [simp]: "entries (t\<lparr>ht_used := n\<rparr>) = entries t"
  by (simp add: entries_def)

lemma set_bucket_simps [simp]:
  "ht_size (set_bucket t i b) = ht_size t" "ht_sizemask (set_bucket t i b) = ht_sizemask t"
  "ht_used (set_bucket t i b) = ht_used t" "length (ht_table (set_bucket t i b)) = length (ht_table t)"
  "ht_table (set_bucket t i b) = (ht_table t)[i := b]"
  by (simp_all add: set_bucket_def)

lemma index_of_cong: "ht_sizemask t = ht_sizemask t' \<Longrightarrow> index_of h t = index_of h t'"
  by (simp add: index_of_def)

lemma ht_shape_cong:
  "ht_size t = ht_size t' \<Longrightarrow> length (ht_table t) = length (ht_table t') \<Longrightarrow>
   ht_sizemask t = ht_sizemask t' \<Longrightarrow> ht_shape t \<longleftrightarrow> ht_shape t'"
  by (simp add: ht_shape_def)

lemma ht_shape_simps [simp]:
  "ht_shape (t\<lparr>ht_used := n\<rparr>) = ht_shape t" "ht_shape (set_bucket t i b) = ht_shape t"
  by (simp_all add: ht_shape_def)

lemma ht_placed_used [simp]: "ht_placed hash (t\<lparr>ht_used := n\<rparr>) = ht_placed hash t"
  by (simp add: ht_placed_def index_of_def)

lemma ht_placed_set_bucket:
  assumes "ht_placed hash t" and "\<forall>e \<in> set b. index_of (hash (fst e)) t = i"
  shows "ht_placed hash (set_bucket t i b)"
proof -
  have "index_of (hash (fst e)) t = j" if "j < length (ht_table t)" "e \<in> set ((ht_table t)[i := b] ! j)" for j e
    using that assms by (cases "i = j") (auto simp: ht_placed_def)
  then show ?thesis by (auto simp: ht_placed_def index_of_def)
qed

text \<open>Replacing a bucket by one with other entries of the same index.\<close>

lemma ht_ok_set_bucket:
  assumes "ht_ok hash t" and "i < length (ht_table t)" and "\<forall>e \<in> set b. index_of (hash (fst e)) t = i"
    and "int n = int (ht_used t) + int (length b) - int (length (ht_table t ! i))"
  shows "ht_ok hash ((set_bucket t i b)\<lparr>ht_used := n\<rparr>)"
proof -
  have "size (mset (entries (set_bucket t i b)) + mset (ht_table t ! i)) = size (mset (entries t) + mset b)"
    using entries_set_bucket [OF assms(2)] by simp
  then have "length (entries (set_bucket t i b)) + length (ht_table t ! i) = length (entries t) + length b"
    by (simp only: size_union size_mset)
  then show ?thesis
    using assms by (auto simp: ht_ok_def ht_placed_set_bucket)
qed

lemma entries_bucket:
  assumes "ht_placed hash t" and "e \<in> set (entries t)"
  shows "index_of (hash (fst e)) t < length (ht_table t)"
    and "e \<in> set (ht_table t ! index_of (hash (fst e)) t)"
proof -
  obtain i where "i < length (ht_table t)" "e \<in> set (ht_table t ! i)"
    using assms(2) by (auto simp: entries_def) (metis in_set_conv_nth)
  moreover from this have "index_of (hash (fst e)) t = i" using assms(1) by (simp add: ht_placed_def)
  ultimately show "index_of (hash (fst e)) t < length (ht_table t)"
    and "e \<in> set (ht_table t ! index_of (hash (fst e)) t)" by auto
qed

lemma entries_reset [simp]: "entries dictReset = []" "ht_used dictReset = 0" "ht_table dictReset = []"
  "ht_size dictReset = 0" "ht_sizemask dictReset = 0"
  by (simp_all add: dictReset_def entries_def)

section \<open>Rehashing keeps the entries\<close>

text \<open>\<open>moved hash d d' es\<close>: the entries \<open>es\<close> have been added to the second table of \<open>d\<close> and
  taken off the count of the first.\<close>

lemma move_entry_correct:
  assumes "ht_ok hash (ht1 d)"
  obtains d' where "move_entry hash e d = Some d'" and "ht_ok hash (ht1 d')"
    and "mset (entries (ht1 d')) = add_mset e (mset (entries (ht1 d)))"
    and "ht0 d' = (ht0 d)\<lparr>ht_used := ht_used (ht0 d) - 1\<rparr>"
    and "rehashidx d' = rehashidx d" and "iterators d' = iterators d"
    and "length (ht_table (ht1 d')) = length (ht_table (ht1 d))"
proof -
  define t i b where "t = ht1 d" and "i = index_of (hash (fst e)) t" and "b = ht_table t ! i"
  have t: "ht_ok hash t" using assms by (simp add: t_def)
  have i: "i < length (ht_table t)" using t index_bound by (auto simp: i_def ht_ok_def)
  have pl: "\<forall>e \<in> set b. index_of (hash (fst e)) t = i" using t i by (auto simp: ht_ok_def ht_placed_def b_def)
  define t' where "t' = (set_bucket t i (e # b))\<lparr>ht_used := ht_used t + 1\<rparr>"
  have "ht_ok hash t'"
    unfolding t'_def by (rule ht_ok_set_bucket [OF t i]) (use pl in \<open>auto simp: i_def b_def\<close>)
  moreover have "mset (entries t') = add_mset e (mset (entries t))"
    using entries_set_bucket [OF i, of "e # b"] by (simp add: t'_def b_def)
  moreover have "move_entry hash e d =
      Some (d\<lparr>ht1 := t', ht0 := (ht0 d)\<lparr>ht_used := ht_used (ht0 d) - 1\<rparr>\<rparr>)"
    using bucket_Some [OF i]
    by (simp add: move_entry_def Let_def t'_def b_def flip: t_def i_def)
  ultimately show ?thesis using that by (simp add: t'_def t_def)
qed

lemma move_bucket_correct:
  assumes "ht_ok hash (ht1 d)" and "length es \<le> ht_used (ht0 d)"
  shows "\<exists>d'. move_bucket hash es d = Some d' \<and> ht_ok hash (ht1 d') \<and>
    mset (entries (ht1 d')) = mset es + mset (entries (ht1 d)) \<and>
    ht0 d' = (ht0 d)\<lparr>ht_used := ht_used (ht0 d) - length es\<rparr> \<and>
    rehashidx d' = rehashidx d \<and> iterators d' = iterators d"
  using assms
proof (induction es arbitrary: d)
  case Nil
  then show ?case by simp
next
  case (Cons e es)
  obtain d1 where d1: "move_entry hash e d = Some d1" "ht_ok hash (ht1 d1)"
    "mset (entries (ht1 d1)) = add_mset e (mset (entries (ht1 d)))"
    "ht0 d1 = (ht0 d)\<lparr>ht_used := ht_used (ht0 d) - 1\<rparr>"
    "rehashidx d1 = rehashidx d" "iterators d1 = iterators d"
    using move_entry_correct [OF Cons.prems(1)] by blast
  then show ?case using Cons.IH [of d1] Cons.prems(2) by auto
qed

text \<open>During a rehash the next non-empty bucket of the first table lies at or after \<open>rehashidx\<close>.\<close>

definition rehash_inv :: "('k \<Rightarrow> 64 word) \<Rightarrow> ('k, 'v) dict \<Rightarrow> bool" where
  "rehash_inv hash d \<longleftrightarrow> ht_ok hash (ht0 d) \<and> ht_ok hash (ht1 d) \<and> 0 \<le> rehashidx d \<and>
     (\<forall>i < length (ht_table (ht0 d)). int i < rehashidx d \<longrightarrow> ht_table (ht0 d) ! i = [])"

lemma dict_ok_rehashing: "dictIsRehashing d \<Longrightarrow> dict_ok hash d \<longleftrightarrow> rehash_inv hash d"
  by (simp add: dict_ok_def rehash_inv_def)

lemma rehash_inv_rehashing: "rehash_inv hash d \<Longrightarrow> dictIsRehashing d"
  by (auto simp: rehash_inv_def dictIsRehashing_def)

lemma rehash_inv_bucket:
  assumes "rehash_inv hash d" and "ht_used (ht0 d) \<noteq> 0"
  obtains i where "i < length (ht_table (ht0 d))" and "rehashidx d \<le> int i" and "ht_table (ht0 d) ! i \<noteq> []"
proof -
  have "entries (ht0 d) \<noteq> []" using assms by (auto simp: rehash_inv_def ht_ok_def)
  then obtain b where "b \<in> set (ht_table (ht0 d))" "b \<noteq> []" by (auto simp: entries_def)
  then obtain i where i: "i < length (ht_table (ht0 d))" "ht_table (ht0 d) ! i \<noteq> []"
    by (metis in_set_conv_nth)
  then have "rehashidx d \<le> int i" using assms(1) by (force simp: rehash_inv_def)
  then show ?thesis using i that by blast
qed

lemma ht_shape_length: "ht_shape t \<Longrightarrow> length (ht_table t) \<le> 2 ^ 63"
proof -
  have "(2::nat) ^ k \<le> 2 ^ 63" if "k < 64" for k using that by (intro power_increasing) auto
  then show "ht_shape t \<Longrightarrow> ?thesis" unfolding ht_shape_def by metis
qed

text \<open>\<open>skip_empty\<close> only advances \<open>rehashidx\<close>, spends one of the \<open>ev\<close> empty visits per bucket it
  skips, and stops at a non-empty bucket unless the visits are used up.\<close>

lemma skip_empty_correct:
  assumes "rehash_inv hash d" and "ht_used (ht0 d) \<noteq> 0"
  shows "\<exists>r ev' stop. skip_empty ev d = Some (d\<lparr>rehashidx := r\<rparr>, ev', stop) \<and>
    rehashidx d \<le> r \<and> r < int (length (ht_table (ht0 d))) \<and> rehash_inv hash (d\<lparr>rehashidx := r\<rparr>) \<and>
    ev - ev' = r - rehashidx d \<and> (stop \<longrightarrow> ev' = 0 \<and> r > rehashidx d) \<and> (\<not> stop \<longrightarrow> ht_table (ht0 d) ! nat r \<noteq> [])"
  using assms
proof (induction ev d rule: skip_empty.induct)
  case (1 ev d)
  obtain i where i: "i < length (ht_table (ht0 d))" "rehashidx d \<le> int i" "ht_table (ht0 d) ! i \<noteq> []"
    using rehash_inv_bucket [OF 1(2,3)] by blast
  define r where "r = rehashidx d"
  have r0: "0 \<le> r" using 1(2) by (simp add: rehash_inv_def r_def)
  have rl: "nat r < length (ht_table (ht0 d))" using i r0 by (simp add: r_def)
  note b = bucket_Some [OF rl]
  show ?case
  proof (cases "ht_table (ht0 d) ! nat r = []")
    case False
    then have "skip_empty ev d = Some (d, ev, False)"
      using b r0 by (simp add: skip_empty.simps [of ev d] r_def)
    then show ?thesis using False rl r0 1(2)
      by (intro exI [of _ r] exI [of _ ev] exI [of _ False]) (simp add: r_def)
  next
    case True
    define d1 where "d1 = d\<lparr>rehashidx := r + 1\<rparr>"
    have "r \<noteq> int i" using True i(3) by auto
    then have lt: "r + 1 \<le> int i" using i(2) by (simp add: r_def)
    have "ht_table (ht0 d) ! j = []" if "j < length (ht_table (ht0 d))" "int j < r + 1" for j
      using that True 1(2) r0 by (cases "j = nat r") (auto simp: rehash_inv_def r_def)
    then have inv1: "rehash_inv hash d1" using 1(2) by (auto simp: rehash_inv_def d1_def r_def)
    have step: "skip_empty ev d = (if ev - 1 = 0 then Some (d1, 0, True) else skip_empty (ev - 1) d1)"
      using b r0 True by (simp add: skip_empty.simps [of ev d] Let_def d1_def r_def)
    show ?thesis
    proof (cases "ev - 1 = 0")
      case True
      then show ?thesis using step inv1 lt i(1)
        by (intro exI [of _ "r + 1"] exI [of _ 0] exI [of _ True]) (simp add: d1_def r_def)
    next
      case False
      have "\<not> rehashidx d < 0" "ht_used (ht0 d1) \<noteq> 0" using r0 1(3) by (simp_all add: d1_def r_def)
      note 1(1) [OF this(1) b [unfolded r_def] True [unfolded r_def] d1_def [unfolded r_def] refl False inv1 this(2)]
      then obtain r' ev' stop where "skip_empty (ev - 1) d1 = Some (d1\<lparr>rehashidx := r'\<rparr>, ev', stop)"
        "rehashidx d1 \<le> r'" "r' < int (length (ht_table (ht0 d1)))" "rehash_inv hash (d1\<lparr>rehashidx := r'\<rparr>)"
        "(ev - 1) - ev' = r' - rehashidx d1" "stop \<longrightarrow> ev' = 0 \<and> r' > rehashidx d1"
        "\<not> stop \<longrightarrow> ht_table (ht0 d1) ! nat r' \<noteq> []" by blast
      note rec = this
      have d1: "d1\<lparr>rehashidx := r'\<rparr> = d\<lparr>rehashidx := r'\<rparr>" "ht0 d1 = ht0 d" "rehashidx d1 = rehashidx d + 1"
        by (simp_all add: d1_def r_def)
      have "rehashidx d \<le> r'" "ev - ev' = r' - rehashidx d" "stop \<longrightarrow> ev' = 0 \<and> r' > rehashidx d"
        using rec(2,5,6) unfolding d1 by linarith+
      then show ?thesis using rec(1,3,4,7) unfolding step if_not_P [OF False] d1 by blast
    qed
  qed
qed

text \<open>Moving the bucket at \<open>rehashidx\<close>.\<close>

lemma rehash_bucket:
  assumes inv: "rehash_inv hash d" and r: "rehashidx d < int (length (ht_table (ht0 d)))"
  obtains b d1 d2 where "bucket (ht0 d) (nat (rehashidx d)) = Some b" and "move_bucket hash b d = Some d1"
    and "d2 = d1\<lparr>ht0 := set_bucket (ht0 d1) (nat (rehashidx d1)) [], rehashidx := rehashidx d1 + 1\<rparr>"
    and "rehash_inv hash d2" and "mset (dict_entries d2) = mset (dict_entries d)"
    and "iterators d2 = iterators d" and "rehashidx d2 = rehashidx d + 1"
    and "length (ht_table (ht0 d2)) = length (ht_table (ht0 d))"
proof -
  define i b where "i = nat (rehashidx d)" and "b = ht_table (ht0 d) ! i"
  have ok: "ht_ok hash (ht0 d)" "ht_ok hash (ht1 d)" and r0: "0 \<le> rehashidx d"
    using inv by (simp_all add: rehash_inv_def)
  have i: "i < length (ht_table (ht0 d))" using r r0 by (simp add: i_def)
  have sum: "mset (entries (set_bucket (ht0 d) i [])) + mset b = mset (entries (ht0 d))"
    using entries_set_bucket [OF i, of "[]"] by (simp add: b_def)
  then have "length (entries (set_bucket (ht0 d) i [])) + length b = length (entries (ht0 d))"
    by (metis size_mset size_union)
  then have lb: "length b \<le> ht_used (ht0 d)" using ok(1) by (simp add: ht_ok_def)
  obtain d1 where d1: "move_bucket hash b d = Some d1" "ht_ok hash (ht1 d1)"
    "mset (entries (ht1 d1)) = mset b + mset (entries (ht1 d))"
    "ht0 d1 = (ht0 d)\<lparr>ht_used := ht_used (ht0 d) - length b\<rparr>" "rehashidx d1 = rehashidx d" "iterators d1 = iterators d"
    using move_bucket_correct [OF ok(2) lb] by blast
  define t where "t = (set_bucket (ht0 d) i [])\<lparr>ht_used := ht_used (ht0 d) - length b\<rparr>"
  define d2 where "d2 = d1\<lparr>ht0 := t, rehashidx := rehashidx d + 1\<rparr>"
  have t: "ht_ok hash t" unfolding t_def using ok(1) i lb by (intro ht_ok_set_bucket) (simp_all add: b_def)
  have "ht_table (ht0 d2) ! j = []" if "j < length (ht_table (ht0 d2))" "int j < rehashidx d2" for j
    using that inv r0 by (cases "j = i") (auto simp: rehash_inv_def d2_def t_def i_def)
  then have "rehash_inv hash d2" using t d1(2) r0 by (simp add: rehash_inv_def d2_def)
  moreover have "mset (dict_entries d2) = mset (dict_entries d)"
    using sum d1(3) by (simp add: dict_entries_def d2_def t_def)
  moreover have "d2 = d1\<lparr>ht0 := set_bucket (ht0 d1) (nat (rehashidx d1)) [], rehashidx := rehashidx d1 + 1\<rparr>"
    by (simp add: d2_def t_def d1(4,5) i_def set_bucket_def)
  moreover have "bucket (ht0 d) (nat (rehashidx d)) = Some b" using bucket_Some [OF i] by (simp add: b_def i_def)
  moreover have "iterators d2 = iterators d" "rehashidx d2 = rehashidx d + 1"
    "length (ht_table (ht0 d2)) = length (ht_table (ht0 d))" by (simp_all add: d2_def t_def d1(6))
  ultimately show ?thesis using that d1(1) by blast
qed

lemma rehash_inv_idx:
  assumes "rehash_inv hash d" and "ht_used (ht0 d) \<noteq> 0"
  shows "int (ht_size (ht0 d)) > rehashidx d mod 2 ^ 64"
proof -
  obtain i where "i < length (ht_table (ht0 d))" "rehashidx d \<le> int i"
    using rehash_inv_bucket [OF assms] by blast
  moreover have "length (ht_table (ht0 d)) \<le> 2 ^ 63" "ht_size (ht0 d) = length (ht_table (ht0 d))"
    using assms(1) ht_shape_length by (auto simp: rehash_inv_def ht_ok_def ht_shape_def)
  moreover have "0 \<le> rehashidx d" using assms(1) by (simp add: rehash_inv_def)
  ultimately have "rehashidx d mod 2 ^ 64 = rehashidx d" "rehashidx d < int (ht_size (ht0 d))"
    by (auto intro!: mod_pos_pos_trivial)
  then show ?thesis by linarith
qed

text \<open>The loop of \<open>dictRehash\<close> keeps the entries, makes progress unless there is nothing to move,
  and empties the first table when it may visit as many buckets as that has.\<close>

lemma rehash_loop_correct:
  assumes "rehash_inv hash d"
  shows "\<exists>d' stop. rehash_loop hash n ev d = Some (d', stop) \<and> rehash_inv hash d' \<and>
    mset (dict_entries d') = mset (dict_entries d) \<and> iterators d' = iterators d \<and>
    length (ht_table (ht0 d')) = length (ht_table (ht0 d)) \<and> rehashidx d \<le> rehashidx d' \<and>
    (0 < n \<and> ht_used (ht0 d) \<noteq> 0 \<longrightarrow> rehashidx d < rehashidx d') \<and>
    (int (length (ht_table (ht0 d))) - rehashidx d \<le> int n \<and> int (length (ht_table (ht0 d))) - rehashidx d < ev \<longrightarrow>
       \<not> stop \<and> ht_used (ht0 d') = 0)"
  using assms
proof (induction n arbitrary: ev d)
  case 0
  then show ?case using rehash_inv_bucket [OF 0] by (cases "ht_used (ht0 d) = 0") force+
next
  case (Suc n)
  show ?case
  proof (cases "ht_used (ht0 d) = 0")
    case True
    then show ?thesis using Suc.prems by (intro exI [of _ d] exI [of _ False]) simp
  next
    case False
    let ?L = "int (length (ht_table (ht0 d)))"
    obtain r ev' stop where sk: "skip_empty ev d = Some (d\<lparr>rehashidx := r\<rparr>, ev', stop)" "rehashidx d \<le> r" "r < ?L"
      "rehash_inv hash (d\<lparr>rehashidx := r\<rparr>)" "ev - ev' = r - rehashidx d" "stop \<longrightarrow> ev' = 0 \<and> r > rehashidx d"
      using skip_empty_correct [OF Suc.prems False] by blast
    note idx = rehash_inv_idx [OF Suc.prems False]
    show ?thesis
    proof (cases stop)
      case True
      have "rehash_loop hash (Suc n) ev d = Some (d\<lparr>rehashidx := r\<rparr>, True)"
        using False idx sk(1) True by simp
      then show ?thesis using sk(3-6) True
        by (intro exI [of _ "d\<lparr>rehashidx := r\<rparr>"] exI [of _ True]) (simp add: dict_entries_def del: rehash_loop.simps)
    next
      case nstop: False
      define d0 where "d0 = d\<lparr>rehashidx := r\<rparr>"
      have d0: "rehash_inv hash d0" "rehashidx d0 < int (length (ht_table (ht0 d0)))"
        using sk(3,4) by (simp_all add: d0_def)
      obtain b d1 d2 where b: "bucket (ht0 d0) (nat (rehashidx d0)) = Some b" "move_bucket hash b d0 = Some d1"
        "d2 = d1\<lparr>ht0 := set_bucket (ht0 d1) (nat (rehashidx d1)) [], rehashidx := rehashidx d1 + 1\<rparr>"
        "rehash_inv hash d2" "mset (dict_entries d2) = mset (dict_entries d0)"
        "iterators d2 = iterators d0" "rehashidx d2 = rehashidx d0 + 1"
        "length (ht_table (ht0 d2)) = length (ht_table (ht0 d0))" using rehash_bucket [OF d0] by blast
      have step: "rehash_loop hash (Suc n) ev d = rehash_loop hash n ev' d2"
        using False idx sk(1) nstop b(1,2) by (simp add: b(3) flip: d0_def)
      obtain d' stop' where rec: "rehash_loop hash n ev' d2 = Some (d', stop')" "rehash_inv hash d'"
        "mset (dict_entries d') = mset (dict_entries d2)" "iterators d' = iterators d2"
        "length (ht_table (ht0 d')) = length (ht_table (ht0 d2))" "rehashidx d2 \<le> rehashidx d'"
        "int (length (ht_table (ht0 d2))) - rehashidx d2 \<le> int n \<and> int (length (ht_table (ht0 d2))) - rehashidx d2 < ev' \<longrightarrow>
         \<not> stop' \<and> ht_used (ht0 d') = 0" using Suc.IH [OF b(4), of ev'] by blast
      have "dict_entries d0 = dict_entries d" "iterators d0 = iterators d" "ht0 d0 = ht0 d" "rehashidx d0 = r"
        by (simp_all add: d0_def dict_entries_def)
      note eqs = this b(5-8)
      have "rehashidx d < rehashidx d'" using rec(6) sk(2) unfolding eqs by linarith
      moreover have "?L - rehashidx d \<le> int (Suc n) \<and> ?L - rehashidx d < ev \<longrightarrow> \<not> stop' \<and> ht_used (ht0 d') = 0"
        using rec(7) sk(2,5) unfolding eqs by linarith
      ultimately show ?thesis
        using rec(1-5) unfolding step eqs by (intro exI [of _ d'] exI [of _ stop']) simp
    qed
  qed
qed

text \<open>What every step of rehashing promises: the result is well formed and has the same entries.\<close>

definition same_entries :: "('k \<Rightarrow> 64 word) \<Rightarrow> ('k, 'v) dict \<Rightarrow> ('k, 'v) dict \<Rightarrow> bool" where
  "same_entries hash d d' \<longleftrightarrow>
     dict_ok hash d' \<and> mset (dict_entries d') = mset (dict_entries d) \<and> iterators d' = iterators d"

lemma same_entries_refl: "dict_ok hash d \<Longrightarrow> same_entries hash d d"
  by (simp add: same_entries_def)

lemma same_entries_trans: "same_entries hash d e \<Longrightarrow> same_entries hash e f \<Longrightarrow> same_entries hash d f"
  by (simp add: same_entries_def)

lemma ht_ok_empty: "ht_ok hash t \<Longrightarrow> ht_used t = 0 \<Longrightarrow> entries t = []"
  by (simp add: ht_ok_def)

lemma rehash_done:
  assumes "rehash_inv hash d" and "ht_used (ht0 d) = 0"
  shows "same_entries hash d (d\<lparr>ht0 := ht1 d, ht1 := dictReset, rehashidx := - 1\<rparr>)"
  using assms ht_ok_empty [of hash "ht0 d"]
  by (simp add: same_entries_def dict_ok_def dictIsRehashing_def dict_entries_def rehash_inv_def)

lemma dictRehash_correct:
  assumes "dict_ok hash d" and n: "n * 10 < 2 ^ 31"
  obtains d' more where "dictRehash hash d n = Some (d', more)" and "same_entries hash d d'"
    and "more \<longleftrightarrow> dictIsRehashing d'"
    and "more \<Longrightarrow> 0 < n \<Longrightarrow> rehashidx d < rehashidx d' \<and> rehashidx d < int (length (ht_table (ht0 d))) \<and>
           length (ht_table (ht0 d')) = length (ht_table (ht0 d))"
    and "0 < n \<Longrightarrow> int (length (ht_table (ht0 d))) - rehashidx d \<le> int n \<Longrightarrow> \<not> more"
proof (cases "dictIsRehashing d")
  case False
  then show ?thesis using assms that [of d False] by (simp add: dictRehash_def same_entries_refl)
next
  case True
  then have inv: "rehash_inv hash d" using assms by (simp add: dict_ok_rehashing)
  let ?L = "int (length (ht_table (ht0 d)))"
  obtain d1 stop where d1: "rehash_loop hash n (int n * 10) d = Some (d1, stop)" "rehash_inv hash d1"
    "mset (dict_entries d1) = mset (dict_entries d)" "iterators d1 = iterators d"
    "length (ht_table (ht0 d1)) = length (ht_table (ht0 d))"
    "0 < n \<and> ht_used (ht0 d) \<noteq> 0 \<longrightarrow> rehashidx d < rehashidx d1"
    "?L - rehashidx d \<le> int n \<and> ?L - rehashidx d < int n * 10 \<longrightarrow> \<not> stop \<and> ht_used (ht0 d1) = 0"
    using rehash_loop_correct [OF inv, of n "int n * 10"] by blast
  have re: "dictIsRehashing d1" using d1(2) by (rule rehash_inv_rehashing)
  have same: "same_entries hash d d1"
    using d1(2-4) re by (simp add: same_entries_def dict_ok_rehashing)
  consider "\<not> stop" "ht_used (ht0 d1) = 0" | "stop \<or> ht_used (ht0 d1) \<noteq> 0" by blast
  then show ?thesis
  proof cases
    case 1
    define d2 where "d2 = d1\<lparr>ht0 := ht1 d1, ht1 := dictReset, rehashidx := - 1\<rparr>"
    have "dictRehash hash d n = Some (d2, False)" using True 1 d1(1) n by (simp add: dictRehash_def d2_def)
    moreover have "same_entries hash d d2"
      unfolding d2_def by (rule same_entries_trans [OF same rehash_done [OF d1(2) 1(2)]])
    moreover have "\<not> dictIsRehashing d2" by (simp add: d2_def dictIsRehashing_def)
    ultimately show ?thesis using that [of d2 False] by blast
  next
    case 2
    have res: "dictRehash hash d n = Some (d1, True)" using True 2 d1(1) n by (auto simp: dictRehash_def)
    have nz: "ht_used (ht0 d) \<noteq> 0" if "0 < n"
    proof
      assume "ht_used (ht0 d) = 0"
      then have "rehash_loop hash n (int n * 10) d = Some (d, False)" by (cases n) auto
      then show False using 2 d1(1) \<open>ht_used (ht0 d) = 0\<close> by simp
    qed
    have lt: "rehashidx d < ?L" if "0 < n"
      using rehash_inv_bucket [OF inv nz [OF that]] by (metis of_nat_less_iff order_le_less_trans)
    have fin: "\<not> ?L - rehashidx d \<le> int n" if "0 < n" using d1(7) 2 that by linarith
    show ?thesis
    proof (rule that [OF res same])
      show "True \<longleftrightarrow> dictIsRehashing d1" using re by simp
    qed (use nz lt fin d1(5,6) in auto)
  qed
qed

lemma dictRehashStep_correct:
  assumes "dict_ok hash d"
  obtains d' where "dictRehashStep hash d = Some d'" and "same_entries hash d d'"
proof (cases "iterators d = 0")
  case True
  obtain d' more where "dictRehash hash d 1 = Some (d', more)" "same_entries hash d d'"
    by (rule dictRehash_correct [OF assms, of 1]) auto
  then show ?thesis using True that by (simp add: dictRehashStep_def)
next
  case False
  then show ?thesis using that same_entries_refl [OF assms] by (simp add: dictRehashStep_def)
qed

text \<open>\<open>dictRehashMilliseconds\<close> returns whatever the clock says, because every round moves
  \<open>rehashidx\<close> on.\<close>

lemma rehash_ms_loop_correct:
  assumes "dict_ok hash d"
  shows "\<exists>d' n. rehash_ms_loop hash clock i start ms d rehashes = Some (d', n) \<and> same_entries hash d d'"
  using assms
proof (induction "nat (int (length (ht_table (ht0 d))) - rehashidx d)" arbitrary: d i rehashes rule: less_induct)
  case less
  obtain d1 more where d1: "dictRehash hash d 100 = Some (d1, more)" "same_entries hash d d1"
    "more \<Longrightarrow> rehashidx d < rehashidx d1 \<and> rehashidx d < int (length (ht_table (ht0 d))) \<and>
       length (ht_table (ht0 d1)) = length (ht_table (ht0 d))"
    by (rule dictRehash_correct [OF less.prems, of 100]) auto
  show ?case
  proof (cases "more \<and> \<not> clock i - start > ms")
    case False
    then show ?thesis using d1(1,2) by (subst rehash_ms_loop.simps) auto
  next
    case True
    have "dict_ok hash d1" using d1(2) by (simp add: same_entries_def)
    moreover have "nat (int (length (ht_table (ht0 d1))) - rehashidx d1) < nat (int (length (ht_table (ht0 d))) - rehashidx d)"
      using d1(3) True by auto
    ultimately obtain d' n where "rehash_ms_loop hash clock (i + 1) start ms d1 (rehashes + 100) = Some (d', n)"
      "same_entries hash d1 d'" using less.hyps [of d1 "i + 1" "rehashes + 100"] by blast
    then show ?thesis using d1(1,2) True
      by (subst rehash_ms_loop.simps) (auto simp: Let_def intro: same_entries_trans)
  qed
qed

section \<open>Resizing keeps the entries\<close>

lemma next_power_loop_correct:
  assumes "i = 2 ^ k" and "sz \<le> 2 ^ n" and "k \<le> n"
  shows "\<exists>j \<le> n. next_power_loop i sz = 2 ^ j \<and> k \<le> j \<and> sz \<le> 2 ^ j"
  using assms
proof (induction i sz arbitrary: k rule: next_power_loop.induct)
  case (1 i sz)
  show ?case
  proof (cases "i \<ge> sz")
    case True
    then show ?thesis using 1(2,4) by (subst next_power_loop.simps) auto
  next
    case False
    have "(2::nat) ^ k < 2 ^ n" using False 1(2,3) by linarith
    then have "k < n" by (rule power_less_imp_less_exp [rotated]) simp
    moreover have "i \<noteq> 0" using 1(2) by simp
    ultimately obtain j where "j \<le> n" "next_power_loop (i * 2) sz = 2 ^ j" "Suc k \<le> j" "sz \<le> 2 ^ j"
      using 1(1) [of "Suc k"] False 1(2,3) by auto
    then show ?thesis using False \<open>i \<noteq> 0\<close>
      by (subst next_power_loop.simps) (auto intro!: exI [of _ j])
  qed
qed

lemma dictNextPower_correct:
  assumes "sz \<le> 2 ^ n" and "2 \<le> n" and "n \<le> 62"
  obtains j where "2 \<le> j" and "j \<le> n" and "dictNextPower sz = 2 ^ j" and "sz \<le> 2 ^ j"
proof -
  have "(2 :: nat) ^ n \<le> 2 ^ 62" using assms(3) by (intro power_increasing) simp_all
  then have "\<not> int sz \<ge> LLONG_MAX" using assms(1) by (simp add: LLONG_MAX_def)
  then show ?thesis using next_power_loop_correct [of DICT_HT_INITIAL_SIZE 2 sz n] assms that
    by (auto simp: dictNextPower_def DICT_HT_INITIAL_SIZE_def)
qed

lemma new_table_ok:
  assumes "j < 64"
  shows "ht_ok hash \<lparr>ht_table = replicate (2 ^ j) [], ht_size = 2 ^ j, ht_sizemask = of_nat (2 ^ j - 1), ht_used = 0\<rparr>"
proof -
  have "(of_nat (2 ^ j - 1) :: 64 word) = mask j" by (simp add: mask_eq_exp_minus_1 of_nat_diff)
  then show ?thesis using assms
    by (auto simp: ht_ok_def ht_shape_def ht_placed_def entries_def)
qed

lemma dict_ok_ht0:
  assumes "dict_ok hash d" and "\<not> dictIsRehashing d"
  shows "ht0 d = dictReset \<or> ht_ok hash (ht0 d)" and "ht1 d = dictReset"
    and "ht_table (ht0 d) = [] \<longleftrightarrow> ht0 d = dictReset" and "ht_size (ht0 d) = 0 \<longleftrightarrow> ht0 d = dictReset"
    and "ht0 d = dictReset \<Longrightarrow> dict_entries d = []" and "dict_entries d = entries (ht0 d)"
    and "ht_used (ht0 d) = length (entries (ht0 d))"
  using assms by (auto simp: dict_ok_def ht_ok_def ht_shape_def dict_entries_def)

text \<open>\<open>dictExpand\<close> succeeds exactly when it may: no rehashing under way, room for the entries
  and a new size that differs from the current one.\<close>

lemma dictExpand_correct:
  assumes ok: "dict_ok hash d" and sz: "sz \<le> 2 ^ 60"
  shows "same_entries hash d (fst (dictExpand d sz))"
    and "snd (dictExpand d sz) \<longleftrightarrow>
      \<not> dictIsRehashing d \<and> ht_used (ht0 d) \<le> sz \<and> dictNextPower sz \<noteq> ht_size (ht0 d)"
    and "\<not> snd (dictExpand d sz) \<Longrightarrow> fst (dictExpand d sz) = d"
    and "snd (dictExpand d sz) \<Longrightarrow> dictSlots (fst (dictExpand d sz)) = ht_size (ht0 d) + dictNextPower sz"
proof -
  obtain j where j: "2 \<le> j" "j \<le> 60" "dictNextPower sz = 2 ^ j" using dictNextPower_correct [OF sz] by auto
  define n where "n = (\<lparr>ht_table = replicate (2 ^ j) [], ht_size = 2 ^ j, ht_sizemask = of_nat (2 ^ j - 1), ht_used = 0\<rparr>
    :: ('a, 'b) dictht)"
  have n: "ht_ok hash n" "entries n = []" "ht_size n = 2 ^ j"
    using new_table_ok [of j hash] j(2) by (simp_all add: n_def entries_def)
  define go where "go \<longleftrightarrow> \<not> dictIsRehashing d \<and> ht_used (ht0 d) \<le> sz \<and> dictNextPower sz \<noteq> ht_size (ht0 d)"
  have eq: "dictExpand d sz =
      (if \<not> go then (d, False) else if ht_size (ht0 d) = 0 then (d\<lparr>ht0 := n\<rparr>, True)
       else (d\<lparr>ht1 := n, rehashidx := 0\<rparr>, True))"
  proof -
    have "(2 :: nat) ^ j \<le> 2 ^ 60" using j(2) by (intro power_increasing) simp_all
    then have "(2 :: nat) ^ j * 8 mod 2 ^ 64 div 8 = 2 ^ j" by (subst mod_less) simp_all
    then show ?thesis by (auto simp: dictExpand_def Let_def go_def j(3) n_def)
  qed
  have old: "dictSlots d = ht_size (ht0 d)" "dict_entries d = entries (ht0 d)" "ht1 d = dictReset" if go
    using that dict_ok_ht0(2,6) [OF ok] by (simp_all add: go_def dictSlots_def)
  have e: "entries (ht0 d) = []" if "ht_size (ht0 d) = 0" go
  proof -
    have "ht0 d = dictReset" using that dict_ok_ht0(4) [OF ok] unfolding go_def by blast
    then show "entries (ht0 d) = []" by simp
  qed
  show "snd (dictExpand d sz) \<longleftrightarrow>
      \<not> dictIsRehashing d \<and> ht_used (ht0 d) \<le> sz \<and> dictNextPower sz \<noteq> ht_size (ht0 d)"
    by (simp add: eq flip: go_def)
  show "\<not> snd (dictExpand d sz) \<Longrightarrow> fst (dictExpand d sz) = d" by (simp add: eq split: if_splits)
  show "snd (dictExpand d sz) \<Longrightarrow> dictSlots (fst (dictExpand d sz)) = ht_size (ht0 d) + dictNextPower sz"
    using old e n(3) by (auto simp: eq dictSlots_def j(3) split: if_splits)
  show "same_entries hash d (fst (dictExpand d sz))"
  proof (cases go)
    case False
    then show ?thesis using same_entries_refl [OF ok] by (simp add: eq)
  next
    case go: True
    then have nr: "\<not> dictIsRehashing d" by (simp add: go_def)
    show ?thesis
    proof (cases "ht_size (ht0 d) = 0")
      case True
      then show ?thesis using go nr old(2,3) [OF go] e [OF True go] n(1,2)
        by (simp add: eq same_entries_def dict_ok_def dictIsRehashing_def dict_entries_def)
    next
      case False
      then have "ht_ok hash (ht0 d)" using dict_ok_ht0 [OF ok nr] by auto
      then show ?thesis using go False old(2,3) [OF go] n(1,2)
        by (simp add: eq same_entries_def dict_ok_def dictIsRehashing_def dict_entries_def)
    qed
  qed
qed

lemma length_dict_entries: "dict_ok hash d \<Longrightarrow> length (dict_entries d) = dictSize d"
  by (auto simp: dict_ok_def ht_ok_def dict_entries_def dictSize_def split: if_splits)

text \<open>A dictionary with tables to search in and a table to insert into.\<close>

definition insertable :: "('k \<Rightarrow> 64 word) \<Rightarrow> ('k, 'v) dict \<Rightarrow> bool" where
  "insertable hash d \<longleftrightarrow> dict_ok hash d \<and> ht0 d \<noteq> dictReset"

lemma insertable_ok:
  assumes "insertable hash d"
  shows "ht_ok hash (ht0 d)" and "ht_ok hash (ht d (if dictIsRehashing d then 1 else 0))"
    and "dictIsRehashing d \<Longrightarrow> ht_ok hash (ht1 d)"
  using assms by (auto simp: insertable_def dict_ok_def ht_def split: if_splits)

lemma ht_ok_not_reset: "ht_ok hash t \<Longrightarrow> t \<noteq> dictReset"
  by (auto simp: ht_ok_def ht_shape_def)

lemma dictExpand_insertable:
  assumes ok: "dict_ok hash d" and "sz \<le> 2 ^ 60" and nr: "\<not> dictIsRehashing d" and "ht_used (ht0 d) \<le> sz"
    and "dictNextPower sz \<noteq> ht_size (ht0 d)"
  shows "\<exists>d'. dictExpand d sz = (d', True) \<and> same_entries hash d d' \<and> insertable hash d'"
proof -
  obtain d' where d': "dictExpand d sz = (d', True)" "same_entries hash d d'"
    using dictExpand_correct(1,2) [OF ok assms(2)] assms(3-5) by (metis prod.collapse)
  obtain j where "dictNextPower sz = 2 ^ j" using dictNextPower_correct [OF assms(2)] by auto
  then have "ht0 d' = dictReset \<Longrightarrow> False"
    using d'(1) dict_ok_ht0(4) [OF ok nr] assms(3-5)
    by (auto simp: dictExpand_def Let_def dictReset_def split: if_splits)
  then show ?thesis using d' by (auto simp: insertable_def same_entries_def)
qed

lemma dictNextPower_initial: "dictNextPower DICT_HT_INITIAL_SIZE = DICT_HT_INITIAL_SIZE"
  by (simp add: dictNextPower_def DICT_HT_INITIAL_SIZE_def LLONG_MAX_def next_power_loop.simps)

text \<open>Expanding on demand never fails.\<close>

lemma dictExpandIfNeeded_correct:
  assumes ok: "dict_ok hash d" and small: "dictSize d < 2 ^ 59"
  shows "\<exists>d'. dictExpandIfNeeded can d = (d', True) \<and> same_entries hash d d' \<and> insertable hash d'"
proof (cases "dictIsRehashing d")
  case True
  then have "ht0 d \<noteq> dictReset" using ok ht_ok_not_reset [of hash "ht0 d"] by (simp add: dict_ok_def)
  then show ?thesis using True same_entries_refl [OF ok] ok by (simp add: dictExpandIfNeeded_def insertable_def)
next
  case nr: False
  show ?thesis
  proof (cases "ht_size (ht0 d) = 0")
    case True
    then have "ht_used (ht0 d) = 0" using dict_ok_ht0(4) [OF ok nr] by simp
    moreover have "dictExpandIfNeeded can d = dictExpand d DICT_HT_INITIAL_SIZE"
      using nr True by (simp add: dictExpandIfNeeded_def)
    ultimately show ?thesis using dictExpand_insertable [OF ok _ nr, of DICT_HT_INITIAL_SIZE] True
      by (simp add: dictNextPower_initial) (simp add: DICT_HT_INITIAL_SIZE_def)
  next
    case s0: False
    let ?sz = "ht_used (ht0 d) * 2"
    let ?full = "ht_used (ht0 d) \<ge> ht_size (ht0 d) \<and> (can \<or> ht_used (ht0 d) div ht_size (ht0 d) > dict_force_resize_ratio)"
    have u: "?sz < 2 ^ 60" using small by (simp add: dictSize_def)
    have m: "?sz mod 2 ^ 64 = ?sz" using u by (intro mod_less) simp
    have e: "dictExpandIfNeeded can d = (if ?full then dictExpand d ?sz else (d, True))"
      unfolding dictExpandIfNeeded_def m if_not_P [OF nr] if_not_P [OF s0] ..
    show ?thesis
    proof (cases ?full)
      case True
      obtain j where "dictNextPower ?sz = 2 ^ j" "?sz \<le> 2 ^ j" using dictNextPower_correct [of ?sz 60] u by auto
      then have "dictNextPower ?sz \<noteq> ht_size (ht0 d)" using True s0 by linarith
      then show ?thesis unfolding e if_P [OF True] by (intro dictExpand_insertable [OF ok _ nr]) (use u in simp_all)
    next
      case False
      have "ht0 d \<noteq> dictReset" using s0 by auto
      then show ?thesis unfolding e if_not_P [OF False] using same_entries_refl [OF ok] ok by (simp add: insertable_def)
    qed
  qed
qed

lemma dictResize_correct:
  assumes "dict_ok hash d"
  shows "same_entries hash d (fst (dictResize can d))"
proof (cases "\<not> can \<or> dictIsRehashing d")
  case True
  then show ?thesis using same_entries_refl [OF assms] by (simp add: dictResize_def)
next
  case False
  define m where "m = s32 (int (ht_used (ht0 d)))"
  define sz where "sz = nat (if m < int DICT_HT_INITIAL_SIZE then int DICT_HT_INITIAL_SIZE else m)"
  have "m < 2 ^ 31" unfolding m_def s32_def using signed_take_bit_int_less_exp [of 31] by blast
  then have "sz \<le> 2 ^ 60" by (auto simp: sz_def DICT_HT_INITIAL_SIZE_def nat_le_iff)
  moreover have "dictResize can d = dictExpand d sz"
    unfolding dictResize_def if_not_P [OF False] Let_def sz_def m_def ..
  ultimately show ?thesis using dictExpand_correct(1) [OF assms] by simp
qed

section \<open>Changing one bucket\<close>

lemma ht_set_ht [simp]: "ht (set_ht d t h) t = h"
  by (simp add: ht_def set_ht_def)

lemma set_ht_fields [simp]: "rehashidx (set_ht d t h) = rehashidx d" "iterators (set_ht d t h) = iterators d"
  "dictIsRehashing (set_ht d t h) = dictIsRehashing d"
  by (simp_all add: set_ht_def dictIsRehashing_def)

lemma dict_ok_ht:
  assumes "dict_ok hash d" and "i < length (ht_table (ht d t))"
  shows "ht_ok hash (ht d t)"
  using assms by (auto simp: dict_ok_def ht_def split: if_splits)

lemma dict_entries_set_ht:
  "mset (dict_entries (set_ht d t h)) + mset (entries (ht d t)) = mset (dict_entries d) + mset (entries h)"
  by (simp add: dict_entries_def set_ht_def ht_def)

text \<open>The one place that shows the invariant for all the operations that edit a chain.\<close>

lemma edit_bucket:
  assumes ok: "dict_ok hash d" and i: "i < length (ht_table (ht d t))"
    and pl: "\<forall>e \<in> set b. index_of (hash (fst e)) (ht d t) = i"
    and n: "int n = int (ht_used (ht d t)) + int (length b) - int (length (ht_table (ht d t) ! i))"
    and re: "\<not> (t = 0 \<and> dictIsRehashing d \<and> int i < rehashidx d)"
    and d': "d' = set_ht d t ((set_bucket (ht d t) i b)\<lparr>ht_used := n\<rparr>)"
  shows "dict_ok hash d'" and "mset (dict_entries d') + mset (ht_table (ht d t) ! i) = mset (dict_entries d) + mset b"
proof -
  define h where "h = (set_bucket (ht d t) i b)\<lparr>ht_used := n\<rparr>"
  have h: "ht_ok hash h" unfolding h_def by (rule ht_ok_set_bucket [OF dict_ok_ht [OF ok i] i pl n])
  have one: "t = 0 \<or> dictIsRehashing d" using ok i by (auto simp: dict_ok_def ht_def split: if_splits)
  have emp: "ht_table h ! j = []" if "t = 0" "dictIsRehashing d" "j < length (ht_table h)" "int j < rehashidx d" for j
    using that ok re by (cases "j = i") (auto simp: h_def dict_ok_def ht_def)
  show "dict_ok hash d'"
    using ok h emp one unfolding d' by (auto simp: dict_ok_def set_ht_def dictIsRehashing_def simp flip: h_def)
  have "mset (dict_entries d') + mset (entries (ht d t)) = mset (dict_entries d) + mset (entries h)"
    using dict_entries_set_ht [of d t h] by (simp add: d' h_def)
  moreover have "mset (entries h) + mset (ht_table (ht d t) ! i) = mset (entries (ht d t)) + mset b"
    using entries_set_bucket [OF i] by (simp add: h_def)
  ultimately show "mset (dict_entries d') + mset (ht_table (ht d t) ! i) = mset (dict_entries d) + mset b"
    by (rule mset_exchange)
qed

lemma deref_bucket:
  assumes "dict_ok hash d" and "deref d (t, i, p) = Some e"
  obtains b where "bucket (ht d t) i = Some b" and "i < length (ht_table (ht d t))" and "b = ht_table (ht d t) ! i"
    and "p < length b" and "e = b ! p" and "\<forall>e \<in> set b. index_of (hash (fst e)) (ht d t) = i"
    and "\<not> (t = 0 \<and> dictIsRehashing d \<and> int i < rehashidx d)"
proof -
  have i: "i < length (ht_table (ht d t))" and p: "p < length (ht_table (ht d t) ! i)" "e = ht_table (ht d t) ! i ! p"
    using assms(2) by (auto simp: deref_def bucket_def Option.bind_eq_Some_conv split: if_splits)
  have "\<not> (t = 0 \<and> dictIsRehashing d \<and> int i < rehashidx d)"
    using assms(1) i p(1) by (auto simp: dict_ok_def ht_def)
  then show ?thesis
    using that [OF bucket_Some [OF i] i refl p] dict_ok_ht [OF assms(1) i] i by (auto simp: ht_ok_def ht_placed_def)
qed

lemma dictSetVal_correct:
  assumes ok: "dict_ok hash d" and r: "deref d r = Some e"
  obtains d' where "dictSetVal d r v = Some d'" and "dict_ok hash d'" and "iterators d' = iterators d"
    and "add_mset e (mset (dict_entries d')) = add_mset (fst e, v) (mset (dict_entries d))"
proof -
  obtain t i p where [simp]: "r = (t, i, p)" by (cases r)
  have "deref d (t, i, p) = Some e" using r by simp
  from deref_bucket [OF ok this] obtain b where b: "bucket (ht d t) i = Some b" "i < length (ht_table (ht d t))" "b = ht_table (ht d t) ! i"
    "p < length b" "e = b ! p" "\<forall>e \<in> set b. index_of (hash (fst e)) (ht d t) = i"
    "\<not> (t = 0 \<and> dictIsRehashing d \<and> int i < rehashidx d)"
    by blast
  define b' where "b' = b[p := (fst e, v)]"
  define d' where "d' = set_ht d t ((set_bucket (ht d t) i b')\<lparr>ht_used := ht_used (ht d t)\<rparr>)"
  have pl: "\<forall>e \<in> set b'. index_of (hash (fst e)) (ht d t) = i"
    using b(4-6) by (auto simp: b'_def dest!: set_update_subset_insert [THEN subsetD])
  have n: "int (ht_used (ht d t)) = int (ht_used (ht d t)) + int (length b') - int (length (ht_table (ht d t) ! i))"
    by (simp add: b'_def flip: b(3))
  have "dict_ok hash d'" and m: "mset (dict_entries d') + mset b = mset (dict_entries d) + mset b'"
    using edit_bucket [OF ok b(2) pl n b(7) d'_def] by (simp_all flip: b(3))
  moreover have "mset b' + {#e#} = mset b + {#(fst e, v)#}"
    using b(4,5) by (simp add: b'_def mset_update)
  from mset_exchange [OF m this] have "add_mset e (mset (dict_entries d')) = add_mset (fst e, v) (mset (dict_entries d))"
    by simp
  moreover have "dictSetVal d r v = Some d'"
    using b(1,4,5) by (simp add: dictSetVal_def d'_def b'_def set_bucket_def)
  ultimately show ?thesis using that [of d'] by (simp add: d'_def)
qed

lemma unlink_correct:
  assumes ok: "dict_ok hash d" and r: "deref d r = Some e"
  obtains d' where "unlink d r = Some d'" and "dict_ok hash d'" and "iterators d' = iterators d"
    and "add_mset e (mset (dict_entries d')) = mset (dict_entries d)"
proof -
  obtain t i p where [simp]: "r = (t, i, p)" by (cases r)
  have "deref d (t, i, p) = Some e" using r by simp
  from deref_bucket [OF ok this] obtain b where b: "bucket (ht d t) i = Some b" "i < length (ht_table (ht d t))" "b = ht_table (ht d t) ! i"
    "p < length b" "e = b ! p" "\<forall>e \<in> set b. index_of (hash (fst e)) (ht d t) = i"
    "\<not> (t = 0 \<and> dictIsRehashing d \<and> int i < rehashidx d)"
    by blast
  define b' where "b' = take p b @ drop (p + 1) b"
  have split: "b = take p b @ e # drop (p + 1) b" using id_take_nth_drop [OF b(4)] b(5) by simp
  then have mb: "mset b = add_mset e (mset b')" by (metis b'_def mset.simps(2) mset_append union_mset_add_mset_right)
  define d' where "d' = set_ht d t ((set_bucket (ht d t) i b')\<lparr>ht_used := ht_used (ht d t) - 1\<rparr>)"
  have pl: "\<forall>e \<in> set b'. index_of (hash (fst e)) (ht d t) = i"
    using b(6) by (auto simp: b'_def dest: in_set_takeD in_set_dropD)
  have lb: "length b = Suc (length b')" using mb by (metis size_add_mset size_mset)
  have "ht_used (ht d t) = length (entries (ht d t))" using dict_ok_ht [OF ok b(2)] by (simp add: ht_ok_def)
  moreover have "b \<in> set (ht_table (ht d t))" using b(2,3) by simp
  then have "set b \<subseteq> set (entries (ht d t))" by (auto simp: entries_def)
  ultimately have u: "0 < ht_used (ht d t)" using lb by (cases b) auto
  have n: "int (ht_used (ht d t) - 1) = int (ht_used (ht d t)) + int (length b') - int (length (ht_table (ht d t) ! i))"
    using lb u by (simp flip: b(3))
  have "dict_ok hash d'" and "mset (dict_entries d') + mset b = mset (dict_entries d) + mset b'"
    using edit_bucket [OF ok b(2) pl n b(7) d'_def] by (simp_all flip: b(3))
  moreover have "unlink d r = Some d'" using b(1) by (simp add: unlink_def d'_def b'_def)
  ultimately show ?thesis using that [of d'] mb by (simp add: d'_def)
qed

end
