(* ===== verification/Dict_Map.thy ===== *)
theory Dict_Map
  imports Dict
begin

text \<open>
  The dictionary as a finite map: with key functions that respect the contract of \<open>dict_type\<close>, the
  search finds the one entry with an equal key, and insertion, replacement and deletion are
  updates of the map, whatever the state of an incremental rehashing. The facts are proved once
  in the locale and then stated for the string keys of the server's key space.
\<close>

section \<open>Keys\<close>

lemma find_Some_mem: "find P es = Some e \<Longrightarrow> e \<in> set es \<and> P e"
  by (induction es) (auto split: if_splits)

lemma keys_ok_mset: "mset es = mset es' \<Longrightarrow> keys_ok valid cmp es \<longleftrightarrow> keys_ok valid cmp es'"
  using mset_eq_setD [of es es'] mset_eq_imp_distinct_iff [of es es'] by (simp add: keys_ok_def)

lemma keys_ok_Cons:
  "keys_ok valid cmp (e # es) \<longleftrightarrow> valid (fst e) \<and> keys_ok valid cmp es \<and> e \<notin> set es \<and>
     (\<forall>x \<in> set es. \<not> cmp (fst e) (fst x) \<and> \<not> cmp (fst x) (fst e))"
  by (auto simp: keys_ok_def pairwise_insert)

lemma bucket_find_None: "bucket_find cmp key b = None \<longleftrightarrow> (\<forall>e \<in> set b. \<not> cmp key (fst e))"
  by (induction b) auto

lemma bucket_find_Some:
  "bucket_find cmp key b = Some p \<Longrightarrow> p < length b \<and> cmp key (fst (b ! p))"
  by (induction b arbitrary: p) (auto split: if_splits)

text \<open>What the search promises: it finds an entry with an equal key, if there is one.\<close>

definition found :: "('k \<Rightarrow> 'k \<Rightarrow> bool) \<Rightarrow> ('k, 'v) dict \<Rightarrow> 'k \<Rightarrow> entry_ref option \<Rightarrow> bool" where
  "found cmp d key r \<longleftrightarrow>
     (case r of
        None \<Rightarrow> \<forall>e \<in> set (dict_entries d). \<not> cmp key (fst e)
      | Some ref \<Rightarrow> \<exists>e. deref d ref = Some e \<and> cmp key (fst e) \<and> e \<in> set (dict_entries d))"

lemma found_None: "found cmp d key None \<longleftrightarrow> (\<forall>e \<in> set (dict_entries d). \<not> cmp key (fst e))"
  by (simp add: found_def)

lemma found_Some:
  "found cmp d key (Some ref) \<longleftrightarrow> (\<exists>e. deref d ref = Some e \<and> cmp key (fst e) \<and> e \<in> set (dict_entries d))"
  by (simp add: found_def)

lemma dict_inv_same:
  assumes "dict_inv valid hash cmp d" and "same_entries hash d d'"
  shows "dict_inv valid hash cmp d'"
  using assms keys_ok_mset [of "dict_entries d'" "dict_entries d"] by (simp add: dict_inv_def same_entries_def)

context dict_type
begin

lemma find_unique:
  assumes "keys_ok valid keyCompare es" and "valid key" and "e \<in> set es" and "keyCompare key (fst e)"
  shows "find (\<lambda>e. keyCompare key (fst e)) es = Some e"
proof -
  have "find (\<lambda>e. keyCompare key (fst e)) es \<noteq> None" using assms(3,4) unfolding find_None_iff by blast
  then obtain e' where e': "find (\<lambda>e. keyCompare key (fst e)) es = Some e'" by blast
  then have "e' \<in> set es" "keyCompare key (fst e')" by (auto dest: find_Some_mem)
  moreover have "valid (fst e)" "valid (fst e')" using assms(1,3) \<open>e' \<in> set es\<close> by (auto simp: keys_ok_def)
  moreover from this have "keyCompare (fst e) key" using cmp_sym assms(2,4) by blast
  ultimately have "e' \<in> set es" "keyCompare (fst e) (fst e')" using cmp_trans assms(2) by blast+
  then show ?thesis using assms(1,3) e' by (metis keys_ok_def pairwiseD)
qed

lemma dict_map_Some:
  assumes "dict_inv valid hashFunction keyCompare d" and "valid key"
    and "e \<in> set (dict_entries d)" and "keyCompare key (fst e)"
  shows "dict_map keyCompare d key = Some (snd e)"
  using find_unique [OF _ assms(2-4)] assms(1) by (simp add: dict_map_def dict_inv_def)

lemma dict_map_None:
  "dict_map keyCompare d key = None \<longleftrightarrow> (\<forall>e \<in> set (dict_entries d). \<not> keyCompare key (fst e))"
  by (auto simp: dict_map_def find_None_iff)

lemma lookup_mset:
  assumes ok: "keys_ok valid keyCompare es" and "mset es' = mset es" and key: "valid key"
  shows "find (\<lambda>e. keyCompare key (fst e)) es' = find (\<lambda>e. keyCompare key (fst e)) es"
proof (cases "\<exists>e \<in> set es. keyCompare key (fst e)")
  case True
  then obtain e where e: "e \<in> set es" "keyCompare key (fst e)" by blast
  moreover have "e \<in> set es'" using e(1) mset_eq_setD [OF assms(2)] by blast
  moreover have "keys_ok valid keyCompare es'" using ok keys_ok_mset [OF assms(2)] by blast
  ultimately show ?thesis using find_unique [OF _ key] ok by metis
next
  case False
  moreover have "set es' = set es" by (rule mset_eq_setD [OF assms(2)])
  ultimately show ?thesis by (metis find_None_iff)
qed

lemma dict_map_same:
  assumes "dict_inv valid hashFunction keyCompare d" and "same_entries hashFunction d d'" and "valid key"
  shows "dict_map keyCompare d' key = dict_map keyCompare d key"
  unfolding dict_map_def
  by (subst lookup_mset [of "dict_entries d"]) (use assms in \<open>simp_all add: dict_inv_def same_entries_def\<close>)

lemma found_map:
  assumes "dict_inv valid hashFunction keyCompare d" and "valid key" and "found keyCompare d key r"
  shows "r = None \<longleftrightarrow> dict_map keyCompare d key = None"
    and "r = Some ref \<Longrightarrow> \<exists>e. deref d ref = Some e \<and> dict_map keyCompare d key = Some (snd e) \<and>
           keyCompare key (fst e) \<and> e \<in> set (dict_entries d)"
proof -
  show some: "\<exists>e. deref d ref = Some e \<and> dict_map keyCompare d key = Some (snd e) \<and>
           keyCompare key (fst e) \<and> e \<in> set (dict_entries d)" if "r = Some ref" for ref
    using assms(3) dict_map_Some [OF assms(1,2)] unfolding that found_Some by blast
  show "r = None \<longleftrightarrow> dict_map keyCompare d key = None"
    using some assms(3) dict_map_None [of d key] by (cases r) (auto simp: found_None)
qed

text \<open>Searching a table: the bucket of the hash is the only one that can hold the key.\<close>

lemma find_table_correct:
  assumes ok: "ht_ok hashFunction (ht d t)" and val: "\<forall>e \<in> set (entries (ht d t)). valid (fst e)" and "valid key"
  obtains r where "find_table keyCompare d t (hashFunction key) key = Some r"
    and "r = None \<Longrightarrow> \<forall>e \<in> set (entries (ht d t)). \<not> keyCompare key (fst e)"
    and "\<And>ref. r = Some ref \<Longrightarrow> \<exists>e. deref d ref = Some e \<and> keyCompare key (fst e) \<and> e \<in> set (entries (ht d t))"
proof -
  define i where "i = index_of (hashFunction key) (ht d t)"
  define b where "b = ht_table (ht d t) ! i"
  have i: "i < length (ht_table (ht d t))" using ok index_bound by (auto simp: ht_ok_def i_def)
  note bk = bucket_Some [OF i]
  have sub: "set b \<subseteq> set (entries (ht d t))" using nth_mem [OF i] unfolding entries_def b_def by (metis Union_upper imageI set_concat)
  have here: "e \<in> set b" if "e \<in> set (entries (ht d t))" "keyCompare key (fst e)" for e
    using that entries_bucket(2) [of hashFunction "ht d t" e] ok val cmp_hash [OF assms(3), of "fst e"]
    by (simp add: ht_ok_def b_def i_def)
  have res: "find_table keyCompare d t (hashFunction key) key =
      Some (map_option (\<lambda>p. (t, i, p)) (bucket_find keyCompare key b))"
    using bk by (simp add: find_table_def b_def flip: i_def)
  show ?thesis
  proof (rule that [OF res])
    assume "map_option (\<lambda>p. (t, i, p)) (bucket_find keyCompare key b) = None"
    then show "\<forall>e \<in> set (entries (ht d t)). \<not> keyCompare key (fst e)" using here by (auto simp: bucket_find_None)
  next
    fix ref
    assume "map_option (\<lambda>p. (t, i, p)) (bucket_find keyCompare key b) = Some ref"
    then obtain p where p: "bucket_find keyCompare key b = Some p" "ref = (t, i, p)" by auto
    then have "p < length b" "keyCompare key (fst (b ! p))" using bucket_find_Some by fast+
    moreover from this have "deref d ref = Some (b ! p)" using bk p(2) by (simp add: deref_def b_def)
    moreover have "b ! p \<in> set (entries (ht d t))" using sub nth_mem [OF \<open>p < length b\<close>] by blast
    ultimately show "\<exists>e. deref d ref = Some e \<and> keyCompare key (fst e) \<and> e \<in> set (entries (ht d t))" by blast
  qed
qed

lemma find_tables_correct:
  assumes inv: "dict_inv valid hashFunction keyCompare d" and ins: "insertable hashFunction d" and "valid key"
  obtains r where "find_tables keyCompare d (hashFunction key) key = Some r" and "found keyCompare d key r"
proof -
  have v: "\<forall>e \<in> set (entries (ht d t)). valid (fst e)" for t
    using inv by (auto simp: dict_inv_def keys_ok_def dict_entries_def ht_def)
  have h0: "ht d 0 = ht0 d" and h1: "ht d 1 = ht1 d" by (simp_all add: ht_def)
  obtain r0 where r0: "find_table keyCompare d 0 (hashFunction key) key = Some r0"
    "r0 = None \<Longrightarrow> \<forall>e \<in> set (entries (ht d 0)). \<not> keyCompare key (fst e)"
    "\<And>ref. r0 = Some ref \<Longrightarrow> \<exists>e. deref d ref = Some e \<and> keyCompare key (fst e) \<and> e \<in> set (entries (ht d 0))"
    by (rule find_table_correct [OF insertable_ok(1) [OF ins, folded h0] v assms(3)]) blast
  show ?thesis
  proof (cases "r0 = None \<and> dictIsRehashing d")
    case True
    obtain r1 where r1: "find_table keyCompare d 1 (hashFunction key) key = Some r1"
      "r1 = None \<Longrightarrow> \<forall>e \<in> set (entries (ht d 1)). \<not> keyCompare key (fst e)"
      "\<And>ref. r1 = Some ref \<Longrightarrow> \<exists>e. deref d ref = Some e \<and> keyCompare key (fst e) \<and> e \<in> set (entries (ht d 1))"
      by (rule find_table_correct [OF insertable_ok(3) [OF ins conjunct2 [OF True], folded h1] v assms(3)]) blast
    have "found keyCompare d key r1"
      using r0(2) r1(2,3) True unfolding found_def dict_entries_def h0 h1 by (cases r1) auto
    then show ?thesis using that r0(1) r1(1) True by (simp add: find_tables_def)
  next
    case False
    have "entries (ht1 d) = []" if "\<not> dictIsRehashing d"
      using that inv by (simp add: dict_inv_def dict_ok_def)
    then have "found keyCompare d key r0"
      using r0(2,3) False unfolding found_def dict_entries_def h0 by (cases r0) auto
    moreover have "find_tables keyCompare d (hashFunction key) key = Some r0"
      using r0(1) False by (cases r0) (simp_all add: find_tables_def)
    ultimately show ?thesis using that by blast
  qed
qed

end

section \<open>The operations on the map\<close>

lemma rehash_if_needed:
  assumes "dict_ok hash d"
  obtains d' where "(if dictIsRehashing d then dictRehashStep hash d else Some d) = Some d'" and "same_entries hash d d'"
proof (cases "dictIsRehashing d")
  case True
  obtain d' where "dictRehashStep hash d = Some d'" "same_entries hash d d'"
    using dictRehashStep_correct [OF assms] by blast
  then show ?thesis using that True by simp
next
  case False
  then show ?thesis using that same_entries_refl [OF assms] by simp
qed

lemma nonempty_insertable: "dict_ok hash d \<Longrightarrow> dict_entries d \<noteq> [] \<Longrightarrow> insertable hash d"
  using ht_ok_not_reset [of hash "ht0 d"] by (auto simp: insertable_def dict_ok_def dict_entries_def split: if_splits)

lemma same_entries_nonempty: "same_entries hash d d' \<Longrightarrow> dict_entries d = [] \<longleftrightarrow> dict_entries d' = []"
  by (metis mset_zero_iff same_entries_def)

lemma same_entries_size:
  assumes "dict_ok hash d" and "same_entries hash d d'"
  shows "dictSize d' = dictSize d"
proof -
  have "dict_ok hash d'" "mset (dict_entries d') = mset (dict_entries d)" using assms(2) by (simp_all add: same_entries_def)
  then have "length (dict_entries d') = length (dict_entries d)" by (metis size_mset)
  then show ?thesis using length_dict_entries [OF assms(1)] length_dict_entries [OF \<open>dict_ok hash d'\<close>] by simp
qed

context dict_type
begin

lemma dict_inv_ok: "dict_inv valid hashFunction keyCompare d \<Longrightarrow> dict_ok hashFunction d"
  by (simp add: dict_inv_def)

lemma dictFind_correct:
  assumes inv: "dict_inv valid hashFunction keyCompare d" and key: "valid key"
  obtains d' r where "dictFind hashFunction keyCompare d key = Some (d', r)" and "same_entries hashFunction d d'"
    and "found keyCompare d' key r"
proof (cases "dictSize d = 0")
  case True
  then have "dict_entries d = []" using length_dict_entries [OF dict_inv_ok [OF inv]] by simp
  then have "found keyCompare d key None" by (simp add: found_None)
  then show ?thesis using that [of d None] True same_entries_refl [OF dict_inv_ok [OF inv]]
    by (simp add: dictFind_def dictSize_def)
next
  case False
  then have ne: "dict_entries d \<noteq> []" using length_dict_entries [OF dict_inv_ok [OF inv]] by auto
  obtain d1 where d1: "(if dictIsRehashing d then dictRehashStep hashFunction d else Some d) = Some d1"
    "same_entries hashFunction d d1" by (rule rehash_if_needed [OF dict_inv_ok [OF inv]]) blast
  have "insertable hashFunction d1"
    using nonempty_insertable same_entries_nonempty [OF d1(2)] ne d1(2) by (auto simp: same_entries_def)
  then obtain r where r: "find_tables keyCompare d1 (hashFunction key) key = Some r" "found keyCompare d1 key r"
    by (rule find_tables_correct [OF dict_inv_same [OF inv d1(2)] _ key]) blast
  have "dictFind hashFunction keyCompare d key = Some (d1, r)"
    unfolding dictFind_def dictSize_def [symmetric] if_not_P [OF False] d1(1) using r(1) by simp
  then show ?thesis using that d1(2) r(2) by blast
qed

lemma dictFetchValue_correct:
  assumes inv: "dict_inv valid hashFunction keyCompare d" and key: "valid key"
  shows "\<exists>d'. dictFetchValue hashFunction keyCompare d key = Some (d', dict_map keyCompare d key) \<and>
    same_entries hashFunction d d'"
proof -
  obtain d' r where d': "dictFind hashFunction keyCompare d key = Some (d', r)" "same_entries hashFunction d d'"
    "found keyCompare d' key r" using dictFind_correct [OF assms] by blast
  note f = found_map [OF dict_inv_same [OF inv d'(2)] key d'(3)]
  have m: "dict_map keyCompare d' key = dict_map keyCompare d key" by (rule dict_map_same [OF inv d'(2) key])
  show ?thesis
  proof (cases r)
    case None
    then show ?thesis using d' f(1) m by (simp add: dictFetchValue_def)
  next
    case (Some ref)
    then obtain e where "deref d' ref = Some e" "dict_map keyCompare d' key = Some (snd e)" using f(2) by blast
    then show ?thesis using d' m Some by (simp add: dictFetchValue_def)
  qed
qed

text \<open>\<open>dictAddRaw\<close>: either the entry exists and is returned, or a new one is linked in.\<close>

lemma dictAddRaw_correct:
  assumes inv: "dict_inv valid hashFunction keyCompare d" and key: "valid key" and small: "dictSize d < 2 ^ 59"
  obtains (old) d' ref e where "dictAddRaw can hashFunction keyCompare uninit d key = Some (d', None, Some ref)"
      and "same_entries hashFunction d d'" and "deref d' ref = Some e" and "e \<in> set (dict_entries d)"
      and "keyCompare key (fst e)" and "dict_map keyCompare d key = Some (snd e)"
  | (new) d' ref where "dictAddRaw can hashFunction keyCompare uninit d key = Some (d', Some ref, None)"
      and "dict_map keyCompare d key = None" and "dict_ok hashFunction d'" and "iterators d' = iterators d"
      and "deref d' ref = Some (key, uninit)" and "mset (dict_entries d') = add_mset (key, uninit) (mset (dict_entries d))"
proof -
  obtain d1 where d1: "(if dictIsRehashing d then dictRehashStep hashFunction d else Some d) = Some d1"
    "same_entries hashFunction d d1" by (rule rehash_if_needed [OF dict_inv_ok [OF inv]]) blast
  have ok1: "dict_ok hashFunction d1" using d1(2) by (simp add: same_entries_def)
  obtain d2 where d2: "dictExpandIfNeeded can d1 = (d2, True)" "same_entries hashFunction d1 d2" "insertable hashFunction d2"
    using dictExpandIfNeeded_correct [OF ok1] small same_entries_size [OF dict_inv_ok [OF inv] d1(2)] by metis
  note same = same_entries_trans [OF d1(2) d2(2)]
  note inv2 = dict_inv_same [OF inv same]
  obtain r where r: "find_tables keyCompare d2 (hashFunction key) key = Some r" "found keyCompare d2 key r"
    by (rule find_tables_correct [OF inv2 d2(3) key]) blast
  note f = found_map [OF inv2 key r(2)]
  have m: "dict_map keyCompare d2 key = dict_map keyCompare d key" by (rule dict_map_same [OF inv same key])
  have set2: "set (dict_entries d2) = set (dict_entries d)" using same by (auto simp: same_entries_def dest: mset_eq_setD)
  define t where "t = (if dictIsRehashing d2 then 1 else 0 :: nat)"
  define i where "i = index_of (hashFunction key) (ht d2 t)"
  have ht: "ht_ok hashFunction (ht d2 t)" using insertable_ok(2) [OF d2(3)] by (simp add: t_def)
  then have i: "i < length (ht_table (ht d2 t))" using index_bound by (auto simp: ht_ok_def i_def)
  show thesis
  proof (cases r)
    case (Some ref)
    have "dictAddRaw can hashFunction keyCompare uninit d key = Some (d2, None, Some ref)"
      unfolding dictAddRaw_def dictKeyIndex_def d1(1) using d2(1) r(1) Some by simp
    moreover obtain e where "deref d2 ref = Some e" "dict_map keyCompare d2 key = Some (snd e)"
      "keyCompare key (fst e)" "e \<in> set (dict_entries d2)" using f(2) [OF Some] by blast
    ultimately show thesis using old [OF _ same, of ref e] m set2 by simp
  next
    case None
    define b where "b = ht_table (ht d2 t) ! i"
    define d3 where "d3 = set_ht d2 t ((set_bucket (ht d2 t) i ((key, uninit) # b))\<lparr>ht_used := ht_used (ht d2 t) + 1\<rparr>)"
    have pl: "\<forall>e \<in> set ((key, uninit) # b). index_of (hashFunction (fst e)) (ht d2 t) = i"
      using ht i by (auto simp: ht_ok_def ht_placed_def b_def i_def)
    have n: "int (ht_used (ht d2 t) + 1) =
        int (ht_used (ht d2 t)) + int (length ((key, uninit) # b)) - int (length (ht_table (ht d2 t) ! i))"
      by (simp add: b_def)
    have re: "\<not> (t = 0 \<and> dictIsRehashing d2 \<and> int i < rehashidx d2)" by (simp add: t_def)
    have ok2: "dict_ok hashFunction d2" by (rule dict_inv_ok [OF inv2])
    note ed = edit_bucket [OF ok2 i pl n re d3_def]
    have "dictAddRaw can hashFunction keyCompare uninit d key = Some (d3, Some (t, i, 0), None)"
      unfolding dictAddRaw_def dictKeyIndex_def d1(1)
      using d2(1) r(1) None bucket_Some [OF i] by (simp add: Let_def d3_def b_def flip: t_def i_def)
    moreover have "dict_map keyCompare d key = None" using f(1) None m by simp
    moreover have "iterators d3 = iterators d" using same by (simp add: d3_def same_entries_def)
    moreover have "deref d3 (t, i, 0) = Some (key, uninit)"
      using i by (simp add: deref_def d3_def bucket_def)
    moreover have "mset (dict_entries d3) = add_mset (key, uninit) (mset (dict_entries d))"
      using ed(2) same by (simp add: b_def same_entries_def)
    ultimately show thesis using new ed(1) by blast
  qed
qed

end

context dict_type
begin

lemma dict_map_insert:
  assumes inv: "dict_inv valid hashFunction keyCompare d" and key: "valid key" and none: "dict_map keyCompare d key = None"
    and ok: "dict_ok hashFunction d'" and m: "mset (dict_entries d') = add_mset (key, v) (mset (dict_entries d))"
  shows "dict_inv valid hashFunction keyCompare d'"
    and "valid k \<Longrightarrow> dict_map keyCompare d' k = (if keyCompare k key then Some v else dict_map keyCompare d k)"
proof -
  let ?es = "(key, v) # dict_entries d"
  have no: "\<not> keyCompare key (fst e)" if "e \<in> set (dict_entries d)" for e
    using none that by (simp add: dict_map_None)
  have val: "valid (fst e)" if "e \<in> set (dict_entries d)" for e
    using inv that by (simp add: dict_inv_def keys_ok_def)
  have ks: "keys_ok valid keyCompare ?es"
    using inv key no val cmp_sym [OF val key] cmp_refl [OF key] unfolding keys_ok_Cons dict_inv_def fst_conv by fastforce
  have m': "mset (dict_entries d') = mset ?es" using m by simp
  show "dict_inv valid hashFunction keyCompare d'" using ok ks keys_ok_mset [OF m'] by (simp add: dict_inv_def)
  show "dict_map keyCompare d' k = (if keyCompare k key then Some v else dict_map keyCompare d k)" if "valid k"
    using lookup_mset [OF ks m' that] by (simp add: dict_map_def)
qed

lemma dict_map_remove:
  assumes inv: "dict_inv valid hashFunction keyCompare d" and key: "valid key" and e: "keyCompare key (fst e)"
    and ok: "dict_ok hashFunction d'" and m: "add_mset e (mset (dict_entries d')) = mset (dict_entries d)"
  shows "dict_inv valid hashFunction keyCompare d'"
    and "valid k \<Longrightarrow> dict_map keyCompare d' k = (if keyCompare k key then None else dict_map keyCompare d k)"
proof -
  have m': "mset (dict_entries d) = mset (e # dict_entries d')" using m by simp
  have ks: "keys_ok valid keyCompare (e # dict_entries d')"
    using inv keys_ok_mset [OF m'] by (simp add: dict_inv_def)
  then show "dict_inv valid hashFunction keyCompare d'" using ok by (simp add: dict_inv_def keys_ok_Cons)
  assume k: "valid k"
  have v: "valid (fst e)" using ks by (simp add: keys_ok_Cons)
  have iff: "keyCompare k (fst e) \<longleftrightarrow> keyCompare k key"
    using cmp_trans cmp_sym k key v e by blast
  have "find (\<lambda>e. keyCompare k (fst e)) (dict_entries d') = None" if "keyCompare k key"
  proof -
    have "\<not> keyCompare k (fst x)" if "x \<in> set (dict_entries d')" for x
    proof
      assume x: "keyCompare k (fst x)"
      have "valid (fst x)" using ks that by (simp add: keys_ok_def)
      moreover have "keyCompare (fst e) k" using cmp_sym k v iff \<open>keyCompare k key\<close> by blast
      ultimately have "keyCompare (fst e) (fst x)" using cmp_trans [OF v k] x by blast
      then show False using ks that by (simp add: keys_ok_Cons)
    qed
    then show ?thesis unfolding find_None_iff by blast
  qed
  then show "dict_map keyCompare d' k = (if keyCompare k key then None else dict_map keyCompare d k)"
    using lookup_mset [OF ks m' k] iff by (simp add: dict_map_def)
qed

lemma dict_map_update:
  assumes inv: "dict_inv valid hashFunction keyCompare d" and key: "valid key" and e: "keyCompare key (fst e)"
    and mem: "e \<in> set (dict_entries d)"
    and ok: "dict_ok hashFunction d'" and m: "add_mset e (mset (dict_entries d')) = add_mset (fst e, v) (mset (dict_entries d))"
  shows "dict_inv valid hashFunction keyCompare d'"
    and "valid k \<Longrightarrow> dict_map keyCompare d' k = (if keyCompare k key then Some v else dict_map keyCompare d k)"
proof -
  define es where "es = remove1 e (dict_entries d)"
  have d: "mset (dict_entries d) = mset (e # es)" using mem by (simp add: es_def)
  then have d': "mset (dict_entries d') = mset ((fst e, v) # es)" using m by simp
  have ks: "keys_ok valid keyCompare (e # es)" using inv keys_ok_mset [OF d] by (simp add: dict_inv_def)
  then have "(fst e, v) \<notin> set es" using cmp_refl by (fastforce simp: keys_ok_Cons)
  with ks have ks': "keys_ok valid keyCompare ((fst e, v) # es)" by (simp add: keys_ok_Cons)
  then show "dict_inv valid hashFunction keyCompare d'" using ok keys_ok_mset [OF d'] by (simp add: dict_inv_def)
  assume k: "valid k"
  have v: "valid (fst e)" using ks by (simp add: keys_ok_Cons)
  have "keyCompare k (fst e) \<longleftrightarrow> keyCompare k key"
    using cmp_trans cmp_sym k key e v by blast
  then show "dict_map keyCompare d' k = (if keyCompare k key then Some v else dict_map keyCompare d k)"
    using lookup_mset [OF ks' d' k] lookup_mset [OF ks d k] by (simp add: dict_map_def)
qed

end

context dict_type
begin

lemma dictAdd_correct:
  assumes inv: "dict_inv valid hashFunction keyCompare d" and key: "valid key" and small: "dictSize d < 2 ^ 59"
  shows "\<exists>d'. dictAdd can hashFunction keyCompare uninit d key val = Some (d', dict_map keyCompare d key = None) \<and>
    dict_inv valid hashFunction keyCompare d' \<and> iterators d' = iterators d \<and>
    (\<forall>k. valid k \<longrightarrow> dict_map keyCompare d' k =
       (if keyCompare k key \<and> dict_map keyCompare d key = None then Some val else dict_map keyCompare d k))"
  using assms
proof (cases rule: dictAddRaw_correct [of d key can uninit])
  case (old d' ref e)
  then have "dictAdd can hashFunction keyCompare uninit d key val = Some (d', False)" by (simp add: dictAdd_def)
  moreover have "iterators d' = iterators d" using old(2) by (simp add: same_entries_def)
  ultimately show ?thesis using old(2,6) dict_inv_same [OF inv old(2)] dict_map_same [OF inv old(2)] by simp
next
  case (new d1 ref)
  obtain d' where d': "dictSetVal d1 ref val = Some d'" "dict_ok hashFunction d'" "iterators d' = iterators d1"
    "add_mset (key, uninit) (mset (dict_entries d')) = add_mset (key, val) (mset (dict_entries d1))"
    using dictSetVal_correct [OF new(3,5), of val] by auto
  have m: "mset (dict_entries d') = add_mset (key, val) (mset (dict_entries d))"
    using d'(4) unfolding new(6) by (simp add: add_mset_commute)
  have "dictAdd can hashFunction keyCompare uninit d key val = Some (d', True)"
    using new(1) d'(1) by (simp add: dictAdd_def)
  then show ?thesis
    using dict_map_insert [OF inv key new(2) d'(2) m] new(2,4) d'(3) by simp
qed

lemma dictReplace_correct:
  assumes inv: "dict_inv valid hashFunction keyCompare d" and key: "valid key" and small: "dictSize d < 2 ^ 59"
  shows "\<exists>d'. dictReplace can hashFunction keyCompare uninit d key val = Some (d', dict_map keyCompare d key = None) \<and>
    dict_inv valid hashFunction keyCompare d' \<and> iterators d' = iterators d \<and>
    (\<forall>k. valid k \<longrightarrow> dict_map keyCompare d' k = (if keyCompare k key then Some val else dict_map keyCompare d k))"
  using assms
proof (cases rule: dictAddRaw_correct [of d key can uninit])
  case (old d1 ref e)
  have ok1: "dict_ok hashFunction d1" and it: "iterators d1 = iterators d" using old(2) by (simp_all add: same_entries_def)
  obtain d' where d': "dictSetVal d1 ref val = Some d'" "dict_ok hashFunction d'" "iterators d' = iterators d1"
    "add_mset e (mset (dict_entries d')) = add_mset (fst e, val) (mset (dict_entries d1))"
    using dictSetVal_correct [OF ok1 old(3), of val] by blast
  have m: "add_mset e (mset (dict_entries d')) = add_mset (fst e, val) (mset (dict_entries d))"
    using d'(4) old(2) by (simp add: same_entries_def)
  have "dictReplace can hashFunction keyCompare uninit d key val = Some (d', False)"
    using old(1) d'(1) by (simp add: dictReplace_def)
  then show ?thesis using dict_map_update [OF inv key old(5,4) d'(2) m] old(6) d'(3) it by simp
next
  case (new d1 ref)
  obtain d' where d': "dictSetVal d1 ref val = Some d'" "dict_ok hashFunction d'" "iterators d' = iterators d1"
    "add_mset (key, uninit) (mset (dict_entries d')) = add_mset (key, val) (mset (dict_entries d1))"
    using dictSetVal_correct [OF new(3,5), of val] by auto
  have m: "mset (dict_entries d') = add_mset (key, val) (mset (dict_entries d))"
    using d'(4) unfolding new(6) by (simp add: add_mset_commute)
  have "dictReplace can hashFunction keyCompare uninit d key val = Some (d', True)"
    using new(1) d'(1) by (simp add: dictReplace_def)
  then show ?thesis
    using dict_map_insert [OF inv key new(2) d'(2) m] new(2,4) d'(3) by simp
qed

lemma dictGenericDelete_correct:
  assumes inv: "dict_inv valid hashFunction keyCompare d" and key: "valid key"
  shows "\<exists>d' r. dictGenericDelete hashFunction keyCompare d key = Some (d', r) \<and>
    map_option snd r = dict_map keyCompare d key \<and> dict_inv valid hashFunction keyCompare d' \<and>
    iterators d' = iterators d \<and>
    (\<forall>k. valid k \<longrightarrow> dict_map keyCompare d' k = (if keyCompare k key then None else dict_map keyCompare d k))"
proof (cases "ht_used (ht0 d) = 0 \<and> ht_used (ht1 d) = 0")
  case True
  then have "dict_entries d = []"
    using length_dict_entries [OF dict_inv_ok [OF inv]] by (simp add: dictSize_def)
  then have "dict_map keyCompare d k = None" for k by (simp add: dict_map_def)
  then show ?thesis using True inv by (simp add: dictGenericDelete_def)
next
  case False
  then have ne: "dict_entries d \<noteq> []"
    using length_dict_entries [OF dict_inv_ok [OF inv]] by (auto simp: dictSize_def)
  obtain d1 where d1: "(if dictIsRehashing d then dictRehashStep hashFunction d else Some d) = Some d1"
    "same_entries hashFunction d d1" by (rule rehash_if_needed [OF dict_inv_ok [OF inv]]) blast
  have ok1: "dict_ok hashFunction d1" and it: "iterators d1 = iterators d" and
    m1: "mset (dict_entries d1) = mset (dict_entries d)" using d1(2) by (simp_all add: same_entries_def)
  have "insertable hashFunction d1" using nonempty_insertable [OF ok1] same_entries_nonempty [OF d1(2)] ne by blast
  then obtain r where r: "find_tables keyCompare d1 (hashFunction key) key = Some r" "found keyCompare d1 key r"
    by (rule find_tables_correct [OF dict_inv_same [OF inv d1(2)] _ key]) blast
  note f = found_map [OF dict_inv_same [OF inv d1(2)] key r(2)]
  note same = dict_map_same [OF inv d1(2)]
  note step = dictGenericDelete_def [of hashFunction keyCompare d key, unfolded if_not_P [OF False] d1(1)]
  show ?thesis
  proof (cases r)
    case None
    have no: "\<not> keyCompare k key \<or> dict_map keyCompare d k = None" if "valid k" for k
    proof -
      have "dict_map keyCompare d key = None" using f(1) None same [OF key] by simp
      moreover have "valid (fst e)" if "e \<in> set (dict_entries d)" for e
        using inv that by (simp add: dict_inv_def keys_ok_def)
      ultimately show ?thesis unfolding dict_map_None using that key cmp_trans cmp_sym by blast
    qed
    have "dictGenericDelete hashFunction keyCompare d key = Some (d1, None)" unfolding step using r(1) None by simp
    moreover have "dict_map keyCompare d key = None" using f(1) None same [OF key] by simp
    ultimately show ?thesis using dict_inv_same [OF inv d1(2)] it same no by auto
  next
    case (Some ref)
    obtain e where e: "deref d1 ref = Some e" "dict_map keyCompare d1 key = Some (snd e)" "keyCompare key (fst e)"
      using f(2) [OF Some] by blast
    obtain d' where d': "unlink d1 ref = Some d'" "dict_ok hashFunction d'" "iterators d' = iterators d1"
      "add_mset e (mset (dict_entries d')) = mset (dict_entries d1)" using unlink_correct [OF ok1 e(1)] by blast
    have "dictGenericDelete hashFunction keyCompare d key = Some (d', Some e)"
      unfolding step using r(1) Some e(1) d'(1) by simp
    moreover have "dict_map keyCompare d key = Some (snd e)" using e(2) same [OF key] by simp
    ultimately show ?thesis
      using dict_map_remove [OF inv key e(3) d'(2) d'(4) [unfolded m1]] d'(3) it
      by (intro exI [of _ d'] exI [of _ "Some e"]) simp
  qed
qed

lemma dictDelete_correct:
  assumes "dict_inv valid hashFunction keyCompare d" and "valid key"
  shows "\<exists>d'. dictDelete hashFunction keyCompare d key = Some (d', dict_map keyCompare d key \<noteq> None) \<and>
    dict_inv valid hashFunction keyCompare d' \<and> iterators d' = iterators d \<and>
    (\<forall>k. valid k \<longrightarrow> dict_map keyCompare d' k = (if keyCompare k key then None else dict_map keyCompare d k))"
proof -
  obtain d' r where "dictGenericDelete hashFunction keyCompare d key = Some (d', r)"
    "map_option snd r = dict_map keyCompare d key" "dict_inv valid hashFunction keyCompare d'" "iterators d' = iterators d"
    "\<forall>k. valid k \<longrightarrow> dict_map keyCompare d' k = (if keyCompare k key then None else dict_map keyCompare d k)"
    using dictGenericDelete_correct [OF assms] by blast
  moreover from this(2) have "r \<noteq> None \<longleftrightarrow> dict_map keyCompare d key \<noteq> None" by (metis option.map_disc_iff)
  ultimately show ?thesis by (simp add: dictDelete_def)
qed

end

section \<open>Emptying\<close>

lemma clear_loop_total: "ht_size t \<le> length (ht_table t) \<Longrightarrow> \<exists>n'. clear_loop t i n = Some n'"
proof (induction t i n rule: clear_loop.induct)
  case (1 t i n)
  then show ?case using bucket_Some [of i t] by (subst clear_loop.simps) auto
qed

lemma dictEmpty_correct:
  assumes "dict_ok hash d"
  shows "dictEmpty d = Some dictCreate"
proof -
  have "ht_size (ht0 d) \<le> length (ht_table (ht0 d))" "ht_size (ht1 d) \<le> length (ht_table (ht1 d))"
    using assms by (auto simp: dict_ok_def ht_ok_def ht_shape_def split: if_splits)
  then show ?thesis
    using clear_loop_total [of "ht0 d" 0 "ht_used (ht0 d)"] clear_loop_total [of "ht1 d" 0 "ht_used (ht1 d)"]
    by (auto simp: dictEmpty_def dictClear_def dictCreate_def)
qed

lemma dictCreate_inv: "dict_inv valid hash cmp dictCreate"
  by (simp add: dict_inv_def dict_ok_def dictCreate_def dictIsRehashing_def dict_entries_def keys_ok_def)

section \<open>Histories of operations\<close>

text \<open>
  The operations of the server on the key space, with their results, and the same operations
  on a map. The second ones know nothing of tables: \<open>RehashFor\<close>, \<open>RehashSteps\<close>, \<open>Shrink\<close> and
  \<open>Expand\<close> leave the map alone.
\<close>

datatype 'v dict_op = Add string 'v | Replace string 'v | Delete string | Unlink string | Fetch string
  | RehashSteps nat | RehashFor "nat \<Rightarrow> int" int | Shrink | Expand nat | Empty

datatype 'v dict_result = Done bool | Value "'v option" | Silent

definition run_op ::
  "bool \<Rightarrow> 8 word list \<Rightarrow> 'v \<Rightarrow> 'v dict_op \<Rightarrow> (string, 'v) dict \<Rightarrow> ((string, 'v) dict \<times> 'v dict_result) option" where
  "run_op can seed uninit op d =
     (let hash = dictSdsHash seed; cmp = dictSdsKeyCompare in
      case op of
        Add k v \<Rightarrow> do { (d, b) \<leftarrow> dictAdd can hash cmp uninit d k v; Some (d, Done b) }
      | Replace k v \<Rightarrow> do { (d, b) \<leftarrow> dictReplace can hash cmp uninit d k v; Some (d, Done b) }
      | Delete k \<Rightarrow> do { (d, b) \<leftarrow> dictDelete hash cmp d k; Some (d, Done b) }
      | Unlink k \<Rightarrow> do { (d, e) \<leftarrow> dictUnlink hash cmp d k; Some (d, Value (map_option snd e)) }
      | Fetch k \<Rightarrow> do { (d, v) \<leftarrow> dictFetchValue hash cmp d k; Some (d, Value v) }
      | RehashSteps n \<Rightarrow> do { (d, _) \<leftarrow> dictRehash hash d n; Some (d, Silent) }
      | RehashFor clock ms \<Rightarrow> do { (d, _) \<leftarrow> dictRehashMilliseconds hash clock d ms; Some (d, Silent) }
      | Shrink \<Rightarrow> Some (fst (dictResize can d), Silent)
      | Expand n \<Rightarrow> Some (fst (dictExpand d n), Silent)
      | Empty \<Rightarrow> do { d \<leftarrow> dictEmpty d; Some (d, Silent) })"

fun spec_op :: "'v dict_op \<Rightarrow> (string \<rightharpoonup> 'v) \<Rightarrow> (string \<rightharpoonup> 'v) \<times> 'v dict_result" where
  "spec_op (Add k v) m = (if m k = None then (m(k \<mapsto> v), Done True) else (m, Done False))"
| "spec_op (Replace k v) m = (m(k \<mapsto> v), Done (m k = None))"
| "spec_op (Delete k) m = (m(k := None), Done (m k \<noteq> None))"
| "spec_op (Unlink k) m = (m(k := None), Value (m k))"
| "spec_op (Fetch k) m = (m, Value (m k))"
| "spec_op Empty m = ((\<lambda>k. None), Silent)"
| "spec_op _ m = (m, Silent)"

text \<open>Keys are shorter than 2 GB, an explicit size is at most \<open>2 ^ 60\<close> and ten times the number of
  rehashing steps is an \<open>int\<close>.\<close>

fun op_ok :: "'v dict_op \<Rightarrow> bool" where
  "op_ok (Add k v) = sds_key k"
| "op_ok (Replace k v) = sds_key k"
| "op_ok (Delete k) = sds_key k"
| "op_ok (Unlink k) = sds_key k"
| "op_ok (Fetch k) = sds_key k"
| "op_ok (Expand n) = (n \<le> 2 ^ 60)"
| "op_ok (RehashSteps n) = (n * 10 < 2 ^ 31)"
| "op_ok _ = True"

primrec run_ops ::
  "bool \<Rightarrow> 8 word list \<Rightarrow> 'v \<Rightarrow> 'v dict_op list \<Rightarrow> (string, 'v) dict \<Rightarrow>
     ((string, 'v) dict \<times> 'v dict_result list) option" where
  "run_ops can seed uninit [] d = Some (d, [])"
| "run_ops can seed uninit (op # ops) d =
     do { (d, r) \<leftarrow> run_op can seed uninit op d;
          (d, rs) \<leftarrow> run_ops can seed uninit ops d;
          Some (d, r # rs) }"

primrec spec_ops :: "'v dict_op list \<Rightarrow> (string \<rightharpoonup> 'v) \<Rightarrow> (string \<rightharpoonup> 'v) \<times> 'v dict_result list" where
  "spec_ops [] m = (m, [])"
| "spec_ops (op # ops) m =
     (let (m, r) = spec_op op m; (m, rs) = spec_ops ops m in (m, r # rs))"

text \<open>The map of a dictionary whose keys are strings.\<close>

definition sds_inv_dict :: "8 word list \<Rightarrow> (string, 'v) dict \<Rightarrow> bool" where
  "sds_inv_dict seed d \<longleftrightarrow> dict_inv sds_key (dictSdsHash seed) dictSdsKeyCompare d"

definition key_map :: "(string, 'v) dict \<Rightarrow> string \<rightharpoonup> 'v" where
  "key_map d = map_of (dict_entries d)"

lemma find_map_of:
  assumes "\<forall>e \<in> set es. cmp k (fst e) \<longleftrightarrow> k = fst e"
  shows "map_option snd (find (\<lambda>e. cmp k (fst e)) es) = map_of es k"
  using assms by (induction es) auto

lemma sds_entries:
  assumes "sds_inv_dict seed d"
  shows "\<forall>e \<in> set (dict_entries d). sds_key (fst e)" and "distinct (map fst (dict_entries d))"
proof -
  have k: "keys_ok sds_key dictSdsKeyCompare (dict_entries d)" using assms by (simp add: sds_inv_dict_def dict_inv_def)
  then show v: "\<forall>e \<in> set (dict_entries d). sds_key (fst e)" by (simp add: keys_ok_def)
  have "inj_on fst (set (dict_entries d))"
  proof (rule inj_onI)
    fix a b assume ab: "a \<in> set (dict_entries d)" "b \<in> set (dict_entries d)" "fst a = fst b"
    then have "dictSdsKeyCompare (fst a) (fst b)" using v dictSdsKeyCompare_eq by blast
    then show "a = b" using k ab(1,2) unfolding keys_ok_def by (metis pairwiseD)
  qed
  then show "distinct (map fst (dict_entries d))" using k by (simp add: keys_ok_def distinct_map)
qed

lemma key_map_eq:
  assumes "sds_inv_dict seed d" and "sds_key k"
  shows "dict_map dictSdsKeyCompare d k = key_map d k"
  unfolding dict_map_def key_map_def
  by (rule find_map_of) (use sds_entries(1) [OF assms(1)] dictSdsKeyCompare_eq [OF assms(2)] in blast)

lemma key_map_None: "sds_inv_dict seed d \<Longrightarrow> \<not> sds_key k \<Longrightarrow> key_map d k = None"
  using sds_entries(1) by (force simp: key_map_def map_of_eq_None_iff)

lemma dictSize_key_map:
  assumes "sds_inv_dict seed d"
  shows "dictSize d = card (dom (key_map d))"
proof -
  have "card (dom (key_map d)) = length (map fst (dict_entries d))"
    using distinct_card [OF sds_entries(2) [OF assms]] by (simp add: key_map_def dom_map_of_conv_image_fst)
  then show ?thesis using length_dict_entries [of "dictSdsHash seed" d] assms by (simp add: sds_inv_dict_def dict_inv_def)
qed

text \<open>The facts of the locale, on strings and maps.\<close>

lemma key_map_ext:
  assumes "sds_inv_dict seed d" and "sds_inv_dict seed d'" and "sds_key key"
    and "\<forall>k. sds_key k \<longrightarrow> dict_map dictSdsKeyCompare d' k =
      (if dictSdsKeyCompare k key then v else dict_map dictSdsKeyCompare d k)"
  shows "key_map d' = (key_map d)(key := v)"
proof
  fix k
  show "key_map d' k = ((key_map d)(key := v)) k"
  proof (cases "sds_key k")
    case True
    then show ?thesis
      using assms(4) key_map_eq [OF assms(1) True] key_map_eq [OF assms(2) True] dictSdsKeyCompare_eq [OF True assms(3)]
      by (auto split: if_splits)
  next
    case False
    then show ?thesis using key_map_None [OF assms(1) False] key_map_None [OF assms(2) False] assms(3) by auto
  qed
qed

lemma key_map_same:
  assumes "sds_inv_dict seed d" and "same_entries (dictSdsHash seed) d d'"
  shows "sds_inv_dict seed d'" and "key_map d' = key_map d"
proof -
  show inv: "sds_inv_dict seed d'" using assms dict_inv_same by (auto simp: sds_inv_dict_def)
  have m: "mset (dict_entries d') = mset (dict_entries d)" using assms(2) by (simp add: same_entries_def)
  then show "key_map d' = key_map d"
    unfolding key_map_def using sds_entries(2) [OF inv] sds_entries(2) [OF assms(1)] mset_eq_setD [OF m]
    by (intro map_of_inject_set [THEN iffD2]) auto
qed

lemma key_map_create: "key_map dictCreate = (\<lambda>k. None)"
  by (simp add: key_map_def dictCreate_def dict_entries_def)

lemma sds_create: "sds_inv_dict seed dictCreate"
  by (simp add: sds_inv_dict_def dictCreate_inv)

text \<open>Every operation on the tables is the operation on the map.\<close>

lemma sds_ok: "sds_inv_dict seed d \<Longrightarrow> dict_ok (dictSdsHash seed) d"
  by (simp add: sds_inv_dict_def dict_inv_def)

lemma run_op_silent:
  assumes "sds_inv_dict seed d" and "same_entries (dictSdsHash seed) d d'" and "spec_op op (key_map d) = (key_map d, Silent)"
    and "run_op can seed uninit op d = Some (d', Silent)"
  shows "\<exists>d' r. run_op can seed uninit op d = Some (d', r) \<and> sds_inv_dict seed d' \<and>
    spec_op op (key_map d) = (key_map d', r)"
  using assms key_map_same [OF assms(1,2)] by simp

lemma run_op_update:
  assumes inv: "sds_inv_dict seed d" and small: "dictSize d < 2 ^ 59" and key: "sds_key k"
  shows "\<exists>d'. dictAdd can (dictSdsHash seed) dictSdsKeyCompare uninit d k v = Some (d', key_map d k = None) \<and>
      sds_inv_dict seed d' \<and> key_map d' = (if key_map d k = None then (key_map d)(k \<mapsto> v) else key_map d)"
    and "\<exists>d'. dictReplace can (dictSdsHash seed) dictSdsKeyCompare uninit d k v = Some (d', key_map d k = None) \<and>
      sds_inv_dict seed d' \<and> key_map d' = (key_map d)(k \<mapsto> v)"
    and "\<exists>d'. dictDelete (dictSdsHash seed) dictSdsKeyCompare d k = Some (d', key_map d k \<noteq> None) \<and>
      sds_inv_dict seed d' \<and> key_map d' = (key_map d)(k := None)"
    and "\<exists>d' e. dictUnlink (dictSdsHash seed) dictSdsKeyCompare d k = Some (d', e) \<and> map_option snd e = key_map d k \<and>
      sds_inv_dict seed d' \<and> key_map d' = (key_map d)(k := None)"
    and "\<exists>d'. dictFetchValue (dictSdsHash seed) dictSdsKeyCompare d k = Some (d', key_map d k) \<and>
      sds_inv_dict seed d' \<and> key_map d' = key_map d"
proof -
  note I = inv [unfolded sds_inv_dict_def]
  note km = key_map_eq [OF inv key]
  obtain d1 where d1: "dictAdd can (dictSdsHash seed) dictSdsKeyCompare uninit d k v = Some (d1, key_map d k = None)"
    "sds_inv_dict seed d1"
    "\<forall>k'. sds_key k' \<longrightarrow> dict_map dictSdsKeyCompare d1 k' =
       (if dictSdsKeyCompare k' k \<and> key_map d k = None then Some v else dict_map dictSdsKeyCompare d k')"
    using sds_keys.dictAdd_correct [OF I key small, of can uninit v] unfolding sds_inv_dict_def km by blast
  have "key_map d1 = (if key_map d k = None then (key_map d)(k \<mapsto> v) else key_map d)"
  proof (cases "key_map d k = None")
    case True
    then show ?thesis using key_map_ext [OF inv d1(2) key, of "Some v"] d1(3) by simp
  next
    case False
    then have "key_map d1 = (key_map d)(k := key_map d k)"
      using key_map_ext [OF inv d1(2) key, of "key_map d k"] d1(3) dictSdsKeyCompare_eq key km by force
    then show ?thesis unfolding if_not_P [OF False] by simp
  qed
  with d1 show "\<exists>d'. dictAdd can (dictSdsHash seed) dictSdsKeyCompare uninit d k v = Some (d', key_map d k = None) \<and>
      sds_inv_dict seed d' \<and> key_map d' = (if key_map d k = None then (key_map d)(k \<mapsto> v) else key_map d)" by blast
  show "\<exists>d'. dictReplace can (dictSdsHash seed) dictSdsKeyCompare uninit d k v = Some (d', key_map d k = None) \<and>
      sds_inv_dict seed d' \<and> key_map d' = (key_map d)(k \<mapsto> v)"
    using sds_keys.dictReplace_correct [OF I key small, of can uninit v] key_map_ext [OF inv _ key]
    unfolding km sds_inv_dict_def by blast
  show "\<exists>d'. dictDelete (dictSdsHash seed) dictSdsKeyCompare d k = Some (d', key_map d k \<noteq> None) \<and>
      sds_inv_dict seed d' \<and> key_map d' = (key_map d)(k := None)"
    using sds_keys.dictDelete_correct [OF I key] key_map_ext [OF inv _ key]
    unfolding km sds_inv_dict_def by blast
  show "\<exists>d' e. dictUnlink (dictSdsHash seed) dictSdsKeyCompare d k = Some (d', e) \<and> map_option snd e = key_map d k \<and>
      sds_inv_dict seed d' \<and> key_map d' = (key_map d)(k := None)"
    using sds_keys.dictGenericDelete_correct [OF I key] key_map_ext [OF inv _ key]
    unfolding km sds_inv_dict_def dictUnlink_def by blast
  show "\<exists>d'. dictFetchValue (dictSdsHash seed) dictSdsKeyCompare d k = Some (d', key_map d k) \<and>
      sds_inv_dict seed d' \<and> key_map d' = key_map d"
    using sds_keys.dictFetchValue_correct [OF I key] key_map_same [OF inv] unfolding km by blast
qed

lemma run_op_correct:
  assumes inv: "sds_inv_dict seed d" and small: "dictSize d < 2 ^ 59" and op: "op_ok op"
  shows "\<exists>d' r. run_op can seed uninit op d = Some (d', r) \<and> sds_inv_dict seed d' \<and>
    spec_op op (key_map d) = (key_map d', r)"
proof (cases op)
  case (Add k v)
  then obtain d' where "dictAdd can (dictSdsHash seed) dictSdsKeyCompare uninit d k v = Some (d', key_map d k = None)"
    "sds_inv_dict seed d'" "key_map d' = (if key_map d k = None then (key_map d)(k \<mapsto> v) else key_map d)"
    using run_op_update(1) [OF inv small] op by fastforce
  then show ?thesis using Add by (simp add: run_op_def)
next
  case (Replace k v)
  then show ?thesis using run_op_update(2) [OF inv small, of k can uninit v] op by (auto simp: run_op_def)
next
  case (Delete k)
  then show ?thesis using run_op_update(3) [OF inv small, of k] op by (auto simp: run_op_def)
next
  case (Unlink k)
  then obtain d' e where "dictUnlink (dictSdsHash seed) dictSdsKeyCompare d k = Some (d', e)" "map_option snd e = key_map d k"
    "sds_inv_dict seed d'" "key_map d' = (key_map d)(k := None)" using run_op_update(4) [OF inv small, of k] op by auto
  then show ?thesis using Unlink by (simp add: run_op_def)
next
  case (Fetch k)
  then show ?thesis using run_op_update(5) [OF inv small, of k] op by (auto simp: run_op_def)
next
  case (RehashSteps n)
  obtain d' more where "dictRehash (dictSdsHash seed) d n = Some (d', more)" "same_entries (dictSdsHash seed) d d'"
    using RehashSteps op by (auto intro: dictRehash_correct [OF sds_ok [OF inv], of n])
  then show ?thesis using RehashSteps by (intro run_op_silent [OF inv]) (simp_all add: run_op_def)
next
  case (RehashFor clock ms)
  obtain d' n where "dictRehashMilliseconds (dictSdsHash seed) clock d ms = Some (d', n)" "same_entries (dictSdsHash seed) d d'"
    unfolding dictRehashMilliseconds_def using rehash_ms_loop_correct [OF sds_ok [OF inv]] by blast
  then show ?thesis using RehashFor by (intro run_op_silent [OF inv]) (simp_all add: run_op_def)
next
  case Shrink
  then show ?thesis by (intro run_op_silent [OF inv dictResize_correct [OF sds_ok [OF inv]]]) (simp_all add: run_op_def)
next
  case (Expand n)
  then show ?thesis using op
    by (intro run_op_silent [OF inv dictExpand_correct(1) [OF sds_ok [OF inv], of n]]) (simp_all add: run_op_def)
next
  case Empty
  have "run_op can seed uninit op d = Some (dictCreate, Silent)"
    using Empty dictEmpty_correct [OF sds_ok [OF inv]] by (simp add: run_op_def)
  then show ?thesis using Empty by (simp add: key_map_create sds_create)
qed

lemma spec_op_dom:
  assumes "finite (dom m)"
  shows "finite (dom (fst (spec_op op m)))" and "card (dom (fst (spec_op op m))) \<le> Suc (card (dom m))"
proof -
  have "card (dom m - {k}) \<le> Suc (card (dom m))" for k using card_Diff1_le [of "dom m" k] by linarith
  then have "finite (dom (fst (spec_op op m))) \<and> card (dom (fst (spec_op op m))) \<le> Suc (card (dom m))"
    using assms by (cases op) (auto simp: card_insert_if dom_def [of "\<lambda>k. None"])
  then show "finite (dom (fst (spec_op op m)))" and "card (dom (fst (spec_op op m))) \<le> Suc (card (dom m))" by auto
qed

lemma run_ops_correct:
  assumes "sds_inv_dict seed d" and "list_all op_ok ops" and "card (dom (key_map d)) + length ops < 2 ^ 59"
  shows "\<exists>d'. run_ops can seed uninit ops d = Some (d', snd (spec_ops ops (key_map d))) \<and> sds_inv_dict seed d' \<and>
    key_map d' = fst (spec_ops ops (key_map d))"
  using assms
proof (induction ops arbitrary: d)
  case Nil
  then show ?case by simp
next
  case (Cons op ops)
  have "dictSize d < 2 ^ 59" using dictSize_key_map [OF Cons.prems(1)] Cons.prems(3) by simp
  then obtain d1 r where d1: "run_op can seed uninit op d = Some (d1, r)" "sds_inv_dict seed d1"
    "spec_op op (key_map d) = (key_map d1, r)" using run_op_correct [OF Cons.prems(1)] Cons.prems(2) by fastforce
  have "finite (dom (key_map d))" by (simp add: key_map_def finite_dom_map_of)
  then have "card (dom (key_map d1)) \<le> Suc (card (dom (key_map d)))" using spec_op_dom(2) [of "key_map d" op] d1(3) by simp
  then obtain d' where "run_ops can seed uninit ops d1 = Some (d', snd (spec_ops ops (key_map d1)))" "sds_inv_dict seed d'"
    "key_map d' = fst (spec_ops ops (key_map d1))" using Cons.IH [OF d1(2)] Cons.prems(2,3) by fastforce
  then show ?case using d1(1,3) by (simp add: case_prod_beta)
qed


section \<open>Properties\<close>

text \<open>
  C3: Any history of \<open>dictAdd\<close>, \<open>dictReplace\<close>, \<open>dictDelete\<close>, \<open>dictUnlink\<close>, \<open>dictFetchValue\<close>,
  \<open>dictEmpty\<close>, resizes and rehashing steps on the key space returns what the same history returns
  on a map, never accesses memory outside of the tables, and keeps the invariant of the tables. Sizes
  asked for explicitly are at most \<open>2 ^ 60\<close> and there are less than \<open>2 ^ 59\<close> operations: the byte size of
  a larger table does not fit a \<open>size_t\<close>.
\<close>

theorem dict_refines_map:
  assumes "list_all op_ok ops" and "length ops < 2 ^ 59"
  shows "\<exists>d. run_ops can seed uninit ops dictCreate = Some (d, snd (spec_ops ops (\<lambda>k. None))) \<and>
    sds_inv_dict seed d \<and> key_map d = fst (spec_ops ops (\<lambda>k. None))"
  using run_ops_correct [OF sds_create [of seed], of ops can uninit] assms by (simp add: key_map_create)

theorem dict_refines_map_witness:
  "\<exists>d. run_ops True (replicate 16 7) (0 :: nat)
     [Add ''a'' 1, Add ''b'' 2, Add ''a'' 3, Fetch ''a'', Delete ''b'', Fetch ''b'', Replace ''a'' 4, Unlink ''a''] dictCreate =
     Some (d, [Done True, Done True, Done False, Value (Some 1), Done True, Value None, Done False, Value (Some 4)])"
  using dict_refines_map [of "[Add ''a'' 1, Add ''b'' 2, Add ''a'' 3, Fetch ''a'', Delete ''b'', Fetch ''b'',
      Replace ''a'' 4, Unlink ''a''] :: nat dict_op list" True "replicate 16 7" 0]
  by (auto simp: sds_key_def Let_def)

text \<open>
  C23: A call of \<open>dictRehash\<close> with as many steps as the old table has buckets left completes an
  incremental rehashing: it answers that no work is left, and all the entries are in the one
  table that remains.
\<close>

theorem dictRehash_finishes:
  assumes "dict_ok hash d" and "0 < n" and "int (ht_size (ht0 d)) - rehashidx d \<le> int n" and "n * 10 < 2 ^ 31"
  shows "\<exists>d'. dictRehash hash d n = Some (d', False) \<and> \<not> dictIsRehashing d' \<and> dict_ok hash d' \<and>
    mset (entries (ht0 d')) = mset (dict_entries d)"
proof -
  have "ht_size (ht0 d) = length (ht_table (ht0 d))"
    using assms(1) by (auto simp: dict_ok_def ht_ok_def ht_shape_def split: if_splits)
  then obtain d' where d': "dictRehash hash d n = Some (d', False)" "same_entries hash d d'" "\<not> dictIsRehashing d'"
    using dictRehash_correct [OF assms(1,4)] assms(2,3) by metis
  moreover have "dict_ok hash d'" using d'(2) by (simp add: same_entries_def)
  moreover have "dict_entries d' = entries (ht0 d')" by (rule dict_ok_ht0(6) [OF \<open>dict_ok hash d'\<close> d'(3)])
  ultimately show ?thesis by (auto simp: same_entries_def)
qed

definition rehashing_example :: "(nat, nat) dict" where
  "rehashing_example =
     \<lparr>ht0 = \<lparr>ht_table = [[(0, 5), (2, 6)], []], ht_size = 2, ht_sizemask = 1, ht_used = 2\<rparr>,
      ht1 = \<lparr>ht_table = [[], [(1, 7)], [], []], ht_size = 4, ht_sizemask = 3, ht_used = 1\<rparr>,
      rehashidx = 0, iterators = 0\<rparr>"

lemma rehashing_example_ok: "dict_ok of_nat rehashing_example"
proof -
  have "ht_shape (ht0 rehashing_example)" "ht_shape (ht1 rehashing_example)"
    by (auto simp: rehashing_example_def ht_shape_def mask_eq_exp_minus_1 intro: exI [of _ 1] exI [of _ 2])
  then show ?thesis
    by (simp add: dict_ok_def dictIsRehashing_def ht_ok_def ht_placed_def entries_def rehashing_example_def
        index_of_def less_Suc_eq numeral_eq_Suc)
qed

theorem dictRehash_finishes_witness:
  "\<exists>d'. dictRehash of_nat rehashing_example 2 = Some (d', False) \<and> \<not> dictIsRehashing d' \<and>
     mset (entries (ht0 d')) = {#(0, 5), (2, 6), (1, 7)#}"
  using dictRehash_finishes [OF rehashing_example_ok, of 2]
  by (auto simp: rehashing_example_def dict_entries_def entries_def)

text \<open>
  \<open>dictRehashMilliseconds\<close> returns, whatever the clock shows (even if it never moves), and
  neither loses nor duplicates an entry.
\<close>

theorem dictRehashMilliseconds_returns:
  assumes "dict_ok hash d"
  shows "\<exists>d' rehashes. dictRehashMilliseconds hash clock d ms = Some (d', rehashes) \<and> dict_ok hash d' \<and>
    mset (dict_entries d') = mset (dict_entries d)"
  using rehash_ms_loop_correct [OF assms, of clock 1 "clock 0" ms 0]
  by (auto simp: dictRehashMilliseconds_def same_entries_def)

theorem dictRehashMilliseconds_returns_witness:
  "\<exists>d' rehashes. dictRehashMilliseconds of_nat (\<lambda>i. 0) rehashing_example 1 = Some (d', rehashes) \<and>
     mset (dict_entries d') = {#(0, 5), (2, 6), (1, 7)#}"
  using dictRehashMilliseconds_returns [OF rehashing_example_ok, of "\<lambda>i. 0" 1]
  by (auto simp: rehashing_example_def dict_entries_def entries_def)



end
