(* ===== verification/Dict_Scan.thy ===== *)
theory Dict_Scan
  imports Dict_Map
begin

text \<open>
  Walking over a dictionary. \<open>dictNext\<close> visits every entry of an unchanged dictionary once, in
  the order of the tables. \<open>dictScan\<close> is the stateless scan behind \<open>SCAN\<close>: it counts its cursor up
  in reversed bit order, and visits every key that stays in the dictionary even when the
  tables are resized and rehashed between its calls.
\<close>

section \<open>Bit reversal\<close>

text \<open>One step of \<open>rev\<close> exchanges blocks of \<open>s\<close> bits.\<close>

definition swap_index :: "nat \<Rightarrow> nat \<Rightarrow> nat" where
  "swap_index s j = (if even (j div s) then j + s else j - s)"

definition rev_step :: "nat \<Rightarrow> 64 word \<Rightarrow> 64 word \<Rightarrow> 64 word" where
  "rev_step s mk v = (drop_bit s v AND mk) OR (push_bit s v AND NOT mk)"

lemma bit_swap:
  fixes v mk :: "64 word"
  assumes "\<forall>j < 64. bit mk j \<longleftrightarrow> even (j div s)" and "\<forall>j < 64. swap_index s j < 64" and "j < 64" and "0 < s"
  shows "bit (rev_step s mk v) j = bit v (swap_index s j)"
proof (cases "even (j div s)")
  case True
  then show ?thesis using assms by (simp add: rev_step_def bit_simps swap_index_def add.commute)
next
  case False
  then have "s \<le> j" using assms(4) by (metis div_less even_zero not_less)
  then show ?thesis using assms False by (simp add: rev_step_def bit_simps swap_index_def)
qed

lemma all_less_64: "(\<forall>j < 64. P j) \<longleftrightarrow> list_all P [0..<64]"
  by (auto simp: list_all_iff)

lemma rev_loop_step:
  assumes "mk XOR push_bit s' mk = mk'" and "s div 2 = s'" and "s' \<noteq> 0"
  shows "rev_loop s mk v = rev_loop s' mk' (rev_step s' mk' v)"
  unfolding rev_step_def using assms by (simp add: rev_loop.simps [of s] Let_def)

lemma rev_loop_1: "rev_loop 1 mk v = v"
  by (subst rev_loop.simps) simp

lemma mask_steps:
  "NOT 0 XOR push_bit 32 (NOT 0) = (0x00000000FFFFFFFF :: 64 word)"
  "0x00000000FFFFFFFF XOR push_bit 16 0x00000000FFFFFFFF = (0x0000FFFF0000FFFF :: 64 word)"
  "0x0000FFFF0000FFFF XOR push_bit 8 0x0000FFFF0000FFFF = (0x00FF00FF00FF00FF :: 64 word)"
  "0x00FF00FF00FF00FF XOR push_bit 4 0x00FF00FF00FF00FF = (0x0F0F0F0F0F0F0F0F :: 64 word)"
  "0x0F0F0F0F0F0F0F0F XOR push_bit 2 0x0F0F0F0F0F0F0F0F = (0x3333333333333333 :: 64 word)"
  "0x3333333333333333 XOR push_bit 1 0x3333333333333333 = (0x5555555555555555 :: 64 word)"
  by code_simp+

lemma rev64_steps:
  "rev64 v = rev_step 1 0x5555555555555555 (rev_step 2 0x3333333333333333 (rev_step 4 0x0F0F0F0F0F0F0F0F
     (rev_step 8 0x00FF00FF00FF00FF (rev_step 16 0x0000FFFF0000FFFF (rev_step 32 0x00000000FFFFFFFF v)))))"
proof -
  note steps = rev_loop_step [OF mask_steps(1), of 64] rev_loop_step [OF mask_steps(2), of 32]
    rev_loop_step [OF mask_steps(3), of 16] rev_loop_step [OF mask_steps(4), of 8]
    rev_loop_step [OF mask_steps(5), of 4] rev_loop_step [OF mask_steps(6), of 2]
  have "(64::nat) div 2 = 32" "(32::nat) div 2 = 16" "(16::nat) div 2 = 8" "(8::nat) div 2 = 4" "(4::nat) div 2 = 2"
    "(2::nat) div 2 = 1" by simp_all
  then show ?thesis unfolding rev64_def
    by (simp only: steps rev_loop_1 zero_neq_numeral [symmetric] zero_neq_one [symmetric] not_False_eq_True)
qed

lemma masks:
  "\<forall>j < 64. bit (0x5555555555555555 :: 64 word) j \<longleftrightarrow> even (j div 1)"
  "\<forall>j < 64. bit (0x3333333333333333 :: 64 word) j \<longleftrightarrow> even (j div 2)"
  "\<forall>j < 64. bit (0x0F0F0F0F0F0F0F0F :: 64 word) j \<longleftrightarrow> even (j div 4)"
  "\<forall>j < 64. bit (0x00FF00FF00FF00FF :: 64 word) j \<longleftrightarrow> even (j div 8)"
  "\<forall>j < 64. bit (0x0000FFFF0000FFFF :: 64 word) j \<longleftrightarrow> even (j div 16)"
  "\<forall>j < 64. bit (0x00000000FFFFFFFF :: 64 word) j \<longleftrightarrow> even (j div 32)"
  unfolding all_less_64 by code_simp+

lemma swaps:
  "\<forall>j < 64. swap_index 1 j < 64" "\<forall>j < 64. swap_index 2 j < 64" "\<forall>j < 64. swap_index 4 j < 64"
  "\<forall>j < 64. swap_index 8 j < 64" "\<forall>j < 64. swap_index 16 j < 64" "\<forall>j < 64. swap_index 32 j < 64"
  unfolding all_less_64 by code_simp+

text \<open>After the steps up to \<open>s\<close> every block of \<open>2 * s\<close> bits is reversed.\<close>

definition block_rev :: "nat \<Rightarrow> nat \<Rightarrow> nat" where
  "block_rev n j = j div n * n + (n - 1 - j mod n)"

lemma block_steps:
  "\<forall>j < 64. swap_index 1 j = block_rev 2 j" "\<forall>j < 64. swap_index 2 (block_rev 2 j) = block_rev 4 j"
  "\<forall>j < 64. swap_index 4 (block_rev 4 j) = block_rev 8 j" "\<forall>j < 64. swap_index 8 (block_rev 8 j) = block_rev 16 j"
  "\<forall>j < 64. swap_index 16 (block_rev 16 j) = block_rev 32 j" "\<forall>j < 64. swap_index 32 (block_rev 32 j) = 63 - j"
  unfolding all_less_64 by code_simp+

lemma swaps_reverse:
  "j < 64 \<Longrightarrow> swap_index 32 (swap_index 16 (swap_index 8 (swap_index 4 (swap_index 2 (swap_index 1 j))))) = 63 - j"
  using block_steps by simp

lemma bit_rev64:
  assumes "j < 64"
  shows "bit (rev64 v) j \<longleftrightarrow> bit v (63 - j)"
proof -
  have lt: "swap_index 1 j < 64" "swap_index 2 (swap_index 1 j) < 64" "swap_index 4 (swap_index 2 (swap_index 1 j)) < 64"
    "swap_index 8 (swap_index 4 (swap_index 2 (swap_index 1 j))) < 64"
    "swap_index 16 (swap_index 8 (swap_index 4 (swap_index 2 (swap_index 1 j)))) < 64"
    using assms swaps by blast+
  show ?thesis unfolding rev64_steps
      bit_swap [OF masks(1) swaps(1) assms zero_less_one] bit_swap [OF masks(2) swaps(2) lt(1) zero_less_numeral]
      bit_swap [OF masks(3) swaps(3) lt(2) zero_less_numeral] bit_swap [OF masks(4) swaps(4) lt(3) zero_less_numeral]
      bit_swap [OF masks(5) swaps(5) lt(4) zero_less_numeral] bit_swap [OF masks(6) swaps(6) lt(5) zero_less_numeral]
    using swaps_reverse assms by simp
qed

lemma rev64_rev64: "rev64 (rev64 v) = v"
proof (rule bit_word_eqI)
  fix j assume "j < LENGTH(64)"
  then have j: "j < 64" "63 - j < 64" by simp_all
  show "bit (rev64 (rev64 v)) j \<longleftrightarrow> bit v j" using j by (simp add: bit_rev64)
qed

text \<open>The position of a hash or cursor in the order of the scan.\<close>

definition rpos :: "64 word \<Rightarrow> nat" where
  "rpos v = unat (rev64 v)"

lemma rpos_less: "rpos v < 2 ^ 64"
  unfolding rpos_def using unsigned_less [of "rev64 v"] by simp

lemma bit_rpos: "bit (rpos v) j \<longleftrightarrow> j < 64 \<and> bit v (63 - j)"
  by (cases "j < 64") (auto simp: rpos_def bit_unsigned_iff bit_rev64 dest: bit_imp_le_length)

lemma rpos_rev64: "rpos (rev64 w) = unat w"
  by (simp add: rpos_def rev64_rev64)

lemma rpos_0: "rpos v = 0 \<longleftrightarrow> v = 0"
proof
  assume "rpos v = 0"
  then have "rev64 v = 0" by (simp add: rpos_def unsigned_eq_0_iff)
  then have "v = rev64 0" using rev64_rev64 [of v] by simp
  also have "rev64 0 = 0" by (rule bit_word_eqI) (simp add: bit_rev64)
  finally show "v = 0" .
next
  have "rev64 0 = 0" by (rule bit_word_eqI) (simp add: bit_rev64)
  then show "v = 0 \<Longrightarrow> rpos v = 0" by (simp add: rpos_def)
qed

text \<open>Two words select the same bucket of a table of \<open>2 ^ k\<close> buckets if and only if their positions
  agree in the highest \<open>k\<close> bits.\<close>

lemma bit_drop_rpos:
  assumes "k < 64"
  shows "bit (drop_bit (64 - k) (rpos v)) n \<longleftrightarrow> n < k \<and> bit v (k - 1 - n)"
proof -
  have "bit (drop_bit (64 - k) (rpos v)) n \<longleftrightarrow> bit (rpos v) (64 - k + n)" by (simp add: bit_drop_bit_eq)
  also have "\<dots> \<longleftrightarrow> 64 - k + n < 64 \<and> bit v (63 - (64 - k + n))" by (rule bit_rpos)
  also have "63 - (64 - k + n) = k - 1 - n" using assms by linarith
  also have "64 - k + n < 64 \<longleftrightarrow> n < k" using assms by linarith
  finally show ?thesis .
qed

lemma bit_and_mask: "bit (v AND mask k :: 64 word) n \<longleftrightarrow> bit v n \<and> n < k"
  by (auto simp: bit_and_iff bit_mask_iff dest: bit_imp_le_length)

lemma bucket_rpos:
  assumes "k < 64"
  shows "h AND mask k = v AND mask k \<longleftrightarrow> rpos h div 2 ^ (64 - k) = rpos v div 2 ^ (64 - k)"
  unfolding drop_bit_eq_div [symmetric]
proof
  assume eq: "h AND mask k = v AND mask k"
  have "bit h n = bit v n" if "n < k" for n using arg_cong [OF eq, of "\<lambda>w. bit w n"] that by (simp add: bit_and_mask)
  then show "drop_bit (64 - k) (rpos h) = drop_bit (64 - k) (rpos v)"
    by (intro bit_eqI) (auto simp: bit_drop_rpos [OF assms])
next
  assume eq: "drop_bit (64 - k) (rpos h) = drop_bit (64 - k) (rpos v)"
  have "bit h n = bit v n" if "n < k" for n
    using arg_cong [OF eq, of "\<lambda>w. bit w (k - 1 - n)"] that by (simp add: bit_drop_rpos [OF assms])
  then show "h AND mask k = v AND mask k" by (intro bit_eqI) (auto simp: bit_and_mask)
qed

lemma unat_or_mask:
  fixes w :: "64 word"
  assumes "n \<le> 64"
  shows "unat (w OR mask n) = unat w div 2 ^ n * 2 ^ n + (2 ^ n - 1)"
proof -
  have "drop_bit n (unat (w OR mask n)) = drop_bit n (unat w)"
    by (rule bit_eqI) (simp add: bit_simps)
  moreover have "take_bit n (unat (w OR mask n)) = mask n"
    by (rule bit_eqI) (use assms in \<open>auto simp: bit_simps\<close>)
  ultimately show ?thesis
    by (metis div_mult_mod_eq drop_bit_eq_div mask_eq_exp_minus_1 take_bit_eq_mod)
qed

text \<open>One increment of the cursor moves its position to the start of the next bucket.\<close>

lemma rpos_scan_next:
  assumes "k < 64"
  shows "rpos (scan_next (mask k) v) = (rpos v div 2 ^ (64 - k) + 1) * 2 ^ (64 - k) mod 2 ^ 64"
proof -
  have "rev64 (v OR NOT (mask k)) = rev64 v OR mask (64 - k)"
    by (rule bit_word_eqI) (use assms in \<open>auto simp: bit_rev64 bit_simps\<close>)
  then have "rpos (scan_next (mask k) v) = unat ((rev64 v OR mask (64 - k)) + 1)"
    by (simp add: scan_next_def Let_def rpos_rev64)
  also have "\<dots> = (unat (rev64 v OR mask (64 - k)) + 1) mod 2 ^ 64"
    by (simp add: unat_word_ariths)
  also have "unat (rev64 v OR mask (64 - k)) + 1 = (rpos v div 2 ^ (64 - k) + 1) * 2 ^ (64 - k)"
    by (simp add: unat_or_mask rpos_def)
  finally show ?thesis .
qed

lemma masked_zero:
  assumes "k0 \<le> k1" and "k1 < 64"
  shows "v AND (mask k0 XOR mask k1) = 0 \<longleftrightarrow> rpos v div 2 ^ (64 - k1) mod 2 ^ (k1 - k0) = 0"
proof -
  have z: "bit (v AND (mask k0 XOR mask k1)) j \<longleftrightarrow> bit v j \<and> k0 \<le> j \<and> j < k1" for j
    using assms by (auto simp: bit_and_iff bit_xor_iff bit_mask_iff dest: bit_imp_le_length)
  have t: "bit (take_bit (k1 - k0) (drop_bit (64 - k1) (rpos v))) i \<longleftrightarrow> i < k1 - k0 \<and> bit v (k1 - 1 - i)" for i
    using bit_drop_rpos [OF assms(2)] by (auto simp: bit_take_bit_iff)
  have "v AND (mask k0 XOR mask k1) = 0 \<longleftrightarrow> take_bit (k1 - k0) (drop_bit (64 - k1) (rpos v)) = 0"
  proof
    assume eq: "v AND (mask k0 XOR mask k1) = 0"
    have "\<not> bit v j" if "k0 \<le> j" "j < k1" for j using z [of j] that unfolding eq by simp
    then show "take_bit (k1 - k0) (drop_bit (64 - k1) (rpos v)) = 0" by (intro bit_eqI) (simp add: t)
  next
    assume eq: "take_bit (k1 - k0) (drop_bit (64 - k1) (rpos v)) = 0"
    have "\<not> bit v j" if "k0 \<le> j" "j < k1" for j using t [of "k1 - 1 - j"] that unfolding eq by simp
    then show "v AND (mask k0 XOR mask k1) = 0" by (intro bit_eqI) (simp add: z, blast)
  qed
  then show ?thesis by (simp add: drop_bit_eq_div take_bit_eq_mod)
qed

section \<open>One call of the scan\<close>

lemma filter_concat_nth:
  assumes "\<And>j e. j < length xss \<Longrightarrow> e \<in> set (xss ! j) \<Longrightarrow> f e = j" and "i < length xss"
  shows "filter (\<lambda>e. f e = i) (concat xss) = xss ! i"
proof -
  have "filter (\<lambda>e. f e = i) (concat yss) = []"
    if "\<And>ys. ys \<in> set yss \<Longrightarrow> \<exists>j < length xss. j \<noteq> i \<and> ys = xss ! j" for yss
    using that assms(1) by (fastforce simp: filter_empty_conv)
  moreover have "\<exists>j < length xss. j \<noteq> i \<and> ys = xss ! j" if "ys \<in> set (take i xss)" for ys
    using that unfolding in_set_conv_nth by force
  moreover have "\<exists>j < length xss. j \<noteq> i \<and> ys = xss ! j" if y: "ys \<in> set (drop (Suc i) xss)" for ys
  proof -
    obtain m where "m < length (drop (Suc i) xss)" "ys = drop (Suc i) xss ! m" using y unfolding in_set_conv_nth by blast
    then show ?thesis by (intro exI [of _ "Suc i + m"]) simp
  qed
  ultimately have "filter (\<lambda>e. f e = i) (concat (take i xss)) = []" "filter (\<lambda>e. f e = i) (concat (drop (Suc i) xss)) = []"
    by (meson, meson)
  moreover have "filter (\<lambda>e. f e = i) (xss ! i) = xss ! i" using assms by (simp add: filter_id_conv)
  moreover have "concat xss = concat (take i xss) @ xss ! i @ concat (drop (Suc i) xss)"
    by (subst id_take_nth_drop [OF assms(2)]) simp
  ultimately show ?thesis by simp
qed

lemma filter_mset_split:
  assumes "\<And>x. R x \<longleftrightarrow> P x \<or> Q x" and "\<And>x. \<not> (P x \<and> Q x)"
  shows "filter_mset R M = filter_mset P M + filter_mset Q M"
  using assms by (induction M) auto

lemma bucket_covers:
  assumes ok: "ht_ok hash t" and k: "k < 64" "ht_sizemask t = mask k"
  obtains b where "bucket t (index_of v t) = Some b"
    and "mset b = filter_mset (\<lambda>e. rpos (hash (fst e)) div 2 ^ (64 - k) = rpos v div 2 ^ (64 - k)) (mset (entries t))"
proof -
  define i where "i = index_of v t"
  have i: "i < length (ht_table t)" using ok index_bound by (auto simp: i_def ht_ok_def)
  have same: "index_of (hash (fst e)) t = i \<longleftrightarrow> rpos (hash (fst e)) div 2 ^ (64 - k) = rpos v div 2 ^ (64 - k)" for e :: "'a \<times> 'b"
    unfolding i_def index_of_def k(2) bucket_rpos [OF k(1), symmetric] by (rule word_unat_eq_iff [symmetric])
  have pl: "ht_placed hash t" using ok by (simp add: ht_ok_def)
  have "filter (\<lambda>e. index_of (hash (fst e)) t = i) (entries t) = ht_table t ! i"
    unfolding entries_def using pl i by (intro filter_concat_nth) (auto simp: ht_placed_def)
  then have "mset (ht_table t ! i) = filter_mset (\<lambda>e. index_of (hash (fst e)) t = i) (mset (entries t))"
    by (metis mset_filter)
  then show ?thesis using that [of "ht_table t ! i"] bucket_Some [OF i] unfolding same by (simp add: i_def)
qed

text \<open>Arithmetic of the positions: \<open>q\<close> is the bucket of the larger table and \<open>P\<close> the number of
  its buckets for each bucket of the smaller one.\<close>

lemma next_in_block:
  fixes q P :: nat
  assumes "q mod P + 1 < P"
  shows "(q + 1) mod P = q mod P + 1" and "(q + 1) div P = q div P"
  using assms by (simp_all add: mod_Suc div_Suc)

lemma next_block:
  fixes q P :: nat
  assumes "\<not> q mod P + 1 < P" and "0 < P"
  shows "q + 1 = (q div P + 1) * P"
proof -
  have "q mod P = P - 1" using assms mod_less_divisor [OF assms(2), of q] by linarith
  then have "q + 1 = q div P * P + (P - 1) + 1" using div_mult_mod_eq [of q P] by linarith
  then show ?thesis using assms(2) by (simp add: algebra_simps)
qed

lemma last_of_block:
  fixes q x P :: nat
  assumes "\<not> q mod P + 1 < P" and "0 < P" and "q \<le> x" and "x div P = q div P"
  shows "x = q"
proof -
  have "x < (x div P + 1) * P" using assms(2) dividend_less_div_times [of P x] by (simp add: algebra_simps)
  then show ?thesis using next_block [OF assms(1,2)] assms(3,4) by simp
qed

lemma pow_split: "k0 \<le> k1 \<Longrightarrow> k1 < 64 \<Longrightarrow> (2::nat) ^ (64 - k0) = 2 ^ (64 - k1) * 2 ^ (k1 - k0)"
  by (simp flip: power_add)

lemma pow_64: "k < 64 \<Longrightarrow> (2::nat) ^ 64 = 2 ^ k * 2 ^ (64 - k)"
  by (simp flip: power_add)

lemma mod_block:
  fixes m n a :: nat
  assumes "a \<le> m" and "0 < n"
  shows "a * n mod (m * n) div n = (if a = m then 0 else a)"
  using assms by (simp add: mult_mod_left)

lemma scan_large_correct:
  assumes ok: "ht_ok hash t" and k: "k0 \<le> k1" "k1 < 64" "ht_sizemask t = mask k1"
  shows "\<exists>v' es. scan_large t (mask k0) v out = Some (v', out @ es) \<and>
    rpos v' = (rpos v div 2 ^ (64 - k0) + 1) * 2 ^ (64 - k0) mod 2 ^ 64 \<and>
    mset es = filter_mset (\<lambda>e. rpos v div 2 ^ (64 - k1) \<le> rpos (hash (fst e)) div 2 ^ (64 - k1) \<and>
       rpos (hash (fst e)) div 2 ^ (64 - k0) = rpos v div 2 ^ (64 - k0)) (mset (entries t))"
proof (induction "2 ^ (k1 - k0) - rpos v div 2 ^ (64 - k1) mod 2 ^ (k1 - k0)" arbitrary: v out rule: less_induct)
  case less
  define B P q where "B = (2::nat) ^ (64 - k1)" and "P = (2::nat) ^ (k1 - k0)" and "q = rpos v div B"
  have pos: "0 < B" "0 < P" by (simp_all add: B_def P_def)
  have B0: "(2::nat) ^ (64 - k0) = B * P" using pow_split [OF k(1,2)] by (simp add: B_def P_def)
  obtain b where b: "bucket t (index_of v t) = Some b"
    "mset b = filter_mset (\<lambda>e. rpos (hash (fst e)) div B = q) (mset (entries t))"
    using bucket_covers [OF ok k(2,3), of v] unfolding B_def q_def by blast
  define v1 where "v1 = scan_next (mask k1) v"
  have r1: "rpos v1 = (q + 1) * B mod 2 ^ 64" using rpos_scan_next [OF k(2), of v] by (simp add: v1_def q_def B_def)
  have "q < 2 ^ k1" unfolding q_def using rpos_less [of v] pow_64 [OF k(2)] by (simp add: less_mult_imp_div_less B_def)
  then have q1: "q + 1 \<le> 2 ^ k1" by simp
  have d1: "rpos v1 div B = (if q + 1 = 2 ^ k1 then 0 else q + 1)"
    unfolding r1 pow_64 [OF k(2)] B_def [symmetric] by (rule mod_block [OF q1 pos(1)])
  have stop: "v1 AND (mask k0 XOR mask k1) = 0 \<longleftrightarrow> rpos v1 div B mod P = 0"
    using masked_zero [OF k(1,2)] by (simp add: B_def P_def)
  have step: "scan_large t (mask k0) v out =
      (if v1 AND (mask k0 XOR mask k1) \<noteq> 0 then scan_large t (mask k0) v1 (out @ b) else Some (v1, out @ b))"
    by (subst scan_large.simps) (use b(1) k(3) in \<open>simp add: v1_def Let_def\<close>)
  have dvd: "2 ^ k1 mod P = 0" unfolding P_def using k(1) by (simp add: le_imp_power_dvd)
  have blk_q: "h div (B * P) = h div B div P" for h :: nat by (rule div_mult2_eq)
  show ?case
  proof (cases "q mod P + 1 < P")
    case True
    have ne: "q + 1 \<noteq> 2 ^ k1" using dvd next_in_block(1) [OF True] by (metis add_is_0 one_neq_zero)
    have d1': "rpos v1 div B = q + 1" using d1 ne by simp
    have blk: "rpos v1 div (B * P) = rpos v div (B * P)"
      using next_in_block(2) [OF True] d1' by (simp add: div_mult2_eq q_def)
    have "P - rpos v1 div B mod P < P - rpos v div B mod P"
      using next_in_block(1) [OF True] True d1' by (simp add: q_def)
    then obtain v' es where rec: "scan_large t (mask k0) v1 (out @ b) = Some (v', (out @ b) @ es)"
      "rpos v' = (rpos v1 div (B * P) + 1) * (B * P) mod 2 ^ 64"
      "mset es = filter_mset (\<lambda>e. rpos v1 div B \<le> rpos (hash (fst e)) div B \<and>
         rpos (hash (fst e)) div (B * P) = rpos v1 div (B * P)) (mset (entries t))"
      using less.hyps [of v1 "out @ b"] unfolding B0 B_def [symmetric] P_def [symmetric] by blast
    have "v1 AND (mask k0 XOR mask k1) \<noteq> 0" using stop d1' next_in_block(1) [OF True] by simp
    then have "scan_large t (mask k0) v out = Some (v', out @ (b @ es))" using step rec(1) by simp
    moreover have "filter_mset (\<lambda>e. q \<le> rpos (hash (fst e)) div B \<and> rpos (hash (fst e)) div (B * P) = rpos v div (B * P))
        (mset (entries t)) = mset (b @ es)"
      unfolding mset_append b(2) rec(3) d1' blk by (rule filter_mset_split) (auto simp: blk_q q_def)
    ultimately show ?thesis using rec(2) unfolding B0 B_def [symmetric] blk q_def [symmetric] by metis
  next
    case False
    have q1P: "q + 1 = (q div P + 1) * P" by (rule next_block [OF False pos(2)])
    have "(q + 1) mod P = 0" unfolding q1P by simp
    then have "rpos v1 div B mod P = 0" unfolding d1 by simp
    then have "scan_large t (mask k0) v out = Some (v1, out @ b)" using step stop by simp
    moreover have "rpos v1 = (rpos v div (B * P) + 1) * (B * P) mod 2 ^ 64"
      unfolding r1 q1P by (simp add: div_mult2_eq q_def algebra_simps)
    moreover have "x = q \<longleftrightarrow> q \<le> x \<and> x div P = q div P" for x using last_of_block [OF False pos(2)] by auto
    then have "mset b = filter_mset (\<lambda>e. q \<le> rpos (hash (fst e)) div B \<and>
        rpos (hash (fst e)) div (B * P) = rpos v div (B * P)) (mset (entries t))"
      unfolding b(2) blk_q q_def [symmetric] by simp
    ultimately show ?thesis unfolding B0 B_def [symmetric] q_def [symmetric] by blast
  qed
qed

lemma ht_ok_mask:
  assumes "ht_ok hash t"
  obtains k where "k < 64" and "ht_size t = 2 ^ k" and "ht_sizemask t = mask k"
  using assms by (auto simp: ht_ok_def ht_shape_def)

text \<open>The positions of one bucket of the smaller table.\<close>

definition scan_step :: "('k, 'v) dict \<Rightarrow> nat" where
  "scan_step d = 2 ^ 64 div (if dictIsRehashing d then min (ht_size (ht0 d)) (ht_size (ht1 d)) else ht_size (ht0 d))"

lemma scan_step_eq:
  "k < 64 \<Longrightarrow> (if dictIsRehashing d then min (ht_size (ht0 d)) (ht_size (ht1 d)) else ht_size (ht0 d)) = 2 ^ k \<Longrightarrow>
   scan_step d = 2 ^ (64 - k)"
  unfolding scan_step_def by (simp only: pow_64 [of k]) simp

text \<open>The interval of positions a call covers: from the cursor to the cursor it returns, which is
  the start of the next bucket. From the start of a bucket it reports the entries of the interval
  exactly once.\<close>

definition covers :: "('k \<Rightarrow> 64 word) \<Rightarrow> ('k, 'v) dict \<Rightarrow> 64 word \<Rightarrow> 64 word \<Rightarrow> ('k \<times> 'v) list \<Rightarrow> bool" where
  "covers hash d v v' es \<longleftrightarrow>
     set es \<subseteq> set (dict_entries d) \<and> (v' = 0 \<or> rpos v < rpos v') \<and>
     (dictSize d \<noteq> 0 \<longrightarrow> rpos v' = (rpos v div scan_step d + 1) * scan_step d mod 2 ^ 64) \<and>
     (\<forall>e \<in> set (dict_entries d). rpos v \<le> rpos (hash (fst e)) \<and> (v' = 0 \<or> rpos (hash (fst e)) < rpos v') \<longrightarrow>
        e \<in> set es) \<and>
     (scan_step d dvd rpos v \<longrightarrow>
        mset es = filter_mset (\<lambda>e. rpos v \<le> rpos (hash (fst e)) \<and> (v' = 0 \<or> rpos (hash (fst e)) < rpos v')) (mset (dict_entries d)))"

lemma same_block:
  assumes k: "k < 64" and r: "rpos v' = (rpos v div 2 ^ (64 - k) + 1) * 2 ^ (64 - k) mod 2 ^ 64"
  shows "v' = 0 \<or> rpos v < rpos v'"
    and "rpos v \<le> rpos h \<Longrightarrow> v' = 0 \<or> rpos h < rpos v' \<Longrightarrow> rpos h div 2 ^ (64 - k) = rpos v div 2 ^ (64 - k)"
    and "2 ^ (64 - k) dvd rpos v \<Longrightarrow> rpos h div 2 ^ (64 - k) = rpos v div 2 ^ (64 - k) \<Longrightarrow>
      rpos v \<le> rpos h \<and> (v' = 0 \<or> rpos h < rpos v')"
proof -
  define B q where "B = (2::nat) ^ (64 - k)" and "q = rpos v div B"
  have B: "0 < B" "(2::nat) ^ 64 = 2 ^ k * B" using pow_64 [OF k] by (simp_all add: B_def)
  have lt: "rpos x div B < 2 ^ k" for x using rpos_less [of x] B by (simp add: less_mult_imp_div_less)
  have v: "rpos v < (q + 1) * B" unfolding q_def using dividend_less_div_times [OF B(1), of "rpos v"] by (simp add: algebra_simps)
  have r': "rpos v' = (if q + 1 = 2 ^ k then 0 else (q + 1) * B)"
  proof -
    have "rpos v' = (q + 1) mod 2 ^ k * B" using r unfolding B_def [symmetric] q_def [symmetric] B(2) mult_mod_left .
    moreover have "q + 1 \<le> 2 ^ k" using lt [of v] by (simp add: q_def)
    ultimately show ?thesis by (auto simp: le_less)
  qed
  then show "v' = 0 \<or> rpos v < rpos v'" using v rpos_0 [of v'] by (auto split: if_splits)
  show "rpos v \<le> rpos h \<and> (v' = 0 \<or> rpos h < rpos v')" if "2 ^ (64 - k) dvd rpos v" "rpos h div 2 ^ (64 - k) = rpos v div 2 ^ (64 - k)"
  proof -
    have "rpos v = q * B" "rpos h div B = q" using that by (simp_all add: q_def B_def)
    moreover have "rpos h < (rpos h div B + 1) * B" using dividend_less_div_times [OF B(1), of "rpos h"] by (simp add: algebra_simps)
    moreover have "rpos h div B * B \<le> rpos h" by simp
    ultimately show ?thesis using r' rpos_0 [of v'] by (auto split: if_splits)
  qed
  assume h: "rpos v \<le> rpos h" "v' = 0 \<or> rpos h < rpos v'"
  have "q \<le> rpos h div B" unfolding q_def by (rule div_le_mono [OF h(1)])
  moreover have "rpos h div B \<le> q"
  proof (cases "q + 1 = 2 ^ k")
    case True
    then show ?thesis using lt [of h] by linarith
  next
    case False
    then have "rpos h < (q + 1) * B" using h(2) r' rpos_0 [of v'] B(1) by auto
    then have "rpos h div B < q + 1" by (rule less_mult_imp_div_less)
    then show ?thesis by simp
  qed
  ultimately show "rpos h div 2 ^ (64 - k) = rpos v div 2 ^ (64 - k)" by (simp add: B_def q_def)
qed

lemma dictScan_single:
  assumes ok: "dict_ok hash d" and ne: "dictSize d \<noteq> 0" and nr: "\<not> dictIsRehashing d"
  shows "\<exists>v' es. dictScan d v = Some (v', es) \<and> covers hash d v v' es"
proof -
  have es: "dict_entries d = entries (ht0 d)" by (rule dict_ok_ht0(6) [OF ok nr])
  have "ht0 d \<noteq> dictReset" using ne length_dict_entries [OF ok] dict_ok_ht0(5) [OF ok nr] by auto
  then have h: "ht_ok hash (ht0 d)" using dict_ok_ht0(1) [OF ok nr] by blast
  obtain k where k: "k < 64" "ht_sizemask (ht0 d) = mask k" "ht_size (ht0 d) = 2 ^ k" using ht_ok_mask [OF h] by blast
  obtain b where b: "bucket (ht0 d) (index_of v (ht0 d)) = Some b"
    "mset b = filter_mset (\<lambda>e. rpos (hash (fst e)) div 2 ^ (64 - k) = rpos v div 2 ^ (64 - k)) (mset (entries (ht0 d)))"
    using bucket_covers [OF h k(1,2), of v] by blast
  have sb: "e \<in> set b \<longleftrightarrow> e \<in> set (entries (ht0 d)) \<and> rpos (hash (fst e)) div 2 ^ (64 - k) = rpos v div 2 ^ (64 - k)" for e
    using arg_cong [OF b(2), of set_mset] by auto
  note s = same_block [OF k(1) rpos_scan_next [OF k(1), of v]]
  have st: "scan_step d = 2 ^ (64 - k)" using scan_step_eq [OF k(1), of d] k(3) nr by simp
  have "covers hash d v (scan_next (mask k) v) b"
    unfolding covers_def es st
  proof (intro conjI impI)
    show "mset b = filter_mset (\<lambda>e. rpos v \<le> rpos (hash (fst e)) \<and>
        (scan_next (mask k) v = 0 \<or> rpos (hash (fst e)) < rpos (scan_next (mask k) v))) (mset (entries (ht0 d)))"
      if "2 ^ (64 - k) dvd rpos v"
      unfolding b(2) using s(2) s(3) [OF that] by (intro filter_mset_cong) blast+
  qed (use sb s rpos_scan_next [OF k(1), of v] in blast)+
  then show ?thesis using b(1) ne nr k(2) by (simp add: dictScan_def)
qed

lemma dictScan_rehashing:
  assumes ok: "dict_ok hash d" and ne: "dictSize d \<noteq> 0" and re: "dictIsRehashing d"
  shows "\<exists>v' es. dictScan d v = Some (v', es) \<and> covers hash d v v' es"
proof -
  have h: "ht_ok hash (ht0 d)" "ht_ok hash (ht1 d)" using ok re by (simp_all add: dict_ok_def)
  obtain t0 t1 where t: "(if ht_size (ht0 d) > ht_size (ht1 d) then (ht1 d, ht0 d) else (ht0 d, ht1 d)) = (t0, t1)"
    by fastforce
  have ht: "ht_ok hash t0" "ht_ok hash t1" "ht_size t0 \<le> ht_size t1" "mset (dict_entries d) = mset (entries t0) + mset (entries t1)"
    using t h by (auto simp: dict_entries_def split: if_splits)
  obtain k0 where k0: "k0 < 64" "ht_size t0 = 2 ^ k0" "ht_sizemask t0 = mask k0" using ht_ok_mask [OF ht(1)] by blast
  obtain k1 where k1: "k1 < 64" "ht_size t1 = 2 ^ k1" "ht_sizemask t1 = mask k1" using ht_ok_mask [OF ht(2)] by blast
  have "k0 \<le> k1" using ht(3) k0(2) k1(2) by simp
  obtain b where b: "bucket t0 (index_of v t0) = Some b"
    "mset b = filter_mset (\<lambda>e. rpos (hash (fst e)) div 2 ^ (64 - k0) = rpos v div 2 ^ (64 - k0)) (mset (entries t0))"
    using bucket_covers [OF ht(1) k0(1,3), of v] by blast
  obtain v' es where l: "scan_large t1 (mask k0) v b = Some (v', b @ es)"
    "rpos v' = (rpos v div 2 ^ (64 - k0) + 1) * 2 ^ (64 - k0) mod 2 ^ 64"
    "mset es = filter_mset (\<lambda>e. rpos v div 2 ^ (64 - k1) \<le> rpos (hash (fst e)) div 2 ^ (64 - k1) \<and>
       rpos (hash (fst e)) div 2 ^ (64 - k0) = rpos v div 2 ^ (64 - k0)) (mset (entries t1))"
    using scan_large_correct [OF ht(2) \<open>k0 \<le> k1\<close> k1(1,3)] by blast
  have ses: "set (b @ es) = {e \<in> set (entries t0). rpos (hash (fst e)) div 2 ^ (64 - k0) = rpos v div 2 ^ (64 - k0)} \<union>
      {e \<in> set (entries t1). rpos v div 2 ^ (64 - k1) \<le> rpos (hash (fst e)) div 2 ^ (64 - k1) \<and>
         rpos (hash (fst e)) div 2 ^ (64 - k0) = rpos v div 2 ^ (64 - k0)}"
    using arg_cong [OF b(2), of set_mset] arg_cong [OF l(3), of set_mset] by auto
  have sd: "set (dict_entries d) = set (entries t0) \<union> set (entries t1)" using arg_cong [OF ht(4), of set_mset] by simp
  note s = same_block [OF k0(1) l(2)]
  have up: "rpos v div 2 ^ (64 - k1) \<le> rpos h div 2 ^ (64 - k1)" if "rpos v \<le> rpos h" for h by (rule div_le_mono [OF that])
  have "ht_size t0 = min (ht_size (ht0 d)) (ht_size (ht1 d))" using t by (auto split: if_splits)
  then have st: "scan_step d = 2 ^ (64 - k0)" using scan_step_eq [OF k0(1), of d] k0(2) re by simp
  have "covers hash d v v' (b @ es)" unfolding covers_def st
  proof (intro conjI impI ballI)
    show "set (b @ es) \<subseteq> set (dict_entries d)" unfolding ses sd by blast
    show "e \<in> set (b @ es)" if "e \<in> set (dict_entries d)" "rpos v \<le> rpos (hash (fst e)) \<and> (v' = 0 \<or> rpos (hash (fst e)) < rpos v')" for e
      using that s(2) up unfolding ses sd by blast
    show "mset (b @ es) = filter_mset (\<lambda>e. rpos v \<le> rpos (hash (fst e)) \<and> (v' = 0 \<or> rpos (hash (fst e)) < rpos v')) (mset (dict_entries d))"
      if "2 ^ (64 - k0) dvd rpos v"
    proof -
      have "rpos h div 2 ^ (64 - k0) = rpos v div 2 ^ (64 - k0) \<longleftrightarrow> rpos v \<le> rpos h \<and> (v' = 0 \<or> rpos h < rpos v')" for h
        using s(2) s(3) [OF that] by blast
      then show ?thesis unfolding mset_append b(2) l(3) ht(4) filter_union_mset using up
        by (intro arg_cong2 [of _ _ _ _ "(+)"] filter_mset_cong) auto
    qed
  qed (rule s(1), rule l(2))
  moreover have "dictScan d v = Some (v', b @ es)"
    unfolding dictScan_def t if_not_P [OF ne] using re b(1) l(1) k0(3) by simp
  ultimately show ?thesis by blast
qed

lemma dictScan_correct:
  assumes "dict_ok hash d"
  shows "\<exists>v' es. dictScan d v = Some (v', es) \<and> covers hash d v v' es"
proof (cases "dictSize d = 0")
  case True
  then have "dict_entries d = []" using length_dict_entries [OF assms] by simp
  then show ?thesis using True by (simp add: dictScan_def covers_def)
next
  case False
  then show ?thesis using dictScan_single [OF assms] dictScan_rehashing [OF assms] by blast
qed

section \<open>Scans while the dictionary changes\<close>

text \<open>The \<open>i\<close>-th call of a scan sees the dictionary as it is then, the \<open>i\<close>-th one of a list; the
  scan ends when the cursor is 0 again. The second result are all the entries reported.\<close>

fun scan_run :: "('k, 'v) dict list \<Rightarrow> 64 word \<Rightarrow> (64 word \<times> ('k \<times> 'v) list) option" where
  "scan_run [] v = Some (v, [])"
| "scan_run (d # ds) v =
     do { (v, es) \<leftarrow> dictScan d v;
          if v = 0 then Some (v, es)
          else do { (v, es') \<leftarrow> scan_run ds v; Some (v, es @ es') } }"

lemma scan_run_correct:
  assumes "\<forall>d \<in> set ds. dict_ok hash d"
  shows "\<exists>v' es. scan_run ds v = Some (v', es) \<and>
    (ds \<noteq> [] \<longrightarrow> v' = 0 \<longrightarrow> (\<forall>k. rpos v \<le> rpos (hash k) \<and> (\<forall>d \<in> set ds. k \<in> fst ` set (dict_entries d)) \<longrightarrow>
       k \<in> fst ` set es))"
  using assms
proof (induction ds arbitrary: v)
  case Nil
  then show ?case by simp
next
  case (Cons d ds)
  obtain v1 es where v1: "dictScan d v = Some (v1, es)" "covers hash d v v1 es"
    using dictScan_correct [of hash d v] Cons.prems by auto
  have here: "k \<in> fst ` set es"
    if "rpos v \<le> rpos (hash k)" "k \<in> fst ` set (dict_entries d)" "v1 = 0 \<or> rpos (hash k) < rpos v1" for k
    using that v1(2) unfolding covers_def by (metis (no_types, lifting) image_iff)
  show ?case
  proof (cases "v1 = 0")
    case True
    then have "scan_run (d # ds) v = Some (0, es)" using v1(1) by simp
    then show ?thesis using here True by auto
  next
    case False
    obtain v' es' where rec: "scan_run ds v1 = Some (v', es')"
      "ds \<noteq> [] \<longrightarrow> v' = 0 \<longrightarrow> (\<forall>k. rpos v1 \<le> rpos (hash k) \<and> (\<forall>d \<in> set ds. k \<in> fst ` set (dict_entries d)) \<longrightarrow>
        k \<in> fst ` set es')" using Cons.IH [of v1] Cons.prems by auto
    have run: "scan_run (d # ds) v = Some (v', es @ es')" using v1(1) False rec(1) by simp
    have "k \<in> fst ` set (es @ es')"
      if "v' = 0" "rpos v \<le> rpos (hash k)" "\<forall>d' \<in> set (d # ds). k \<in> fst ` set (dict_entries d')" for k
    proof (cases "rpos (hash k) < rpos v1")
      case True
      then show ?thesis using here [OF that(2)] that(3) by auto
    next
      case nl: False
      have "ds \<noteq> []" using rec(1) False that(1) by auto
      then show ?thesis using rec(2) that nl by (simp add: image_Un)
    qed
    then show ?thesis using run by blast
  qed
qed

section \<open>Iterators\<close>

text \<open>What is left of a table and of the dictionary from a bucket on, and for an iterator.\<close>

definition left_from :: "('k, 'v) dict \<Rightarrow> nat \<Rightarrow> nat \<Rightarrow> ('k \<times> 'v) list" where
  "left_from d t i =
     concat (drop i (ht_table (ht d t))) @ (if t = 0 \<and> dictIsRehashing d then entries (ht1 d) else [])"

definition it_left :: "('k, 'v) dict \<Rightarrow> ('k, 'v) dictIterator \<Rightarrow> ('k \<times> 'v) list" where
  "it_left d it = (if it_entry it = [] then [] else it_next it) @ left_from d (it_table it) (nat (it_index it + 1))"

definition it_ok :: "('k, 'v) dict \<Rightarrow> ('k, 'v) dictIterator \<Rightarrow> bool" where
  "it_ok d it \<longleftrightarrow> - 1 \<le> it_index it \<and> (it_table it = 0 \<or> it_table it = 1 \<and> dictIsRehashing d)"

definition same_tables :: "('k, 'v) dict \<Rightarrow> ('k, 'v) dict \<Rightarrow> bool" where
  "same_tables d d' \<longleftrightarrow> ht0 d' = ht0 d \<and> ht1 d' = ht1 d \<and> rehashidx d' = rehashidx d"

text \<open>Number of buckets an iterator has still to visit.\<close>

definition it_buckets :: "('k, 'v) dict \<Rightarrow> ('k, 'v) dictIterator \<Rightarrow> nat" where
  "it_buckets d it = length (ht_table (ht d (it_table it))) - nat (it_index it + 1) +
     (if it_table it = 0 \<and> dictIsRehashing d then length (ht_table (ht1 d)) else 0)"

lemma same_tables_facts:
  assumes "same_tables d d'"
  shows "ht d' t = ht d t" and "dictIsRehashing d' = dictIsRehashing d" and "left_from d' t i = left_from d t i"
    and "it_left d' it = it_left d it" and "it_ok d' it = it_ok d it" and "dict_ok hash d' = dict_ok hash d"
    and "it_buckets d' it = it_buckets d it"
  using assms by (simp_all add: same_tables_def ht_def dictIsRehashing_def left_from_def it_left_def it_ok_def dict_ok_def
      it_buckets_def)

lemma dict_ok_sizes:
  assumes "dict_ok hash d" and "it_ok d it"
  shows "ht_size (ht d (it_table it)) = length (ht_table (ht d (it_table it)))"
  using assms by (auto simp: dict_ok_def it_ok_def ht_def ht_ok_def ht_shape_def split: if_splits)

text \<open>The outcome of \<open>dictNext\<close> for an iterator with entries left, or none.\<close>

definition next_spec :: "('k, 'v) dict \<Rightarrow> ('k, 'v) dictIterator \<Rightarrow>
    (('k, 'v) dict \<times> ('k, 'v) dictIterator \<times> ('k \<times> 'v) option) option \<Rightarrow> bool" where
  "next_spec d it r \<longleftrightarrow> (\<exists>d' it' e. r = Some (d', it', e) \<and> same_tables d d' \<and>
     (case e of
        None \<Rightarrow> it_left d it = []
      | Some x \<Rightarrow> it_left d it = x # it_left d' it' \<and> it_ok d' it'))"

lemma left_from_step:
  "i < length (ht_table (ht d t)) \<Longrightarrow> left_from d t i = ht_table (ht d t) ! i @ left_from d t (i + 1)"
  by (simp add: left_from_def flip: Cons_nth_drop_Suc)

lemma next_spec_same:
  assumes "next_spec d1 it1 r" and "same_tables d d1" and "it_left d it = it_left d1 it1"
  shows "next_spec d it r"
  using assms unfolding next_spec_def same_tables_def by (fastforce split: option.splits)

text \<open>The iterator arrives at bucket \<open>i\<close> of a table: it returns the first entry there or moves on.\<close>

lemma next_spec_arrive:
  assumes b: "ht_table (ht d (it_table it)) ! nat (it_index it) = b" "0 \<le> it_index it"
    "nat (it_index it) < length (ht_table (ht d (it_table it)))" and ok: "it_ok d it"
    and rec: "b = [] \<Longrightarrow> next_spec d (it\<lparr>it_entry := []\<rparr>) (dictNext d (it\<lparr>it_entry := []\<rparr>))"
    and left: "it_left d0 it0 = left_from d (it_table it) (nat (it_index it))" and same: "same_tables d0 d"
  shows "next_spec d0 it0 (case b of [] \<Rightarrow> dictNext d (it\<lparr>it_entry := []\<rparr>)
    | e # nx \<Rightarrow> Some (d, it\<lparr>it_entry := b, it_next := nx\<rparr>, Some e))"
proof -
  have n: "nat (it_index it + 1) = nat (it_index it) + 1" using b(2) by simp
  have step: "it_left d0 it0 = b @ left_from d (it_table it) (nat (it_index it + 1))"
    using left_from_step [OF b(3)] b(1) unfolding left n by simp
  show ?thesis
  proof (cases b)
    case Nil
    then have "it_left d0 it0 = it_left d (it\<lparr>it_entry := []\<rparr>)" using step by (simp add: it_left_def)
    then show ?thesis using next_spec_same [OF rec [OF Nil] same] Nil by simp
  next
    case (Cons e nx)
    have "it_left d0 it0 = e # it_left d (it\<lparr>it_entry := b, it_next := nx\<rparr>)" using step Cons by (simp add: it_left_def)
    moreover have "it_ok d (it\<lparr>it_entry := b, it_next := nx\<rparr>)" using ok by (simp add: it_ok_def)
    ultimately show ?thesis using same Cons unfolding next_spec_def by simp
  qed
qed

lemma dictNext_correct:
  assumes "dict_ok hash d" and "it_ok d it"
  shows "next_spec d it (dictNext d it)"
  using assms
proof (induction "2 * it_buckets d it + (if it_entry it = [] then 0 else 1)" arbitrary: d it rule: less_induct)
  case less
  show ?case
  proof (cases "it_entry it = []")
    case entry: False
    show ?thesis
    proof (cases "it_next it")
      case Nil
      define it1 where "it1 = it\<lparr>it_entry := []\<rparr>"
      have "it_ok d it1" "it_left d it = it_left d it1" using less.prems(2) entry Nil by (simp_all add: it1_def it_ok_def it_left_def)
      moreover have "next_spec d it1 (dictNext d it1)"
        by (rule less.hyps) (use less.prems(1) entry calculation(1) in \<open>simp_all add: it1_def it_buckets_def\<close>)
      moreover have "dictNext d it = dictNext d it1" using entry Nil by (simp add: dictNext.simps [of d it] it1_def)
      ultimately show ?thesis using next_spec_same [of d it1 _ d it] by (simp add: same_tables_def)
    next
      case (Cons e nx)
      define it1 where "it1 = it\<lparr>it_entry := it_next it, it_next := nx\<rparr>"
      have "dictNext d it = Some (d, it1, Some e)" using entry Cons by (simp add: dictNext.simps [of d it] it1_def)
      moreover have "it_left d it = e # it_left d it1" "it_ok d it1"
        using entry Cons less.prems(2) by (simp_all add: it_left_def it1_def it_ok_def)
      ultimately show ?thesis by (simp add: next_spec_def same_tables_def)
    qed
  next
    case entry: True
    define d1 where "d1 = (if it_index it = - 1 \<and> it_table it = 0 \<and> it_safe it then d\<lparr>iterators := iterators d + 1\<rparr> else d)"
    define it1 where "it1 = it\<lparr>it_index := it_index it + 1\<rparr>"
    define over where "over \<longleftrightarrow> it_index it1 \<ge> int (ht_size (ht d1 (it_table it1)))"
    define it2 where "it2 = (if over then it1\<lparr>it_table := 1, it_index := 0\<rparr> else it1)"
    have same: "same_tables d d1" by (simp add: same_tables_def d1_def)
    note sf = same_tables_facts [OF same]
    have i: "0 \<le> it_index it1" using less.prems(2) by (simp add: it_ok_def it1_def)
    have sz: "ht_size (ht d1 (it_table it1)) = length (ht_table (ht d (it_table it)))"
      using dict_ok_sizes [OF less.prems] by (simp add: sf it1_def)
    have left: "it_left d it = left_from d (it_table it) (nat (it_index it1))" using entry by (simp add: it_left_def it1_def)
    have eq: "dictNext d it =
        (if over \<and> \<not> (dictIsRehashing d1 \<and> it_table it1 = 0) then Some (d1, it1, None)
         else do { b \<leftarrow> (if it_index it2 < 0 then None else bucket (ht d1 (it_table it2)) (nat (it_index it2)));
              case b of [] \<Rightarrow> dictNext d1 (it2\<lparr>it_entry := []\<rparr>) | e # nx \<Rightarrow> Some (d1, it2\<lparr>it_entry := b, it_next := nx\<rparr>, Some e) })"
      unfolding dictNext.simps [of d it] if_P [OF entry] Let_def it2_def over_def it1_def d1_def by (rule refl)
    show ?thesis
    proof (cases "over \<and> \<not> (dictIsRehashing d1 \<and> it_table it1 = 0)")
      case True
      then have "length (ht_table (ht d (it_table it))) \<le> nat (it_index it1)" "\<not> (it_table it = 0 \<and> dictIsRehashing d)"
        using sz i unfolding over_def by (auto simp: sf it1_def)
      then have "left_from d (it_table it) (nat (it_index it1)) = []" by (simp only: left_from_def drop_all) simp
      then show ?thesis unfolding eq if_P [OF True] using left same by (simp add: next_spec_def)
    next
      case False
      define b where "b = ht_table (ht d1 (it_table it2)) ! nat (it_index it2)"
      have ok2: "it_ok d1 it2" "0 \<le> it_index it2" "it_entry it2 = []"
        using less.prems(2) False i entry by (auto simp: it_ok_def it2_def it1_def sf)
      have "nat (it_index it2) < length (ht_table (ht d (it_table it2))) \<and>
        it_left d it = left_from d (it_table it2) (nat (it_index it2)) \<and> it_buckets d it2 < it_buckets d it"
      proof (cases over)
        case True
        then have t0: "it_table it = 0" and re: "dictIsRehashing d" using False by (simp_all add: it1_def sf)
        have "ht_ok hash (ht1 d)" using re less.prems(1) by (simp add: dict_ok_def)
        then have ne: "0 < length (ht_table (ht1 d))" by (auto simp: ht_ok_def ht_shape_def)
        have "length (ht_table (ht d 0)) \<le> nat (it_index it1)" using True sz i t0 by (simp add: over_def it1_def)
        then have "left_from d 0 (nat (it_index it1)) = left_from d 1 0" using re by (simp add: left_from_def entries_def ht_def)
        moreover have "it_buckets d it2 < it_buckets d it" using True t0 re ne
          by (simp add: it_buckets_def it2_def ht_def del: length_greater_0_conv)
        ultimately show ?thesis using True t0 left ne by (simp add: it2_def ht_def)
      next
        case no: False
        then have "it2 = it1" by (simp add: it2_def)
        moreover have lt: "nat (it_index it1) < length (ht_table (ht d (it_table it)))" using no sz i by (simp add: over_def)
        moreover have "nat (it_index it1 + 1) = Suc (nat (it_index it1))" using i by simp
        then have "it_buckets d it1 < it_buckets d it" using lt by (simp add: it_buckets_def it1_def)
        ultimately show ?thesis using left by (simp add: it1_def)
      qed
      then have lt: "nat (it_index it2) < length (ht_table (ht d1 (it_table it2)))"
        and left2: "it_left d it = left_from d1 (it_table it2) (nat (it_index it2))"
        and "it_buckets d1 it2 < it_buckets d it" by (simp_all add: sf)
      then have rec: "next_spec d1 (it2\<lparr>it_entry := []\<rparr>) (dictNext d1 (it2\<lparr>it_entry := []\<rparr>))"
        by (intro less.hyps) (use less.prems(1) ok2 in \<open>simp_all add: sf it_buckets_def it_ok_def\<close>)
      have "bucket (ht d1 (it_table it2)) (nat (it_index it2)) = Some b" using bucket_Some [OF lt] by (simp add: b_def)
      then show ?thesis unfolding eq if_not_P [OF False]
        using next_spec_arrive [OF b_def [symmetric] ok2(2) lt ok2(1) rec left2 same] ok2(2) by simp
    qed
  qed
qed

text \<open>A loop over the iterator collects all the entries.\<close>

partial_function (option) iterate :: "('k, 'v) dict \<Rightarrow> ('k, 'v) dictIterator \<Rightarrow> ('k \<times> 'v) list option" where
  "iterate d it =
     do { (d, it, e) \<leftarrow> dictNext d it;
          case e of
            None \<Rightarrow> Some []
          | Some x \<Rightarrow> do { es \<leftarrow> iterate d it; Some (x # es) } }"

lemma iterate_correct:
  assumes "dict_ok hash d" and "it_ok d it"
  shows "iterate d it = Some (it_left d it)"
  using assms
proof (induction "it_left d it" arbitrary: d it)
  case Nil
  then show ?case using dictNext_correct [OF Nil.prems] unfolding next_spec_def
    by (subst iterate.simps) (auto split: option.splits)
next
  case (Cons x es)
  obtain d' it' e where n: "dictNext d it = Some (d', it', e)" "same_tables d d'"
    "case e of None \<Rightarrow> it_left d it = [] | Some x \<Rightarrow> it_left d it = x # it_left d' it' \<and> it_ok d' it'"
    using dictNext_correct [OF Cons.prems] unfolding next_spec_def by blast
  then obtain y where y: "e = Some y" "it_left d it = y # it_left d' it'" "it_ok d' it'" using Cons.hyps(2) by (cases e) auto
  have "iterate d' it' = Some (it_left d' it')"
    using Cons.hyps(1) [of d' it'] Cons.hyps(2) y Cons.prems(1) same_tables_facts(6) [OF n(2)] by simp
  then show ?case using n(1) y by (subst iterate.simps) simp
qed

lemma it_start:
  assumes "dict_ok hash d"
  shows "it_ok d dictGetIterator" "it_ok d dictGetSafeIterator"
    and "it_left d dictGetIterator = dict_entries d" "it_left d dictGetSafeIterator = dict_entries d"
proof -
  show "it_ok d dictGetIterator" "it_ok d dictGetSafeIterator" by (simp_all add: it_ok_def dictGetIterator_def dictGetSafeIterator_def)
  have "entries (ht1 d) = []" if "\<not> dictIsRehashing d" using dict_ok_ht0(2) [OF assms that] by simp
  then show "it_left d dictGetIterator = dict_entries d" "it_left d dictGetSafeIterator = dict_entries d"
    by (auto simp: it_left_def dictGetIterator_def dictGetSafeIterator_def left_from_def dict_entries_def ht_def entries_def)
qed

section \<open>Full scans of an unchanged dictionary\<close>

lemma scan_step_pow:
  assumes "dict_ok hash d" and "dictSize d \<noteq> 0"
  obtains k where "k < 64" and "scan_step d = 2 ^ (64 - k)" and "2 ^ k \<le> dictSlots d"
proof -
  define n where "n = (if dictIsRehashing d then min (ht_size (ht0 d)) (ht_size (ht1 d)) else ht_size (ht0 d))"
  have "insertable hash d"
    using nonempty_insertable [OF assms(1)] length_dict_entries [OF assms(1)] assms(2) by fastforce
  then have "ht_ok hash (ht0 d)" "dictIsRehashing d \<Longrightarrow> ht_ok hash (ht1 d)" by (rule insertable_ok)+
  then have "\<exists>k < 64. n = 2 ^ k" unfolding n_def min_def by (meson ht_ok_mask)
  then obtain k where k: "k < 64" "n = 2 ^ k" by blast
  moreover have "n \<le> dictSlots d" by (simp add: n_def dictSlots_def min_def)
  ultimately show ?thesis using that scan_step_eq [of k d] by (simp add: n_def)
qed

lemma scan_run_ends:
  assumes ok: "dict_ok hash d" and k: "k < 64" "scan_step d = 2 ^ (64 - k)" and ne: "dictSize d \<noteq> 0"
    and n: "2 ^ k \<le> rpos v div 2 ^ (64 - k) + n" and "0 < n" and start: "2 ^ (64 - k) dvd rpos v"
  shows "\<exists>es. scan_run (replicate n d) v = Some (0, es) \<and>
    mset es = filter_mset (\<lambda>e. rpos v \<le> rpos (hash (fst e))) (mset (dict_entries d))"
  using n \<open>0 < n\<close> start
proof (induction n arbitrary: v)
  case 0
  then show ?case by simp
next
  case (Suc n)
  let ?B = "2 ^ (64 - k) :: nat"
  obtain v1 es where v1: "dictScan d v = Some (v1, es)" "covers hash d v v1 es" using dictScan_correct [OF ok] by blast
  then have r: "rpos v1 = (rpos v div ?B + 1) * ?B mod 2 ^ 64" using ne k(2) by (simp add: covers_def)
  have m: "mset es = filter_mset (\<lambda>e. rpos v \<le> rpos (hash (fst e)) \<and> (v1 = 0 \<or> rpos (hash (fst e)) < rpos v1)) (mset (dict_entries d))"
    "v1 = 0 \<or> rpos v < rpos v1"
    using v1(2) Suc.prems(3) unfolding covers_def k(2) by blast+
  show ?case
  proof (cases "v1 = 0")
    case True
    then show ?thesis using v1(1) m(1) by simp
  next
    case False
    have "rpos v div ?B < 2 ^ k" using rpos_less [of v] pow_64 [OF k(1)] by (simp add: less_mult_imp_div_less)
    then have "rpos v1 div ?B = (if rpos v div ?B + 1 = 2 ^ k then 0 else rpos v div ?B + 1)"
      unfolding r pow_64 [OF k(1)] by (intro mod_block) simp_all
    moreover have "rpos v div ?B + 1 \<noteq> 2 ^ k"
    proof
      assume "rpos v div ?B + 1 = 2 ^ k"
      then have "rpos v1 = 0" unfolding r pow_64 [OF k(1)] by simp
      then show False using False by (simp add: rpos_0)
    qed
    ultimately have d1: "rpos v1 div ?B = rpos v div ?B + 1" by simp
    have "rpos v1 div ?B < 2 ^ k" using rpos_less [of v1] pow_64 [OF k(1)] by (simp add: less_mult_imp_div_less)
    then have "0 < n" using Suc.prems(1) d1 by (cases n) auto
    moreover have "?B dvd rpos v1" unfolding r pow_64 [OF k(1)] mult_mod_left [symmetric] by (rule dvd_triv_right)
    ultimately obtain es' where es': "scan_run (replicate n d) v1 = Some (0, es')"
      "mset es' = filter_mset (\<lambda>e. rpos v1 \<le> rpos (hash (fst e))) (mset (dict_entries d))"
      using Suc.IH [of v1] Suc.prems(1) d1 by auto
    have "filter_mset (\<lambda>e. rpos v \<le> rpos (hash (fst e))) (mset (dict_entries d)) = mset (es @ es')"
      unfolding mset_append m(1) es'(2) using m(2) False by (intro filter_mset_split) auto
    then show ?thesis using v1(1) False es'(1) by simp
  qed
qed

lemma scan_run_sound:
  assumes "\<forall>d \<in> set ds. dict_ok hash d" and "scan_run ds v = Some (v', es)"
  shows "set es \<subseteq> (\<Union>d \<in> set ds. set (dict_entries d))"
  using assms
proof (induction ds arbitrary: v es)
  case (Cons d ds)
  obtain v1 es1 where v1: "dictScan d v = Some (v1, es1)" "covers hash d v v1 es1"
    using dictScan_correct [of hash d v] Cons.prems(1) by auto
  then show ?case
    using Cons.IH [of v1] Cons.prems by (fastforce simp: covers_def Option.bind_eq_Some_conv split: if_splits)
qed simp

section \<open>Properties\<close>

text \<open>
  C4: The guarantee of \<open>SCAN\<close>. Let the dictionary change arbitrarily between the calls of a scan,
  including resizes and any progress of an incremental rehashing. When the cursor has come back
  to 0, every key that was in the dictionary at all the calls has been reported, and only entries
  that were in the dictionary at some call.
\<close>

theorem dictScan_guarantee:
  assumes "\<forall>d \<in> set ds. dict_ok hash d" and "ds \<noteq> []"
  shows "\<exists>v es. scan_run ds 0 = Some (v, es) \<and> set es \<subseteq> (\<Union>d \<in> set ds. set (dict_entries d)) \<and>
    (v = 0 \<longrightarrow> (\<forall>k. (\<forall>d \<in> set ds. k \<in> fst ` set (dict_entries d)) \<longrightarrow> k \<in> fst ` set es))"
proof -
  obtain v es where "scan_run ds 0 = Some (v, es)" "v = 0 \<longrightarrow> (\<forall>k. rpos 0 \<le> rpos (hash k) \<and>
      (\<forall>d \<in> set ds. k \<in> fst ` set (dict_entries d)) \<longrightarrow> k \<in> fst ` set es)"
    using scan_run_correct [OF assms(1), of 0] assms(2) by blast
  moreover have "rpos 0 = 0" by (simp add: rpos_0)
  ultimately show ?thesis using scan_run_sound [OF assms(1)] by auto
qed

text \<open>
  A scan that starts in the middle of a rehashing from 2 to 4 buckets and ends after it.
\<close>

definition rehashed_example :: "(nat, nat) dict" where
  "rehashed_example =
     \<lparr>ht0 = \<lparr>ht_table = [[(0, 5)], [(1, 7)], [(2, 6)], []], ht_size = 4, ht_sizemask = 3, ht_used = 3\<rparr>,
      ht1 = dictReset, rehashidx = - 1, iterators = 0\<rparr>"

lemma rehashed_example_ok: "dict_ok of_nat rehashed_example"
proof -
  have "ht_shape (ht0 rehashed_example)"
    by (auto simp: rehashed_example_def ht_shape_def mask_eq_exp_minus_1 intro: exI [of _ 2])
  moreover have "ht_placed of_nat (ht0 rehashed_example)" by code_simp
  ultimately show ?thesis by (simp add: dict_ok_def dictIsRehashing_def ht_ok_def entries_def rehashed_example_def)
qed

theorem dictScan_guarantee_witness:
  "\<exists>v es. scan_run [rehashing_example, rehashed_example, rehashed_example] 0 = Some (v, es) \<and> (v = 0 \<longrightarrow> 2 \<in> fst ` set es)"
proof -
  have "\<forall>d \<in> set [rehashing_example, rehashed_example, rehashed_example]. dict_ok of_nat d"
    using rehashing_example_ok rehashed_example_ok by simp
  then obtain v es where "scan_run [rehashing_example, rehashed_example, rehashed_example] 0 = Some (v, es)"
    "v = 0 \<longrightarrow> (\<forall>k. (\<forall>d \<in> set [rehashing_example, rehashed_example, rehashed_example]. k \<in> fst ` set (dict_entries d)) \<longrightarrow>
       k \<in> fst ` set es)"
    using dictScan_guarantee [of "[rehashing_example, rehashed_example, rehashed_example]" of_nat] by blast
  moreover have "2 \<in> fst ` set (dict_entries rehashing_example)" "2 \<in> fst ` set (dict_entries rehashed_example)"
    by (simp_all add: rehashing_example_def rehashed_example_def dict_entries_def entries_def)
  ultimately show ?thesis by auto
qed

text \<open>
  C24: A scan of a dictionary that does not change comes to an end after at most as many calls
  as the tables have buckets, and reports every entry of the dictionary exactly once.
\<close>

theorem dictScan_terminates:
  assumes "dict_ok hash d" and "dictSlots d \<le> n" and "0 < n"
  shows "\<exists>es. scan_run (replicate n d) 0 = Some (0, es) \<and> mset es = mset (dict_entries d)"
proof (cases "dictSize d = 0")
  case True
  then show ?thesis using assms(3) length_dict_entries [OF assms(1)] by (cases n) (simp_all add: dictScan_def)
next
  case False
  obtain k where "k < 64" "scan_step d = 2 ^ (64 - k)" "2 ^ k \<le> dictSlots d" by (rule scan_step_pow [OF assms(1) False])
  moreover have "rpos 0 = 0" by (simp add: rpos_0)
  ultimately show ?thesis using scan_run_ends [OF assms(1) _ _ False, of k 0 n] assms(2,3) by simp
qed

theorem dictScan_terminates_witness:
  "\<exists>es. scan_run (replicate 6 rehashing_example) 0 = Some (0, es) \<and> mset es = {#(0, 5), (1, 7), (2, 6)#}"
proof -
  have "mset (dict_entries rehashing_example) = {#(0, 5), (1, 7), (2, 6)#}"
    by (auto simp: rehashing_example_def dict_entries_def entries_def)
  then show ?thesis using dictScan_terminates [OF rehashing_example_ok, of 6]
    by (simp add: dictSlots_def rehashing_example_def)
qed

text \<open>
  C25: An iterator, safe or not, visits every entry of a dictionary exactly once: looping over
  \<open>dictNext\<close> returns the entries of the first table and, during a rehashing, of the second.
\<close>

theorem dictNext_visits_all:
  assumes "dict_ok hash d"
  shows "iterate d dictGetIterator = Some (dict_entries d) \<and> iterate d dictGetSafeIterator = Some (dict_entries d)"
  using iterate_correct [OF assms it_start(1) [OF assms]] iterate_correct [OF assms it_start(2) [OF assms]]
  unfolding it_start(3,4) [OF assms] by simp

theorem dictNext_visits_all_witness:
  "iterate rehashing_example dictGetIterator = Some [(0, 5), (2, 6), (1, 7)]"
  using dictNext_visits_all [OF rehashing_example_ok]
  by (simp add: rehashing_example_def dict_entries_def entries_def)

end
