(* ===== verification/Client.thy ===== *)
theory Client
  imports Sds
begin

text \<open>
  The client structure of \<open>server.h\<close> as far as the networking layer uses it, and the part of
  the server's state that layer reads or changes. A linked list is the list of its values; a
  client in a list of the server is represented by its \<open>id\<close>. The string objects of \<open>argv\<close> are
  their contents; \<open>cl_argv\<close> holds the first \<open>argc\<close> of them and \<open>cl_argv_cap\<close> is the number of
  slots allocated; \<open>cl_cmd\<close> is the name of the command in execution. \<open>cl_buf\<close> is the static output buffer and has \<open>PROTO_REPLY_CHUNK_BYTES\<close> bytes.
\<close>

section \<open>Flags and constants\<close>

definition CLIENT_SLAVE :: "32 word" where "CLIENT_SLAVE = 1"
definition CLIENT_MASTER :: "32 word" where "CLIENT_MASTER = 2"
definition CLIENT_MONITOR :: "32 word" where "CLIENT_MONITOR = 4"
definition CLIENT_MULTI :: "32 word" where "CLIENT_MULTI = 8"
definition CLIENT_BLOCKED :: "32 word" where "CLIENT_BLOCKED = 0x10"
definition CLIENT_CLOSE_AFTER_REPLY :: "32 word" where "CLIENT_CLOSE_AFTER_REPLY = 0x40"
definition CLIENT_LUA :: "32 word" where "CLIENT_LUA = 0x100"
definition CLIENT_ASKING :: "32 word" where "CLIENT_ASKING = 0x200"
definition CLIENT_CLOSE_ASAP :: "32 word" where "CLIENT_CLOSE_ASAP = 0x400"
definition CLIENT_MASTER_FORCE_REPLY :: "32 word" where "CLIENT_MASTER_FORCE_REPLY = 0x2000"
definition CLIENT_PUBSUB :: "32 word" where "CLIENT_PUBSUB = 0x40000"
definition CLIENT_PENDING_WRITE :: "32 word" where "CLIENT_PENDING_WRITE = 0x200000"
definition CLIENT_REPLY_OFF :: "32 word" where "CLIENT_REPLY_OFF = 0x400000"
definition CLIENT_REPLY_SKIP_NEXT :: "32 word" where "CLIENT_REPLY_SKIP_NEXT = 0x800000"
definition CLIENT_REPLY_SKIP :: "32 word" where "CLIENT_REPLY_SKIP = 0x1000000"
definition CLIENT_MODULE :: "32 word" where "CLIENT_MODULE = 0x8000000"

lemmas client_flag_defs = CLIENT_SLAVE_def CLIENT_MASTER_def CLIENT_MONITOR_def CLIENT_MULTI_def CLIENT_BLOCKED_def
  CLIENT_CLOSE_AFTER_REPLY_def CLIENT_LUA_def CLIENT_ASKING_def CLIENT_CLOSE_ASAP_def CLIENT_MASTER_FORCE_REPLY_def
  CLIENT_PUBSUB_def CLIENT_PENDING_WRITE_def CLIENT_REPLY_OFF_def CLIENT_REPLY_SKIP_NEXT_def CLIENT_REPLY_SKIP_def
  CLIENT_MODULE_def

definition PROTO_REPLY_CHUNK_BYTES :: nat where "PROTO_REPLY_CHUNK_BYTES = 16 * 1024"
definition PROTO_INLINE_MAX_SIZE :: nat where "PROTO_INLINE_MAX_SIZE = 1024 * 64"
definition PROTO_MBULK_BIG_ARG :: nat where "PROTO_MBULK_BIG_ARG = 1024 * 32"
definition PROTO_IOBUF_LEN :: nat where "PROTO_IOBUF_LEN = 1024 * 16"
definition PROTO_REQ_INLINE :: nat where "PROTO_REQ_INLINE = 1"
definition PROTO_REQ_MULTIBULK :: nat where "PROTO_REQ_MULTIBULK = 2"
definition OBJ_SHARED_BULKHDR_LEN :: int where "OBJ_SHARED_BULKHDR_LEN = 32"
definition NET_MAX_WRITES_PER_EVENT :: nat where "NET_MAX_WRITES_PER_EVENT = 1024 * 64"
definition REPL_STATE_NONE :: nat where "REPL_STATE_NONE = 0"
definition SLAVE_STATE_ONLINE :: nat where "SLAVE_STATE_ONLINE = 9"
definition BLOCKED_NONE :: nat where "BLOCKED_NONE = 0"
definition BLOCKED_MODULE :: nat where "BLOCKED_MODULE = 3"

section \<open>State\<close>

record clientReplyBlock =
  blk_size :: nat
  blk_used :: nat
  blk_buf :: string

record clientBufferLimitsConfig =
  hard_limit_bytes :: nat
  soft_limit_bytes :: nat
  soft_limit_seconds :: int

record redisServer =
  sv_unixtime :: int
  sv_clients_pending_write :: "nat list"
  sv_clients_to_close :: "nat list"
  sv_client_obuf_limits :: "clientBufferLimitsConfig list"
  sv_maxmemory :: nat
  sv_proto_max_bulk_len :: int
  sv_client_max_querybuf_len :: nat
  sv_lua_timedout :: bool
  sv_clients_paused :: bool
  sv_stat_net_output_bytes :: int
  sv_stat_net_input_bytes :: int
  sv_monitors :: "nat list"

record client =
  cl_id :: nat
  cl_fd :: int
  cl_querybuf :: sds
  cl_qb_pos :: nat
  cl_pending_querybuf :: sds
  cl_querybuf_peak :: nat
  cl_argv :: "string list"
  cl_argv_cap :: nat
  cl_cmd :: "string option"
  cl_reqtype :: nat
  cl_multibulklen :: nat
  cl_bulklen :: int
  cl_reply :: "clientReplyBlock option list"
  cl_reply_bytes :: nat
  cl_sentlen :: nat
  cl_lastinteraction :: int
  cl_obuf_soft_limit_reached_time :: int
  cl_flags :: "32 word"
  cl_replstate :: nat
  cl_repl_put_online_on_ack :: bool
  cl_read_reploff :: int
  cl_reploff :: int
  cl_repl_ack_time :: int
  cl_btype :: nat
  cl_bufpos :: nat
  cl_buf :: string

text \<open>A new client: \<open>client_id\<close> is the value taken from the counter of the server, \<open>now\<close> its time. \<open>buf\<close> is not
  initialised.\<close>

definition createClient :: "(nat \<Rightarrow> char) \<Rightarrow> nat \<Rightarrow> int \<Rightarrow> int \<Rightarrow> client option" where
  "createClient fill client_id now fd =
     do { querybuf \<leftarrow> sdsempty fill;
          pending_querybuf \<leftarrow> sdsempty fill;
          Some \<lparr>cl_id = client_id, cl_fd = fd, cl_querybuf = querybuf, cl_qb_pos = 0, cl_pending_querybuf = pending_querybuf,
                cl_querybuf_peak = 0, cl_argv = [], cl_argv_cap = 0, cl_cmd = None, cl_reqtype = 0, cl_multibulklen = 0, cl_bulklen = - 1,
                cl_reply = [], cl_reply_bytes = 0, cl_sentlen = 0, cl_lastinteraction = now,
                cl_obuf_soft_limit_reached_time = 0, cl_flags = 0, cl_replstate = REPL_STATE_NONE,
                cl_repl_put_online_on_ack = False, cl_read_reploff = 0, cl_reploff = 0, cl_repl_ack_time = 0,
                cl_btype = BLOCKED_NONE, cl_bufpos = 0, cl_buf = map fill [0..<PROTO_REPLY_CHUNK_BYTES]\<rparr> }"

definition has_flag :: "client \<Rightarrow> 32 word \<Rightarrow> bool" where
  "has_flag c f \<longleftrightarrow> cl_flags c AND f \<noteq> 0"

definition set_flag :: "client \<Rightarrow> 32 word \<Rightarrow> client" where
  "set_flag c f = c\<lparr>cl_flags := cl_flags c OR f\<rparr>"

definition clear_flag :: "client \<Rightarrow> 32 word \<Rightarrow> client" where
  "clear_flag c f = c\<lparr>cl_flags := cl_flags c AND NOT f\<rparr>"

lemma has_set_other:
  assumes "f AND g = 0"
  shows "has_flag (set_flag c g) f = has_flag c f"
proof -
  have "(cl_flags c OR g) AND f = (cl_flags c AND f) OR (g AND f)" by (rule bit.conj_disj_distrib2)
  also have "g AND f = 0" using assms by (simp add: and.commute)
  finally show ?thesis by (simp add: has_flag_def set_flag_def)
qed

lemma has_set_same:
  assumes "f \<noteq> 0"
  shows "has_flag (set_flag c f) f"
proof -
  have "(cl_flags c OR f) AND f = f" by (simp add: and.commute)
  then show ?thesis using assms by (simp add: has_flag_def set_flag_def)
qed

lemma has_flag_cong: "cl_flags c = cl_flags d \<Longrightarrow> has_flag c f = has_flag d f"
  by (simp add: has_flag_def)

end
