(* ===== verification/Client_Output.thy ===== *)
theory Client_Output
  imports Client
begin

text \<open>
  Replies of \<open>networking.c\<close>: text is queued in the static buffer of the client and, when that is
  full, in a list of blocks, and \<open>writeToClient\<close> sends both to the socket in pieces of the size
  the kernel accepts. \<open>usable\<close> is \<open>zmalloc_usable\<close> of the allocator and \<open>fill\<close> the content of fresh
  memory. A client whose structure has been released is the value \<open>Freed\<close>.

  The library facts show that what is queued and what is sent are the same stream: nothing is
  lost, duplicated or reordered between the two stores, whatever the kernel accepts.
\<close>

section \<open>Output limits\<close>

definition clientHasPendingReplies :: "client \<Rightarrow> bool" where
  "clientHasPendingReplies c \<longleftrightarrow> cl_bufpos c \<noteq> 0 \<or> length (cl_reply c) \<noteq> 0"

definition clientInstallWriteHandler :: "redisServer \<Rightarrow> client \<Rightarrow> redisServer \<times> client" where
  "clientInstallWriteHandler sv c =
     (if \<not> has_flag c CLIENT_PENDING_WRITE \<and>
         (cl_replstate c = REPL_STATE_NONE \<or>
          cl_replstate c = SLAVE_STATE_ONLINE \<and> \<not> cl_repl_put_online_on_ack c)
      then (sv\<lparr>sv_clients_pending_write := cl_id c # sv_clients_pending_write sv\<rparr>,
            set_flag c CLIENT_PENDING_WRITE)
      else (sv, c))"

definition prepareClientToWrite :: "redisServer \<Rightarrow> client \<Rightarrow> redisServer \<times> client \<times> bool" where
  "prepareClientToWrite sv c =
     (if has_flag c (CLIENT_LUA OR CLIENT_MODULE) then (sv, c, True)
      else if has_flag c (CLIENT_REPLY_OFF OR CLIENT_REPLY_SKIP) then (sv, c, False)
      else if has_flag c CLIENT_MASTER \<and> \<not> has_flag c CLIENT_MASTER_FORCE_REPLY then (sv, c, False)
      else if cl_fd c \<le> 0 then (sv, c, False)
      else
        (let (sv, c) = (if \<not> clientHasPendingReplies c then clientInstallWriteHandler sv c else (sv, c))
         in (sv, c, True)))"

definition freeClientAsync :: "redisServer \<Rightarrow> client \<Rightarrow> redisServer \<times> client" where
  "freeClientAsync sv c =
     (if has_flag c CLIENT_CLOSE_ASAP \<or> has_flag c CLIENT_LUA then (sv, c)
      else (sv\<lparr>sv_clients_to_close := sv_clients_to_close sv @ [cl_id c]\<rparr>, set_flag c CLIENT_CLOSE_ASAP))"

text \<open>A list node has 24 bytes and the header of a block 16.\<close>

definition getClientOutputBufferMemoryUsage :: "client \<Rightarrow> nat" where
  "getClientOutputBufferMemoryUsage c =
     (let list_item_size = 24 + 16
      in (cl_reply_bytes c + list_item_size * length (cl_reply c)) mod 2 ^ 64)"

datatype client_type = CLIENT_TYPE_NORMAL | CLIENT_TYPE_SLAVE | CLIENT_TYPE_PUBSUB | CLIENT_TYPE_MASTER

definition type_index :: "client_type \<Rightarrow> nat" where
  "type_index t = (case t of CLIENT_TYPE_NORMAL \<Rightarrow> 0 | CLIENT_TYPE_SLAVE \<Rightarrow> 1 | CLIENT_TYPE_PUBSUB \<Rightarrow> 2 | CLIENT_TYPE_MASTER \<Rightarrow> 3)"

definition getClientType :: "client \<Rightarrow> client_type" where
  "getClientType c =
     (if has_flag c CLIENT_MASTER then CLIENT_TYPE_MASTER
      else if has_flag c CLIENT_SLAVE \<and> \<not> has_flag c CLIENT_MONITOR then CLIENT_TYPE_SLAVE
      else if has_flag c CLIENT_PUBSUB then CLIENT_TYPE_PUBSUB
      else CLIENT_TYPE_NORMAL)"

definition checkClientOutputBufferLimits :: "redisServer \<Rightarrow> client \<Rightarrow> (client \<times> bool) option" where
  "checkClientOutputBufferLimits sv c =
     (let used_mem = getClientOutputBufferMemoryUsage c;
          cls = getClientType c;
          cls = (if cls = CLIENT_TYPE_MASTER then CLIENT_TYPE_NORMAL else cls)
      in if \<not> type_index cls < length (sv_client_obuf_limits sv) then None
         else
           (let lim = sv_client_obuf_limits sv ! type_index cls;
                hard = (hard_limit_bytes lim \<noteq> 0 \<and> used_mem \<ge> hard_limit_bytes lim);
                soft = (soft_limit_bytes lim \<noteq> 0 \<and> used_mem \<ge> soft_limit_bytes lim)
            in if soft then
                 (if cl_obuf_soft_limit_reached_time c = 0
                  then Some (c\<lparr>cl_obuf_soft_limit_reached_time := sv_unixtime sv\<rparr>, hard)
                  else
                    (let elapsed = sv_unixtime sv - cl_obuf_soft_limit_reached_time c;
                         soft = (\<not> elapsed \<le> soft_limit_seconds lim)
                     in Some (c, soft \<or> hard)))
               else Some (c\<lparr>cl_obuf_soft_limit_reached_time := 0\<rparr>, hard)))"

definition asyncCloseClientOnOutputBufferLimitReached :: "redisServer \<Rightarrow> client \<Rightarrow> (redisServer \<times> client) option" where
  "asyncCloseClientOnOutputBufferLimitReached sv c =
     (if cl_fd c = - 1 then Some (sv, c)
      else if \<not> cl_reply_bytes c < 2 ^ 64 - 1 - 1024 * 64 then None
      else if cl_reply_bytes c = 0 \<or> has_flag c CLIENT_CLOSE_ASAP then Some (sv, c)
      else do {
        (c, over) \<leftarrow> checkClientOutputBufferLimits sv c;
        Some (if over then freeClientAsync sv c else (sv, c)) })"

section \<open>Queueing text\<close>

definition addReplyToBuffer :: "client \<Rightarrow> string \<Rightarrow> (client \<times> bool) option" where
  "addReplyToBuffer c s =
     (let available = PROTO_REPLY_CHUNK_BYTES - cl_bufpos c
      in if has_flag c CLIENT_CLOSE_AFTER_REPLY then Some (c, True)
         else if length (cl_reply c) > 0 then Some (c, False)
         else if length s > available then Some (c, False)
         else do {
           buf \<leftarrow> mem_write (cl_buf c) (cl_bufpos c) s;
           Some (c\<lparr>cl_buf := buf, cl_bufpos := cl_bufpos c + length s\<rparr>, True) })"

text \<open>The part of \<open>s\<close> that fits into the last block of the list is copied there.\<close>

definition append_to_tail :: "client \<Rightarrow> string \<Rightarrow> (client \<times> string) option" where
  "append_to_tail c s =
     (if cl_reply c = [] then Some (c, s)
      else
        (case last (cl_reply c) of
           None \<Rightarrow> Some (c, s)
         | Some tail \<Rightarrow>
             (let avail = blk_size tail - blk_used tail;
                  copy = (if avail \<ge> length s then length s else avail)
              in do {
                b \<leftarrow> mem_write (blk_buf tail) (blk_used tail) (take copy s);
                Some (c\<lparr>cl_reply := butlast (cl_reply c) @
                          [Some (tail\<lparr>blk_buf := b, blk_used := blk_used tail + copy\<rparr>)]\<rparr>,
                      drop copy s) })))"

definition new_block :: "(nat \<Rightarrow> nat) \<Rightarrow> (nat \<Rightarrow> char) \<Rightarrow> nat \<Rightarrow> string \<Rightarrow> clientReplyBlock option" where
  "new_block usable fill sz s =
     (let total = usable (sz + 16) - 16
      in do { b \<leftarrow> mem_write (map fill [0..<total]) 0 s;
              Some \<lparr>blk_size = total, blk_used = length s, blk_buf = b\<rparr> })"

definition addReplyStringToList ::
  "(nat \<Rightarrow> nat) \<Rightarrow> (nat \<Rightarrow> char) \<Rightarrow> redisServer \<Rightarrow> client \<Rightarrow> string \<Rightarrow> (redisServer \<times> client) option" where
  "addReplyStringToList usable fill sv c s =
     (if has_flag c CLIENT_CLOSE_AFTER_REPLY then Some (sv, c)
      else do {
        (c, s) \<leftarrow> append_to_tail c s;
        c \<leftarrow> (if s \<noteq> [] then
                (let sz = (if length s < PROTO_REPLY_CHUNK_BYTES then PROTO_REPLY_CHUNK_BYTES else length s)
                 in do { tail \<leftarrow> new_block usable fill sz s;
                         Some (c\<lparr>cl_reply := cl_reply c @ [Some tail],
                                 cl_reply_bytes := (cl_reply_bytes c + blk_size tail) mod 2 ^ 64\<rparr>) })
              else Some c);
        asyncCloseClientOnOutputBufferLimitReached sv c })"

definition addReplyString ::
  "(nat \<Rightarrow> nat) \<Rightarrow> (nat \<Rightarrow> char) \<Rightarrow> redisServer \<Rightarrow> client \<Rightarrow> string \<Rightarrow> (redisServer \<times> client) option" where
  "addReplyString usable fill sv c s =
     (let (sv, c, ok) = prepareClientToWrite sv c
      in if \<not> ok then Some (sv, c)
         else do {
           (c, done) \<leftarrow> addReplyToBuffer c s;
           if done then Some (sv, c) else addReplyStringToList usable fill sv c s })"

section \<open>Replies\<close>

definition CRLF :: string where "CRLF = [CHR 0x0D, CHR 0x0A]"

text \<open>A string object is encoded as a string or as an integer.\<close>

datatype string_obj = SdsObj string | IntObj int

definition addReply ::
  "(nat \<Rightarrow> nat) \<Rightarrow> (nat \<Rightarrow> char) \<Rightarrow> redisServer \<Rightarrow> client \<Rightarrow> string_obj \<Rightarrow> (redisServer \<times> client) option" where
  "addReply usable fill sv c obj =
     (let (sv, c, ok) = prepareClientToWrite sv c
      in if \<not> ok then Some (sv, c)
         else do {
           s \<leftarrow> (case obj of
                   SdsObj s \<Rightarrow> Some s
                 | IntObj n \<Rightarrow> do { (buf, len) \<leftarrow> ll2string (map fill [0..<32]) n; mem_read buf 0 len });
           (c, done) \<leftarrow> addReplyToBuffer c s;
           if done then Some (sv, c) else addReplyStringToList usable fill sv c s })"

text \<open>The three calls at the start of \<open>addReplyErrorLength\<close>, and the whole function, which panics for a client that
  is flagged as a replica.\<close>

definition addReplyErrorText ::
  "(nat \<Rightarrow> nat) \<Rightarrow> (nat \<Rightarrow> char) \<Rightarrow> redisServer \<Rightarrow> client \<Rightarrow> string \<Rightarrow> (redisServer \<times> client) option" where
  "addReplyErrorText usable fill sv c s =
     do { (sv, c) \<leftarrow> (if length s = 0 \<or> s ! 0 \<noteq> CHR ''-'' then addReplyString usable fill sv c ''-ERR '' else Some (sv, c));
          (sv, c) \<leftarrow> addReplyString usable fill sv c s;
          addReplyString usable fill sv c CRLF }"

definition addReplyErrorLength ::
  "(nat \<Rightarrow> nat) \<Rightarrow> (nat \<Rightarrow> char) \<Rightarrow> redisServer \<Rightarrow> client \<Rightarrow> string \<Rightarrow> (redisServer \<times> client) option" where
  "addReplyErrorLength usable fill sv c s =
     do { (sv, c) \<leftarrow> addReplyErrorText usable fill sv c s;
          if has_flag c CLIENT_SLAVE then None else Some (sv, c) }"

text \<open>\<open>err\<close> is a C string constant.\<close>

definition addReplyError ::
  "(nat \<Rightarrow> nat) \<Rightarrow> (nat \<Rightarrow> char) \<Rightarrow> redisServer \<Rightarrow> client \<Rightarrow> string \<Rightarrow> (redisServer \<times> client) option" where
  "addReplyError usable fill sv c err = addReplyErrorLength usable fill sv c err"

text \<open>\<open>s\<close> is the text of the format with its arguments.\<close>

definition addReplyErrorFormat ::
  "(nat \<Rightarrow> nat) \<Rightarrow> (nat \<Rightarrow> char) \<Rightarrow> redisServer \<Rightarrow> client \<Rightarrow> string \<Rightarrow> (redisServer \<times> client) option" where
  "addReplyErrorFormat usable fill sv c s =
     addReplyErrorLength usable fill sv c
       (map (\<lambda>ch. if ch = CHR 0x0D \<or> ch = CHR 0x0A then CHR '' '' else ch) s)"

definition addReplyStatusLength ::
  "(nat \<Rightarrow> nat) \<Rightarrow> (nat \<Rightarrow> char) \<Rightarrow> redisServer \<Rightarrow> client \<Rightarrow> string \<Rightarrow> (redisServer \<times> client) option" where
  "addReplyStatusLength usable fill sv c s =
     do { (sv, c) \<leftarrow> addReplyString usable fill sv c ''+'';
          (sv, c) \<leftarrow> addReplyString usable fill sv c s;
          addReplyString usable fill sv c CRLF }"

text \<open>The headers \<open>shared.mbulkhdr[j]\<close> and \<open>shared.bulkhdr[j]\<close>, printed when the server starts.\<close>

definition shared_hdr :: "char \<Rightarrow> int \<Rightarrow> string" where
  "shared_hdr prefix j = prefix # sdec j @ CRLF"

definition addReplyLongLongWithPrefix ::
  "(nat \<Rightarrow> nat) \<Rightarrow> (nat \<Rightarrow> char) \<Rightarrow> redisServer \<Rightarrow> client \<Rightarrow> int \<Rightarrow> char \<Rightarrow> (redisServer \<times> client) option" where
  "addReplyLongLongWithPrefix usable fill sv c ll prefix =
     (if prefix = CHR ''*'' \<and> ll < OBJ_SHARED_BULKHDR_LEN \<and> ll \<ge> 0
      then addReply usable fill sv c (SdsObj (shared_hdr (CHR ''*'') ll))
      else if prefix = CHR ''$'' \<and> ll < OBJ_SHARED_BULKHDR_LEN \<and> ll \<ge> 0
      then addReply usable fill sv c (SdsObj (shared_hdr (CHR ''$'') ll))
      else do {
        buf \<leftarrow> mem_write (map fill [0..<128]) 0 [prefix];
        (dst, len) \<leftarrow> ll2string (drop 1 buf) ll;
        let buf = take 1 buf @ dst;
        buf \<leftarrow> mem_write buf (len + 1) [CHR 0x0D];
        buf \<leftarrow> mem_write buf (len + 2) [CHR 0x0A];
        s \<leftarrow> mem_read buf 0 (len + 3);
        addReplyString usable fill sv c s })"

definition addReplyLongLong ::
  "(nat \<Rightarrow> nat) \<Rightarrow> (nat \<Rightarrow> char) \<Rightarrow> redisServer \<Rightarrow> client \<Rightarrow> int \<Rightarrow> (redisServer \<times> client) option" where
  "addReplyLongLong usable fill sv c ll =
     (if ll = 0 then addReply usable fill sv c (SdsObj ('':0'' @ CRLF))
      else if ll = 1 then addReply usable fill sv c (SdsObj ('':1'' @ CRLF))
      else addReplyLongLongWithPrefix usable fill sv c ll (CHR '':''))"

text \<open>A negative length would be used as an index of \<open>shared.mbulkhdr\<close>.\<close>

definition addReplyMultiBulkLen ::
  "(nat \<Rightarrow> nat) \<Rightarrow> (nat \<Rightarrow> char) \<Rightarrow> redisServer \<Rightarrow> client \<Rightarrow> int \<Rightarrow> (redisServer \<times> client) option" where
  "addReplyMultiBulkLen usable fill sv c len =
     (if len < OBJ_SHARED_BULKHDR_LEN then
        (if len < 0 then None else addReply usable fill sv c (SdsObj (shared_hdr (CHR ''*'') len)))
      else addReplyLongLongWithPrefix usable fill sv c len (CHR ''*''))"

text \<open>The number of characters of an integer object: the loop divides by 10 until 0 is reached.
  The negation of the smallest integer overflows.\<close>

function radix10_len :: "nat \<Rightarrow> nat \<Rightarrow> nat" where
  "radix10_len n len = (let n = n div 10 in if n \<noteq> 0 then radix10_len n (len + 1) else len)"
  by pat_completeness auto
termination by (relation "measure fst") auto

declare radix10_len.simps [simp del]

definition addReplyBulkLen ::
  "(nat \<Rightarrow> nat) \<Rightarrow> (nat \<Rightarrow> char) \<Rightarrow> redisServer \<Rightarrow> client \<Rightarrow> string_obj \<Rightarrow> (redisServer \<times> client) option" where
  "addReplyBulkLen usable fill sv c obj =
     do { len \<leftarrow> (case obj of
                    SdsObj s \<Rightarrow> Some (length s)
                  | IntObj n \<Rightarrow> if n = LLONG_MIN then None
                                else if n < 0 then Some (radix10_len (nat (- n)) 2)
                                else Some (radix10_len (nat n) 1));
          if int len < OBJ_SHARED_BULKHDR_LEN then addReply usable fill sv c (SdsObj (shared_hdr (CHR ''$'') (int len)))
          else addReplyLongLongWithPrefix usable fill sv c (int len) (CHR ''$'') }"

definition addReplyBulk ::
  "(nat \<Rightarrow> nat) \<Rightarrow> (nat \<Rightarrow> char) \<Rightarrow> redisServer \<Rightarrow> client \<Rightarrow> string_obj \<Rightarrow> (redisServer \<times> client) option" where
  "addReplyBulk usable fill sv c obj =
     do { (sv, c) \<leftarrow> addReplyBulkLen usable fill sv c obj;
          (sv, c) \<leftarrow> addReply usable fill sv c obj;
          addReply usable fill sv c (SdsObj CRLF) }"

definition addReplyBulkCBuffer ::
  "(nat \<Rightarrow> nat) \<Rightarrow> (nat \<Rightarrow> char) \<Rightarrow> redisServer \<Rightarrow> client \<Rightarrow> string \<Rightarrow> (redisServer \<times> client) option" where
  "addReplyBulkCBuffer usable fill sv c p =
     do { (sv, c) \<leftarrow> addReplyLongLongWithPrefix usable fill sv c (int (length p)) (CHR ''$'');
          (sv, c) \<leftarrow> addReplyString usable fill sv c p;
          addReply usable fill sv c (SdsObj CRLF) }"

definition addReplyBulkLongLong ::
  "(nat \<Rightarrow> nat) \<Rightarrow> (nat \<Rightarrow> char) \<Rightarrow> redisServer \<Rightarrow> client \<Rightarrow> int \<Rightarrow> (redisServer \<times> client) option" where
  "addReplyBulkLongLong usable fill sv c ll =
     do { (buf, len) \<leftarrow> ll2string (map fill [0..<64]) ll;
          s \<leftarrow> mem_read buf 0 len;
          addReplyBulkCBuffer usable fill sv c s }"

text \<open>The placeholder for a length not known yet is a node without block; the node is its
  position in the list, which does not change while replies are appended.\<close>

definition addDeferredMultiBulkLength :: "redisServer \<Rightarrow> client \<Rightarrow> redisServer \<times> client \<times> nat option" where
  "addDeferredMultiBulkLength sv c =
     (let (sv, c, ok) = prepareClientToWrite sv c
      in if \<not> ok then (sv, c, None)
         else (sv, c\<lparr>cl_reply := cl_reply c @ [None]\<rparr>, Some (length (cl_reply c))))"

definition setDeferredMultiBulkLength ::
  "(nat \<Rightarrow> nat) \<Rightarrow> (nat \<Rightarrow> char) \<Rightarrow> redisServer \<Rightarrow> client \<Rightarrow> nat option \<Rightarrow> int \<Rightarrow> (redisServer \<times> client) option" where
  "setDeferredMultiBulkLength usable fill sv c node len =
     (let lenstr = ''*'' @ sdec len @ CRLF
      in case node of
           None \<Rightarrow> Some (sv, c)
         | Some ln \<Rightarrow>
             if \<not> ln < length (cl_reply c) \<or> cl_reply c ! ln \<noteq> None then None
             else do {
               c \<leftarrow> (case (if ln + 1 < length (cl_reply c) then cl_reply c ! (ln + 1) else None) of
                       Some nx \<Rightarrow>
                         if blk_size nx - blk_used nx \<ge> length lenstr \<and> blk_used nx < PROTO_REPLY_CHUNK_BYTES * 4
                         then do {
                           b \<leftarrow> mem_move (blk_buf nx) (length lenstr) 0 (blk_used nx);
                           b \<leftarrow> mem_write b 0 lenstr;
                           Some (c\<lparr>cl_reply := take ln (cl_reply c) @
                                     [Some (nx\<lparr>blk_buf := b, blk_used := blk_used nx + length lenstr\<rparr>)] @
                                     drop (ln + 2) (cl_reply c)\<rparr>) }
                         else do {
                           b \<leftarrow> new_block usable fill (length lenstr) lenstr;
                           Some (c\<lparr>cl_reply := (cl_reply c)[ln := Some b],
                                   cl_reply_bytes := (cl_reply_bytes c + blk_size b) mod 2 ^ 64\<rparr>) }
                     | None \<Rightarrow> do {
                         b \<leftarrow> new_block usable fill (length lenstr) lenstr;
                         Some (c\<lparr>cl_reply := (cl_reply c)[ln := Some b],
                                 cl_reply_bytes := (cl_reply_bytes c + blk_size b) mod 2 ^ 64\<rparr>) });
               asyncCloseClientOnOutputBufferLimitReached sv c })"

section \<open>Sending\<close>

text \<open>
  \<open>net i n\<close> is the result of the \<open>i\<close>-th call of \<open>write(2)\<close> when asked to write \<open>n\<close> bytes, \<open>mem i\<close>
  the memory in use at that time. The loop returns the client, the last result, the number of
  bytes written and the bytes themselves.
\<close>

definition write_pause :: "(nat \<Rightarrow> nat) \<Rightarrow> redisServer \<Rightarrow> nat \<Rightarrow> nat \<Rightarrow> client \<Rightarrow> bool" where
  "write_pause mem sv i tot c \<longleftrightarrow>
     tot > NET_MAX_WRITES_PER_EVENT \<and> (sv_maxmemory sv = 0 \<or> mem i < sv_maxmemory sv) \<and> \<not> has_flag c CLIENT_SLAVE"

partial_function (option) write_loop ::
  "(nat \<Rightarrow> nat \<Rightarrow> int) \<Rightarrow> (nat \<Rightarrow> nat) \<Rightarrow> redisServer \<Rightarrow> nat \<Rightarrow> int \<Rightarrow> nat \<Rightarrow> string \<Rightarrow> client \<Rightarrow>
     (client \<times> int \<times> nat \<times> string) option" where
  "write_loop net mem sv i nwritten tot sent c =
     (if \<not> clientHasPendingReplies c then Some (c, nwritten, tot, sent)
      else if cl_bufpos c > 0 then
        (if cl_sentlen c > cl_bufpos c then None
         else do {
           bs \<leftarrow> mem_read (cl_buf c) (cl_sentlen c) (cl_bufpos c - cl_sentlen c);
           let nwritten = net i (length bs);
           if nwritten \<le> 0 then Some (c, nwritten, tot, sent)
           else do {
             let sent = sent @ take (nat nwritten) bs;
             let c = c\<lparr>cl_sentlen := cl_sentlen c + nat nwritten\<rparr>;
             let tot = tot + nat nwritten;
             let c = (if cl_sentlen c = cl_bufpos c then c\<lparr>cl_bufpos := 0, cl_sentlen := 0\<rparr> else c);
             if write_pause mem sv i tot c then Some (c, nwritten, tot, sent)
             else write_loop net mem sv (i + 1) nwritten tot sent c } })
      else
        (case hd (cl_reply c) of
           None \<Rightarrow> None
         | Some b \<Rightarrow>
             if blk_used b = 0 then
               write_loop net mem sv i nwritten tot sent
                 (c\<lparr>cl_reply_bytes := (cl_reply_bytes c + 2 ^ 64 - blk_size b) mod 2 ^ 64, cl_reply := tl (cl_reply c)\<rparr>)
             else if cl_sentlen c > blk_used b then None
             else do {
               bs \<leftarrow> mem_read (blk_buf b) (cl_sentlen c) (blk_used b - cl_sentlen c);
               let nwritten = net i (length bs);
               if nwritten \<le> 0 then Some (c, nwritten, tot, sent)
               else do {
                 let sent = sent @ take (nat nwritten) bs;
                 let c = c\<lparr>cl_sentlen := cl_sentlen c + nat nwritten\<rparr>;
                 let tot = tot + nat nwritten;
                 c \<leftarrow> (if cl_sentlen c = blk_used b then
                         (let c = c\<lparr>cl_reply_bytes := (cl_reply_bytes c + 2 ^ 64 - blk_size b) mod 2 ^ 64,
                                    cl_reply := tl (cl_reply c), cl_sentlen := 0\<rparr>
                          in if cl_reply c = [] \<and> cl_reply_bytes c \<noteq> 0 then None else Some c)
                       else Some c);
                 if write_pause mem sv i tot c then Some (c, nwritten, tot, sent)
                 else write_loop net mem sv (i + 1) nwritten tot sent c } }))"

datatype client_state = Live client | Freed

text \<open>\<open>eagain\<close> tells whether \<open>errno\<close> is \<open>EAGAIN\<close> after the last call. The last component of the result
  are the bytes that went to the socket.\<close>

definition writeToClient ::
  "(nat \<Rightarrow> nat \<Rightarrow> int) \<Rightarrow> (nat \<Rightarrow> nat) \<Rightarrow> bool \<Rightarrow> redisServer \<Rightarrow> client \<Rightarrow>
     (redisServer \<times> client_state \<times> string) option" where
  "writeToClient net mem eagain sv c =
     do { (c, nwritten, tot, sent) \<leftarrow> write_loop net mem sv 0 0 0 [] c;
          let sv = sv\<lparr>sv_stat_net_output_bytes := sv_stat_net_output_bytes sv + int tot\<rparr>;
          if nwritten = - 1 \<and> \<not> eagain then Some (sv, Freed, sent)
          else do {
            let c = (if tot > 0 \<and> \<not> has_flag c CLIENT_MASTER then c\<lparr>cl_lastinteraction := sv_unixtime sv\<rparr> else c);
            if \<not> clientHasPendingReplies c then
              (let c = c\<lparr>cl_sentlen := 0\<rparr>
               in if has_flag c CLIENT_CLOSE_AFTER_REPLY then Some (sv, Freed, sent) else Some (sv, Live c, sent))
            else Some (sv, Live c, sent) } }"

section \<open>The output as a stream\<close>

definition blk_text :: "clientReplyBlock \<Rightarrow> string" where
  "blk_text b = take (blk_used b) (blk_buf b)"

definition blk_ok :: "clientReplyBlock \<Rightarrow> bool" where
  "blk_ok b \<longleftrightarrow> 0 < blk_used b \<and> blk_used b \<le> blk_size b \<and> length (blk_buf b) = blk_size b"

definition node_text :: "clientReplyBlock option \<Rightarrow> string" where
  "node_text r = (case r of Some b \<Rightarrow> blk_text b | None \<Rightarrow> [])"

definition node_size :: "clientReplyBlock option \<Rightarrow> nat" where
  "node_size r = (case r of Some b \<Rightarrow> blk_size b | None \<Rightarrow> 0)"

definition reply_ok :: "clientReplyBlock option list \<Rightarrow> bool" where
  "reply_ok rs \<longleftrightarrow> (\<forall>r \<in> set rs. case r of Some b \<Rightarrow> blk_ok b | None \<Rightarrow> True)"

definition outtext :: "client \<Rightarrow> string" where
  "outtext c = take (cl_bufpos c) (cl_buf c) @ concat (map node_text (cl_reply c))"

text \<open>What has been queued and not been sent yet.\<close>

definition pending :: "client \<Rightarrow> string" where
  "pending c = drop (cl_sentlen c) (outtext c)"

text \<open>The invariant of the output side. \<open>sentlen\<close> counts bytes of the first store in use, which it
  never exhausts. The list is settled when no length is left to fill in.\<close>

definition first_len :: "client \<Rightarrow> nat" where
  "first_len c = (if cl_bufpos c > 0 then cl_bufpos c else (case cl_reply c of r # _ \<Rightarrow> length (node_text r) | [] \<Rightarrow> 0))"

definition out_inv :: "client \<Rightarrow> bool" where
  "out_inv c \<longleftrightarrow> length (cl_buf c) = PROTO_REPLY_CHUNK_BYTES \<and> cl_bufpos c \<le> PROTO_REPLY_CHUNK_BYTES \<and>
     reply_ok (cl_reply c) \<and> cl_reply_bytes c = sum_list (map node_size (cl_reply c)) \<and>
     (cl_sentlen c < first_len c \<or> cl_sentlen c = 0)"

definition settled :: "client \<Rightarrow> bool" where
  "settled c \<longleftrightarrow> None \<notin> set (cl_reply c)"

text \<open>Replies to this client are queued.\<close>

definition may_queue :: "client \<Rightarrow> bool" where
  "may_queue c \<longleftrightarrow> has_flag c (CLIENT_LUA OR CLIENT_MODULE) \<or>
     \<not> has_flag c (CLIENT_REPLY_OFF OR CLIENT_REPLY_SKIP) \<and>
     (has_flag c CLIENT_MASTER \<longrightarrow> has_flag c CLIENT_MASTER_FORCE_REPLY) \<and> cl_fd c > 0"

definition accepts :: "client \<Rightarrow> bool" where
  "accepts c \<longleftrightarrow> \<not> has_flag c CLIENT_CLOSE_AFTER_REPLY \<and> may_queue c"

text \<open>The allocator returns at least what is asked for, and less than 4 GB for a request of less than 2 GB.\<close>

definition allocator :: "(nat \<Rightarrow> nat) \<Rightarrow> bool" where
  "allocator usable \<longleftrightarrow> (\<forall>n < 2 ^ 31. n \<le> usable n \<and> usable n < 2 ^ 32)"

text \<open>What the bookkeeping around a reply may change: the flags \<open>PENDING_WRITE\<close> and \<open>CLOSE_ASAP\<close> and
  the time of the soft limit.\<close>

definition bookkept :: "client \<Rightarrow> client \<Rightarrow> bool" where
  "bookkept c c' \<longleftrightarrow> (\<exists>f t. c' = c\<lparr>cl_flags := f, cl_obuf_soft_limit_reached_time := t\<rparr> \<and>
     (\<forall>g. g AND (CLIENT_PENDING_WRITE OR CLIENT_CLOSE_ASAP) = 0 \<longrightarrow> f AND g = cl_flags c AND g))"

lemma bookkept_refl: "bookkept c c"
  unfolding bookkept_def by (intro exI [of _ "cl_flags c"] exI [of _ "cl_obuf_soft_limit_reached_time c"]) simp

lemma bookkept_trans:
  assumes "bookkept a b" and "bookkept b c"
  shows "bookkept a c"
proof -
  obtain f t where b: "b = a\<lparr>cl_flags := f, cl_obuf_soft_limit_reached_time := t\<rparr>"
    "\<forall>g. g AND (CLIENT_PENDING_WRITE OR CLIENT_CLOSE_ASAP) = 0 \<longrightarrow> f AND g = cl_flags a AND g"
    using assms(1) unfolding bookkept_def by blast
  obtain f' t' where c: "c = b\<lparr>cl_flags := f', cl_obuf_soft_limit_reached_time := t'\<rparr>"
    "\<forall>g. g AND (CLIENT_PENDING_WRITE OR CLIENT_CLOSE_ASAP) = 0 \<longrightarrow> f' AND g = cl_flags b AND g"
    using assms(2) unfolding bookkept_def by blast
  have "c = a\<lparr>cl_flags := f', cl_obuf_soft_limit_reached_time := t'\<rparr>" using b(1) c(1) by simp
  moreover have "\<forall>g. g AND (CLIENT_PENDING_WRITE OR CLIENT_CLOSE_ASAP) = 0 \<longrightarrow> f' AND g = cl_flags a AND g"
    using b c(2) by simp
  ultimately show ?thesis unfolding bookkept_def by blast
qed

lemma set_flag_bookkept:
  assumes "f = CLIENT_PENDING_WRITE \<or> f = CLIENT_CLOSE_ASAP"
  shows "bookkept c (set_flag c f)"
proof -
  have "(cl_flags c OR f) AND g = cl_flags c AND g" if g: "g AND (CLIENT_PENDING_WRITE OR CLIENT_CLOSE_ASAP) = 0" for g
  proof -
    have f: "f AND (CLIENT_PENDING_WRITE OR CLIENT_CLOSE_ASAP) = f" using assms by (auto simp: client_flag_defs)
    have "f AND g = (f AND (CLIENT_PENDING_WRITE OR CLIENT_CLOSE_ASAP)) AND g" unfolding f ..
    also have "\<dots> = f AND (g AND (CLIENT_PENDING_WRITE OR CLIENT_CLOSE_ASAP))"
      unfolding and.assoc and.commute [of g] ..
    finally have "f AND g = 0" using g by simp
    then show ?thesis by (simp add: bit.conj_disj_distrib2)
  qed
  then show ?thesis unfolding bookkept_def set_flag_def
    by (intro exI [of _ "cl_flags c OR f"] exI [of _ "cl_obuf_soft_limit_reached_time c"]) simp
qed

lemma time_bookkept: "bookkept c (c\<lparr>cl_obuf_soft_limit_reached_time := t\<rparr>)"
  unfolding bookkept_def by (intro exI [of _ "cl_flags c"] exI [of _ t]) simp

lemma bookkept_flag:
  assumes "bookkept c c'" and "g AND (CLIENT_PENDING_WRITE OR CLIENT_CLOSE_ASAP) = 0"
  shows "has_flag c' g = has_flag c g"
proof -
  obtain f t where "c' = c\<lparr>cl_flags := f, cl_obuf_soft_limit_reached_time := t\<rparr>" "f AND g = cl_flags c AND g"
    using assms unfolding bookkept_def by blast
  then show ?thesis by (simp add: has_flag_def)
qed

lemma bookkept_fields:
  assumes "bookkept c c'"
  shows "cl_fd c' = cl_fd c" and "cl_reply c' = cl_reply c" and "cl_reply_bytes c' = cl_reply_bytes c"
    and "cl_buf c' = cl_buf c" and "cl_bufpos c' = cl_bufpos c" and "cl_sentlen c' = cl_sentlen c"
    and "outtext c' = outtext c" and "pending c' = pending c" and "first_len c' = first_len c" and "out_inv c' = out_inv c"
proof -
  obtain f t where "c' = c\<lparr>cl_flags := f, cl_obuf_soft_limit_reached_time := t\<rparr>"
    using assms unfolding bookkept_def by blast
  then show "cl_fd c' = cl_fd c" "cl_reply c' = cl_reply c" "cl_reply_bytes c' = cl_reply_bytes c"
    "cl_buf c' = cl_buf c" "cl_bufpos c' = cl_bufpos c" "cl_sentlen c' = cl_sentlen c"
    "outtext c' = outtext c" "pending c' = pending c" "first_len c' = first_len c" "out_inv c' = out_inv c"
    by (simp_all add: outtext_def pending_def first_len_def out_inv_def)
qed

lemma bookkept_accepts:
  assumes "bookkept c c'"
  shows "accepts c' = accepts c" and "may_queue c' = may_queue c" and "has_flag c' CLIENT_CLOSE_AFTER_REPLY = has_flag c CLIENT_CLOSE_AFTER_REPLY"
    and "has_flag c' CLIENT_SLAVE = has_flag c CLIENT_SLAVE"
proof -
  note b = bookkept_flag [OF assms]
  have "has_flag c' CLIENT_CLOSE_AFTER_REPLY = has_flag c CLIENT_CLOSE_AFTER_REPLY"
    "has_flag c' (CLIENT_LUA OR CLIENT_MODULE) = has_flag c (CLIENT_LUA OR CLIENT_MODULE)"
    "has_flag c' (CLIENT_REPLY_OFF OR CLIENT_REPLY_SKIP) = has_flag c (CLIENT_REPLY_OFF OR CLIENT_REPLY_SKIP)"
    "has_flag c' CLIENT_MASTER = has_flag c CLIENT_MASTER"
    "has_flag c' CLIENT_MASTER_FORCE_REPLY = has_flag c CLIENT_MASTER_FORCE_REPLY"
    "has_flag c' CLIENT_SLAVE = has_flag c CLIENT_SLAVE"
    by (rule b, simp add: client_flag_defs)+
  then show "accepts c' = accepts c" "may_queue c' = may_queue c" "has_flag c' CLIENT_CLOSE_AFTER_REPLY = has_flag c CLIENT_CLOSE_AFTER_REPLY"
    "has_flag c' CLIENT_SLAVE = has_flag c CLIENT_SLAVE"
    using bookkept_fields(1) [OF assms] by (simp_all add: accepts_def may_queue_def)
qed

section \<open>Queueing appends to the stream\<close>

text \<open>Replies do not change the configuration \<open>cfg\<close> of the server, which has output limits for the three kinds
  of clients.\<close>

definition sv_config :: "redisServer \<Rightarrow> redisServer" where
  "sv_config sv = sv\<lparr>sv_unixtime := 0, sv_clients_pending_write := [], sv_clients_to_close := [], sv_lua_timedout := False,
     sv_clients_paused := False, sv_stat_net_output_bytes := 0, sv_stat_net_input_bytes := 0, sv_monitors := []\<rparr>"

definition limits_ok :: "redisServer \<Rightarrow> redisServer \<Rightarrow> bool" where
  "limits_ok cfg sv \<longleftrightarrow> sv_config sv = cfg \<and> 3 \<le> length (sv_client_obuf_limits sv)"

lemma prepare_correct:
  obtains sv' c' where "prepareClientToWrite sv c = (sv', c', may_queue c)" and "bookkept c c'"
    and "limits_ok cfg sv' = limits_ok cfg sv"
proof -
  obtain sv' c' where i: "clientInstallWriteHandler sv c = (sv', c')" by fastforce
  have "bookkept c c'" "limits_ok cfg sv' = limits_ok cfg sv"
    using i set_flag_bookkept [of CLIENT_PENDING_WRITE c] bookkept_refl [of c]
    by (auto simp: clientInstallWriteHandler_def limits_ok_def sv_config_def split: if_splits)
  moreover have "prepareClientToWrite sv c =
    ((if may_queue c \<and> \<not> has_flag c (CLIENT_LUA OR CLIENT_MODULE) \<and> \<not> clientHasPendingReplies c then sv' else sv),
     (if may_queue c \<and> \<not> has_flag c (CLIENT_LUA OR CLIENT_MODULE) \<and> \<not> clientHasPendingReplies c then c' else c),
     may_queue c)"
    using i by (auto simp: prepareClientToWrite_def may_queue_def)
  ultimately show ?thesis using that bookkept_refl [of c] by (simp split: if_splits)
qed

lemma checkLimits_correct:
  assumes "limits_ok cfg sv"
  obtains c' over where "checkClientOutputBufferLimits sv c = Some (c', over)" and "bookkept c c'"
proof -
  define cls where "cls = (if getClientType c = CLIENT_TYPE_MASTER then CLIENT_TYPE_NORMAL else getClientType c)"
  have "type_index cls < length (sv_client_obuf_limits sv)"
    using assms by (auto simp: cls_def type_index_def limits_ok_def split: client_type.splits)
  then obtain c' over where "checkClientOutputBufferLimits sv c = Some (c', over)"
      and "c' = c \<or> (\<exists>t. c' = c\<lparr>cl_obuf_soft_limit_reached_time := t\<rparr>)"
    unfolding checkClientOutputBufferLimits_def Let_def cls_def [symmetric] by (fastforce split: if_splits)
  then show ?thesis using that bookkept_refl [of c] time_bookkept [of c] by blast
qed

lemma asyncClose_correct:
  assumes "limits_ok cfg sv" and "cl_reply_bytes c < 2 ^ 63"
  obtains sv' c' where "asyncCloseClientOnOutputBufferLimitReached sv c = Some (sv', c')" and "bookkept c c'"
    and "limits_ok cfg sv'"
proof -
  obtain c1 over where c1: "checkClientOutputBufferLimits sv c = Some (c1, over)" "bookkept c c1"
    using checkLimits_correct [OF assms(1)] by blast
  obtain sv2 c2 where c2: "freeClientAsync sv c1 = (sv2, c2)" by fastforce
  have "bookkept c1 c2" "limits_ok cfg sv2"
    using c2 assms(1) set_flag_bookkept [of CLIENT_CLOSE_ASAP c1] bookkept_refl [of c1]
    by (auto simp: freeClientAsync_def limits_ok_def sv_config_def split: if_splits)
  then have "bookkept c c2" using bookkept_trans c1(2) by blast
  have lt: "cl_reply_bytes c < 2 ^ 64 - 1 - 1024 * 64" using assms(2) by simp
  show ?thesis
  proof (cases "cl_fd c = - 1 \<or> cl_reply_bytes c = 0 \<or> has_flag c CLIENT_CLOSE_ASAP")
    case True
    then show ?thesis using that [of sv c] bookkept_refl [of c] assms(1) lt
      by (auto simp: asyncCloseClientOnOutputBufferLimitReached_def)
  next
    case False
    then have "asyncCloseClientOnOutputBufferLimitReached sv c = Some (if over then (sv2, c2) else (sv, c1))"
      using c1(1) c2 lt by (simp add: asyncCloseClientOnOutputBufferLimitReached_def)
    then show ?thesis using that \<open>bookkept c c2\<close> \<open>limits_ok cfg sv2\<close> c1(2) assms(1) by (cases over) auto
  qed
qed

lemma length_blk_text: "blk_ok b \<Longrightarrow> length (blk_text b) = blk_used b"
  by (simp add: blk_ok_def blk_text_def)

lemma first_len_le: "cl_bufpos c \<le> length (cl_buf c) \<Longrightarrow> first_len c \<le> length (outtext c)"
  by (simp add: first_len_def outtext_def split: list.splits)

lemma pending_append:
  assumes "out_inv c" and "outtext c' = outtext c @ s" and "cl_sentlen c' = cl_sentlen c"
  shows "pending c' = pending c @ s"
proof -
  have "cl_sentlen c \<le> length (outtext c)"
    using assms(1) first_len_le [of c] by (auto simp: out_inv_def)
  then show ?thesis by (simp add: pending_def assms(2,3))
qed

text \<open>The static buffer takes the text, or leaves it to the list.\<close>

lemma addReplyToBuffer_correct:
  assumes inv: "out_inv c" and open_: "\<not> has_flag c CLIENT_CLOSE_AFTER_REPLY"
  obtains (taken) c' where "addReplyToBuffer c s = Some (c', True)" and "out_inv c'" and "pending c' = pending c @ s"
      and "c' = c\<lparr>cl_buf := cl_buf c', cl_bufpos := cl_bufpos c'\<rparr>" and "cl_reply c = []"
  | (full) "addReplyToBuffer c s = Some (c, False)" and "cl_reply c \<noteq> [] \<or> PROTO_REPLY_CHUNK_BYTES - cl_bufpos c < length s"
proof (cases "cl_reply c \<noteq> [] \<or> PROTO_REPLY_CHUNK_BYTES - cl_bufpos c < length s")
  case True
  then show ?thesis using full open_ by (auto simp: addReplyToBuffer_def Let_def)
next
  case False
  have len: "length (cl_buf c) = PROTO_REPLY_CHUNK_BYTES" "cl_bufpos c \<le> PROTO_REPLY_CHUNK_BYTES"
    using inv by (simp_all add: out_inv_def)
  define b where "b = take (cl_bufpos c) (cl_buf c) @ s @ drop (cl_bufpos c + length s) (cl_buf c)"
  have fit: "cl_bufpos c + length s \<le> length (cl_buf c)" using False len by auto
  have w: "mem_write (cl_buf c) (cl_bufpos c) s = Some b"
    using mem_write_Some [OF fit] by (simp add: b_def)
  define c' where "c' = c\<lparr>cl_buf := b, cl_bufpos := cl_bufpos c + length s\<rparr>"
  have t: "take (cl_bufpos c') (cl_buf c') = take (cl_bufpos c) (cl_buf c) @ s"
    using fit by (simp add: c'_def b_def)
  then have "outtext c' = outtext c @ s" using False by (simp add: outtext_def c'_def)
  then have "pending c' = pending c @ s" using pending_append [OF inv, of c' s] by (simp add: c'_def)
  moreover have "out_inv c'"
    using inv fit len mem_write_length [OF w] False by (auto simp: out_inv_def c'_def first_len_def split: if_splits)
  moreover have "addReplyToBuffer c s = Some (c', True)"
    using False open_ w by (simp add: addReplyToBuffer_def Let_def c'_def)
  ultimately show ?thesis using taken [of c'] False by (simp add: c'_def)
qed

lemma reply_ok_append: "reply_ok (rs @ qs) \<longleftrightarrow> reply_ok rs \<and> reply_ok qs"
  by (auto simp: reply_ok_def)

lemma reply_ok_Nil [simp]: "reply_ok []"
  by (simp add: reply_ok_def)

lemma reply_ok_Cons: "reply_ok (r # rs) \<longleftrightarrow> (case r of Some b \<Rightarrow> blk_ok b | None \<Rightarrow> True) \<and> reply_ok rs"
  by (simp add: reply_ok_def)

text \<open>A length that is left to fill in stays where it is, with all that was queued before it; their number
  does not change.\<close>

definition holes_kept :: "client \<Rightarrow> client \<Rightarrow> bool" where
  "holes_kept c c' \<longleftrightarrow> count_list (cl_reply c') None = count_list (cl_reply c) None \<and> (\<forall>ln < length (cl_reply c). cl_reply c ! ln = None \<longrightarrow>
     cl_bufpos c' = cl_bufpos c \<and> cl_buf c' = cl_buf c \<and> take (Suc ln) (cl_reply c') = take (Suc ln) (cl_reply c))"

lemma holes_kept_refl: "cl_bufpos c' = cl_bufpos c \<Longrightarrow> cl_buf c' = cl_buf c \<Longrightarrow> cl_reply c' = cl_reply c \<Longrightarrow> holes_kept c c'"
  by (simp add: holes_kept_def)

lemma holes_kept_nth:
  assumes "holes_kept c c'" and "ln < length (cl_reply c)" and "cl_reply c ! ln = None"
  shows "ln < length (cl_reply c')" and "cl_reply c' ! ln = None"
proof -
  have t: "take (Suc ln) (cl_reply c') = take (Suc ln) (cl_reply c)" using assms by (simp add: holes_kept_def)
  then have "length (take (Suc ln) (cl_reply c')) = Suc ln" using assms(2) by simp
  then show "ln < length (cl_reply c')" by simp
  then show "cl_reply c' ! ln = None" using arg_cong [OF t, of "\<lambda>r. r ! ln"] assms(3) by simp
qed

lemma holes_kept_trans:
  assumes "holes_kept a b" and "holes_kept b c"
  shows "holes_kept a c"
proof -
  have "cl_bufpos c = cl_bufpos a \<and> cl_buf c = cl_buf a \<and> take (Suc ln) (cl_reply c) = take (Suc ln) (cl_reply a)"
    if ln: "ln < length (cl_reply a)" "cl_reply a ! ln = None" for ln
    using assms holes_kept_nth [OF assms(1) ln] ln by (simp add: holes_kept_def)
  then show ?thesis using assms by (simp add: holes_kept_def)
qed

lemma append_to_tail_correct:
  assumes inv: "out_inv c"
  obtains c' s' where "append_to_tail c s = Some (c', s')" and "out_inv c'" and "outtext c' @ s' = outtext c @ s"
    and "c' = c\<lparr>cl_reply := cl_reply c'\<rparr>" and "length s' \<le> length s" and "holes_kept c c'"
    and "cl_reply c' = [] \<longleftrightarrow> cl_reply c = []"
proof (cases "\<exists>rs b. cl_reply c = rs @ [Some b]")
  case False
  then have "append_to_tail c s = Some (c, s)"
    by (cases "cl_reply c" rule: rev_cases) (auto simp: append_to_tail_def split: option.splits)
  then show ?thesis using that [of c s] inv by (simp add: holes_kept_refl)
next
  case True
  then obtain rs b where snoc: "cl_reply c = rs @ [Some b]" by blast
  then have b: "blk_ok b" and rs: "reply_ok rs"
    using inv by (auto simp: out_inv_def reply_ok_append reply_ok_Cons)
  define copy where "copy = (if blk_size b - blk_used b \<ge> length s then length s else blk_size b - blk_used b)"
  have u: "blk_used b \<le> blk_size b" "length (blk_buf b) = blk_size b" using b by (simp_all add: blk_ok_def)
  have lc: "length (take copy s) = copy" and fit: "blk_used b + copy \<le> length (blk_buf b)" and "copy \<le> length s"
    using u by (auto simp: copy_def)
  define m where "m = take (blk_used b) (blk_buf b) @ take copy s @ drop (blk_used b + copy) (blk_buf b)"
  have w: "mem_write (blk_buf b) (blk_used b) (take copy s) = Some m"
    using mem_write_Some [of "blk_used b" "take copy s" "blk_buf b"] fit unfolding lc m_def by simp
  define b' where "b' = b\<lparr>blk_buf := m, blk_used := blk_used b + copy\<rparr>"
  define c' where "c' = c\<lparr>cl_reply := rs @ [Some b']\<rparr>"
  have text': "blk_text b' = blk_text b @ take copy s" using fit lc by (simp add: blk_text_def b'_def m_def)
  have ok': "blk_ok b'" "blk_size b' = blk_size b" using b fit mem_write_length [OF w] by (simp_all add: blk_ok_def b'_def)
  have "first_len c \<le> first_len c'"
    using snoc text' by (cases rs) (simp_all add: first_len_def c'_def node_text_def)
  moreover have "cl_sentlen c < first_len c \<or> cl_sentlen c = 0" using inv by (simp add: out_inv_def)
  ultimately have "cl_sentlen c < first_len c' \<or> cl_sentlen c = 0" by linarith
  then have "out_inv c'"
    using inv snoc rs ok' by (simp add: out_inv_def c'_def reply_ok_append reply_ok_Cons node_size_def)
  moreover have "append_to_tail c s = Some (c', drop copy s)"
    using snoc w by (simp add: append_to_tail_def Let_def c'_def b'_def copy_def)
  moreover have "outtext c' @ drop copy s = outtext c @ s"
    using snoc text' by (simp add: outtext_def c'_def node_text_def)
  moreover have "holes_kept c c'"
    using snoc by (auto simp: holes_kept_def c'_def nth_append less_Suc_eq)
  ultimately show ?thesis using that [of c' "drop copy s"] snoc by (simp add: c'_def)
qed

lemma new_block_correct:
  assumes al: "allocator usable" and "length s \<le> sz" and "sz < 2 ^ 30" and "s \<noteq> []"
  obtains b where "new_block usable fill sz s = Some b" and "blk_ok b" and "blk_text b = s" and "blk_size b < 2 ^ 32"
proof -
  have "sz + 16 < 2 ^ 31" using assms(3) by simp
  then have u: "sz + 16 \<le> usable (sz + 16)" "usable (sz + 16) < 2 ^ 32" using al by (simp_all add: allocator_def)
  define total where "total = usable (sz + 16) - 16"
  have fit: "0 + length s \<le> length (map fill [0..<total])" using u(1) assms(2) by (simp add: total_def)
  define m where "m = s @ drop (length s) (map fill [0..<total])"
  have w: "mem_write (map fill [0..<total]) 0 s = Some m"
    using mem_write_Some [OF fit] by (simp add: m_def)
  show ?thesis
  proof (rule that [of "\<lparr>blk_size = total, blk_used = length s, blk_buf = m\<rparr>"])
    show "new_block usable fill sz s = Some \<lparr>blk_size = total, blk_used = length s, blk_buf = m\<rparr>"
      using w by (simp add: new_block_def total_def)
    show "blk_ok \<lparr>blk_size = total, blk_used = length s, blk_buf = m\<rparr>"
      using fit assms(4) mem_write_length [OF w] by (simp add: blk_ok_def)
  qed (use u(2) in \<open>simp_all add: blk_text_def m_def total_def\<close>)
qed

text \<open>Everything but the stores of the output.\<close>

definition outside :: "client \<Rightarrow> client" where
  "outside c = c\<lparr>cl_reply := [], cl_reply_bytes := 0, cl_buf := [], cl_bufpos := 0\<rparr>"

text \<open>The effect of queueing \<open>s\<close>, with at most \<open>k\<close> new blocks: the text is at the end of the stream
  unless the client takes no replies, and nothing else changes but the bookkeeping.\<close>

definition appended :: "nat \<Rightarrow> client \<Rightarrow> string \<Rightarrow> client \<Rightarrow> bool" where
  "appended k c s c' \<longleftrightarrow> out_inv c' \<and> pending c' = pending c @ (if accepts c then s else []) \<and>
     bookkept (outside c) (outside c') \<and> holes_kept c c' \<and> cl_reply_bytes c' \<le> cl_reply_bytes c + k * 2 ^ 32"

lemma outside_flags: "has_flag (outside c) g = has_flag c g" "accepts (outside c) = accepts c" "may_queue (outside c) = may_queue c"
  by (simp_all add: outside_def has_flag_def accepts_def may_queue_def)

lemma appended_flags:
  assumes "bookkept (outside c) (outside c')"
  shows "accepts c' = accepts c" and "may_queue c' = may_queue c"
    and "has_flag c' CLIENT_CLOSE_AFTER_REPLY = has_flag c CLIENT_CLOSE_AFTER_REPLY"
    and "has_flag c' CLIENT_SLAVE = has_flag c CLIENT_SLAVE"
  using bookkept_accepts [OF assms] by (simp_all add: outside_flags)

lemma bookkept_outside: "bookkept c c' \<Longrightarrow> bookkept (outside c) (outside c')"
  unfolding bookkept_def outside_def
  by (elim exE conjE, intro exI [of _ "cl_flags c'"] exI [of _ "cl_obuf_soft_limit_reached_time c'"]) simp

lemma bookkept_appended: "bookkept c c' \<Longrightarrow> out_inv c \<Longrightarrow> \<not> accepts c \<or> s = [] \<Longrightarrow> appended k c s c'"
  by (auto simp: appended_def bookkept_fields bookkept_outside intro!: holes_kept_refl)

lemma appendedD:
  assumes "appended k c s c'"
  shows "out_inv c'" and "pending c' = pending c @ (if accepts c then s else [])" and "bookkept (outside c) (outside c')"
    and "holes_kept c c'" and "cl_reply_bytes c' \<le> cl_reply_bytes c + k * 2 ^ 32"
proof -
  show "out_inv c'" "pending c' = pending c @ (if accepts c then s else [])" "bookkept (outside c) (outside c')"
    "holes_kept c c'" "cl_reply_bytes c' \<le> cl_reply_bytes c + k * 2 ^ 32"
    using assms unfolding appended_def by blast+
qed

lemma block_budget: "x \<le> a + k * K \<Longrightarrow> y \<le> x + l * K \<Longrightarrow> y \<le> a + (k + l) * K" for K :: nat
  by (simp add: add_mult_distrib)

lemma appended_trans:
  assumes "appended k a s b" and "appended l b t c"
  shows "appended (k + l) a (s @ t) c"
  unfolding appended_def
proof (intro conjI)
  have "accepts b = accepts a" by (rule appended_flags(1) [OF appendedD(3) [OF assms(1)]])
  then show "pending c = pending a @ (if accepts a then s @ t else [])"
    using appendedD(2) [OF assms(1)] appendedD(2) [OF assms(2)] by simp
  show "cl_reply_bytes c \<le> cl_reply_bytes a + (k + l) * 2 ^ 32"
    by (rule block_budget [OF appendedD(5) [OF assms(1)] appendedD(5) [OF assms(2)]])
  show "bookkept (outside a) (outside c)" by (rule bookkept_trans [OF appendedD(3) [OF assms(1)] appendedD(3) [OF assms(2)]])
  show "holes_kept a c" by (rule holes_kept_trans [OF appendedD(4) [OF assms(1)] appendedD(4) [OF assms(2)]])
qed (rule appendedD(1) [OF assms(2)])

lemma add_node_correct:
  assumes inv: "out_inv c" and b: "blk_ok b" and small: "cl_reply_bytes c + blk_size b < 2 ^ 64"
    and c': "c' = c\<lparr>cl_reply := cl_reply c @ [Some b], cl_reply_bytes := (cl_reply_bytes c + blk_size b) mod 2 ^ 64\<rparr>"
  shows "out_inv c'" and "outtext c' = outtext c @ blk_text b" and "holes_kept c c'"
    and "cl_reply_bytes c' = cl_reply_bytes c + blk_size b"
proof -
  have m: "(cl_reply_bytes c + blk_size b) mod 2 ^ 64 = cl_reply_bytes c + blk_size b" by (rule mod_less [OF small])
  have "cl_sentlen c < first_len c' \<or> cl_sentlen c = 0"
    using inv unfolding out_inv_def c' by (cases "cl_reply c") (auto simp: first_len_def split: if_splits)
  then show "out_inv c'" using inv b unfolding c' m
    by (simp add: out_inv_def reply_ok_append reply_ok_Cons node_size_def)
  show "outtext c' = outtext c @ blk_text b" by (simp add: outtext_def c' node_text_def)
  show "holes_kept c c'" by (auto simp: holes_kept_def c')
  show "cl_reply_bytes c' = cl_reply_bytes c + blk_size b" unfolding c' m by simp
qed

definition rest_to_list :: "(nat \<Rightarrow> nat) \<Rightarrow> (nat \<Rightarrow> char) \<Rightarrow> client \<Rightarrow> string \<Rightarrow> client option" where
  "rest_to_list usable fill c s =
     (if s \<noteq> [] then
        (let sz = (if length s < PROTO_REPLY_CHUNK_BYTES then PROTO_REPLY_CHUNK_BYTES else length s)
         in do { tail \<leftarrow> new_block usable fill sz s;
                 Some (c\<lparr>cl_reply := cl_reply c @ [Some tail],
                         cl_reply_bytes := (cl_reply_bytes c + blk_size tail) mod 2 ^ 64\<rparr>) })
      else Some c)"

lemma rest_to_list_correct:
  assumes al: "allocator usable" and inv: "out_inv c" and small: "cl_reply_bytes c < 2 ^ 62" and len: "length s < 2 ^ 30"
  obtains c' where "rest_to_list usable fill c s = Some c'" and "out_inv c'" and "outtext c' = outtext c @ s"
    and "holes_kept c c'" and "cl_reply_bytes c' \<le> cl_reply_bytes c + 2 ^ 32"
    and "c' = c\<lparr>cl_reply := cl_reply c', cl_reply_bytes := cl_reply_bytes c'\<rparr>"
proof (cases "s = []")
  case True
  then show ?thesis using that [of c] inv by (simp add: rest_to_list_def holes_kept_refl)
next
  case False
  define sz where "sz = (if length s < PROTO_REPLY_CHUNK_BYTES then PROTO_REPLY_CHUNK_BYTES else length s)"
  have sz: "length s \<le> sz" "sz < 2 ^ 30" using len by (simp_all add: sz_def PROTO_REPLY_CHUNK_BYTES_def)
  obtain b where b: "new_block usable fill sz s = Some b" "blk_ok b" "blk_text b = s" "blk_size b < 2 ^ 32"
    using new_block_correct [OF al sz False] by blast
  define c' where "c' = c\<lparr>cl_reply := cl_reply c @ [Some b], cl_reply_bytes := (cl_reply_bytes c + blk_size b) mod 2 ^ 64\<rparr>"
  have "cl_reply_bytes c + blk_size b < 2 ^ 64" using small b(4) by simp
  note n = add_node_correct [OF inv b(2) this c'_def]
  show ?thesis
  proof (rule that)
    show "rest_to_list usable fill c s = Some c'"
      using False b(1) by (simp add: rest_to_list_def sz_def [symmetric] c'_def)
    show "cl_reply_bytes c' \<le> cl_reply_bytes c + 2 ^ 32" unfolding n(4) using b(4) by linarith
  qed (use n b(3) in \<open>simp_all add: c'_def\<close>)
qed

lemma addReplyStringToList_correct:
  assumes al: "allocator usable" and inv: "out_inv c" and lim: "limits_ok cfg sv" and small: "cl_reply_bytes c < 2 ^ 62"
    and len: "length s < 2 ^ 30" and acc: "accepts c"
  obtains sv' c' where "addReplyStringToList usable fill sv c s = Some (sv', c')" and "limits_ok cfg sv'" and "appended 1 c s c'"
proof -
  have open_: "\<not> has_flag c CLIENT_CLOSE_AFTER_REPLY" using acc by (simp add: accepts_def)
  obtain c1 s1 where c1: "append_to_tail c s = Some (c1, s1)" "out_inv c1" "outtext c1 @ s1 = outtext c @ s"
    "c1 = c\<lparr>cl_reply := cl_reply c1\<rparr>" "length s1 \<le> length s" "holes_kept c c1"
    using append_to_tail_correct [OF inv, of s] by blast
  have rb: "cl_reply_bytes c1 = cl_reply_bytes c" by (subst c1(4)) simp
  have "cl_reply_bytes c1 < 2 ^ 62" "length s1 < 2 ^ 30" using small rb len c1(5) by linarith+
  then obtain c2 where c2: "rest_to_list usable fill c1 s1 = Some c2" "out_inv c2" "outtext c2 = outtext c1 @ s1"
    "holes_kept c1 c2" "cl_reply_bytes c2 \<le> cl_reply_bytes c1 + 2 ^ 32"
    "c2 = c1\<lparr>cl_reply := cl_reply c2, cl_reply_bytes := cl_reply_bytes c2\<rparr>"
    using rest_to_list_correct [OF al c1(2)] by blast
  have lt: "cl_reply_bytes c2 < 2 ^ 63" using c2(5) rb small by simp
  obtain sv' c3 where c3: "asyncCloseClientOnOutputBufferLimitReached sv c2 = Some (sv', c3)" "bookkept c2 c3" "limits_ok cfg sv'"
    using asyncClose_correct [OF lim lt] by blast
  have out: "outside c2 = outside c" unfolding outside_def by (subst c2(6), subst c1(4)) simp
  have "cl_sentlen c2 = cl_sentlen c" by (subst c2(6), subst c1(4)) simp
  then have pend: "pending c2 = pending c @ s" using pending_append [OF inv, of c2 s] c1(3) c2(3) by simp
  have "addReplyStringToList usable fill sv c s = Some (sv', c3)"
    using open_ c1(1) c2(1) c3(1) by (simp add: addReplyStringToList_def rest_to_list_def)
  moreover have "appended 1 c s c3" unfolding appended_def
  proof (intro conjI)
    show "pending c3 = pending c @ (if accepts c then s else [])" using pend acc bookkept_fields(8) [OF c3(2)] by simp
    show "bookkept (outside c) (outside c3)" using bookkept_outside [OF c3(2)] unfolding out .
    have "holes_kept c2 c3" using bookkept_fields [OF c3(2)] by (simp add: holes_kept_refl)
    then show "holes_kept c c3" by (rule holes_kept_trans [OF holes_kept_trans [OF c1(6) c2(4)]])
    show "cl_reply_bytes c3 \<le> cl_reply_bytes c + 1 * 2 ^ 32" using c2(5) rb bookkept_fields(3) [OF c3(2)] by linarith
    show "out_inv c3" using c2(2) bookkept_fields(10) [OF c3(2)] by simp
  qed
  ultimately show ?thesis using that c3(3) by blast
qed

text \<open>What \<open>addReply\<close> and \<open>addReplyString\<close> share: the static buffer first, then the list.\<close>

definition queue_text ::
  "(nat \<Rightarrow> nat) \<Rightarrow> (nat \<Rightarrow> char) \<Rightarrow> redisServer \<Rightarrow> client \<Rightarrow> string \<Rightarrow> (redisServer \<times> client) option" where
  "queue_text usable fill sv c s =
     do { (c, done) \<leftarrow> addReplyToBuffer c s;
          if done then Some (sv, c) else addReplyStringToList usable fill sv c s }"

lemma queue_text_correct:
  assumes al: "allocator usable" and inv: "out_inv c" and lim: "limits_ok cfg sv" and small: "cl_reply_bytes c < 2 ^ 62"
    and len: "length s < 2 ^ 30" and q: "may_queue c"
  obtains sv' c' where "queue_text usable fill sv c s = Some (sv', c')" and "limits_ok cfg sv'" and "appended 1 c s c'"
proof (cases "has_flag c CLIENT_CLOSE_AFTER_REPLY")
  case True
  then show ?thesis using that [of sv c] lim bookkept_appended [OF bookkept_refl inv]
    by (simp add: queue_text_def addReplyToBuffer_def accepts_def)
next
  case False
  then have acc: "accepts c" using q by (simp add: accepts_def)
  show ?thesis
  proof (rule addReplyToBuffer_correct [OF inv False, of s])
    fix c' assume a: "addReplyToBuffer c s = Some (c', True)" "out_inv c'" "pending c' = pending c @ s"
      "c' = c\<lparr>cl_buf := cl_buf c', cl_bufpos := cl_bufpos c'\<rparr>" "cl_reply c = []"
    have "outside c' = outside c" unfolding outside_def by (subst a(4)) simp
    moreover have "cl_reply_bytes c' = cl_reply_bytes c" by (subst a(4)) simp
    moreover have "cl_reply c' = []" using a(5) by (subst a(4)) simp
    ultimately have "appended 1 c s c'" using a acc bookkept_refl by (simp add: appended_def holes_kept_def)
    then show thesis using that a(1) lim by (simp add: queue_text_def)
  next
    assume "addReplyToBuffer c s = Some (c, False)"
    moreover obtain sv' c' where "addReplyStringToList usable fill sv c s = Some (sv', c')" "limits_ok cfg sv'" "appended 1 c s c'"
      using addReplyStringToList_correct [OF al inv lim small len acc] by blast
    ultimately show thesis using that by (simp add: queue_text_def)
  qed
qed

section \<open>Replies append their text\<close>

text \<open>The client and the server can take \<open>k\<close> more blocks.\<close>

definition ready :: "redisServer \<Rightarrow> nat \<Rightarrow> redisServer \<Rightarrow> client \<Rightarrow> bool" where
  "ready cfg k sv c \<longleftrightarrow> out_inv c \<and> limits_ok cfg sv \<and> cl_reply_bytes c + k * 2 ^ 32 < 2 ^ 62"

text \<open>\<open>f\<close> queues \<open>s\<close> with at most \<open>n\<close> new blocks; with \<open>q\<close> only for a client that is neither a replica
  nor to be closed after its replies.\<close>

definition calm :: "client \<Rightarrow> bool" where
  "calm c \<longleftrightarrow> \<not> has_flag c CLIENT_SLAVE \<and> \<not> has_flag c CLIENT_CLOSE_AFTER_REPLY"

definition queues :: "bool \<Rightarrow> nat \<Rightarrow> (redisServer \<Rightarrow> client \<Rightarrow> (redisServer \<times> client) option) \<Rightarrow> string \<Rightarrow> bool" where
  "queues q n f s \<longleftrightarrow> (\<forall>cfg sv c k. ready cfg (k + n) sv c \<longrightarrow> (q \<longrightarrow> calm c) \<longrightarrow>
     (\<exists>sv' c'. f sv c = Some (sv', c') \<and> ready cfg k sv' c' \<and> appended n c s c'))"

lemma queuesE:
  assumes "queues q n f s" and "ready cfg (k + n) sv c" and "q \<longrightarrow> calm c"
  obtains sv' c' where "f sv c = Some (sv', c')" and "ready cfg k sv' c'" and "appended n c s c'"
  using assms unfolding queues_def by blast

lemma appended_ready:
  assumes "appended n c s c'" and "ready cfg (k + n) sv c" and "limits_ok cfg sv'"
  shows "ready cfg k sv' c'"
proof -
  have "cl_reply_bytes c' \<le> cl_reply_bytes c + n * 2 ^ 32" "out_inv c'" using appendedD [OF assms(1)] by blast+
  moreover have "cl_reply_bytes c + (k + n) * 2 ^ 32 < 2 ^ 62" using assms(2) by (simp add: ready_def)
  ultimately show ?thesis using assms(3) unfolding ready_def add_mult_distrib by linarith
qed

lemma ready_mono: "ready cfg k sv c \<Longrightarrow> j \<le> k \<Longrightarrow> ready cfg j sv c"
  unfolding ready_def using mult_le_mono1 [of j k "2 ^ 32"] by linarith

lemma queues_seq:
  assumes f: "queues q n f s" and g: "queues r m g t"
  shows "queues (q \<or> r) (n + m) (\<lambda>sv c. do { (sv, c) \<leftarrow> f sv c; g sv c }) (s @ t)"
  unfolding queues_def
proof (intro allI impI)
  fix cfg sv c k assume ready: "ready cfg (k + (n + m)) sv c" and slave: "q \<or> r \<longrightarrow> calm c"
  have "ready cfg ((k + m) + n) sv c" using ready by (simp add: ac_simps)
  then obtain sv1 c1 where 1: "f sv c = Some (sv1, c1)" "ready cfg (k + m) sv1 c1" "appended n c s c1"
    using slave queuesE [OF f, of cfg "k + m" sv c] by blast
  have "r \<longrightarrow> calm c1" using slave appended_flags(3,4) [OF appendedD(3) [OF 1(3)]] by (simp add: calm_def)
  then obtain sv2 c2 where 2: "g sv1 c1 = Some (sv2, c2)" "ready cfg k sv2 c2" "appended m c1 t c2"
    by (rule queuesE [OF g 1(2)]) auto
  show "\<exists>sv' c'. do { (sv, c) \<leftarrow> f sv c; g sv c } = Some (sv', c') \<and> ready cfg k sv' c' \<and> appended (n + m) c (s @ t) c'"
    using 1(1) 2 appended_trans [OF 1(3) 2(3)] by simp
qed

lemma queues_mono: "queues q n f s \<Longrightarrow> (q \<longrightarrow> r) \<Longrightarrow> n \<le> m \<Longrightarrow> queues r m f s"
  unfolding queues_def
proof (intro allI impI)
  fix cfg sv c k
  assume f: "\<forall>cfg sv c k. ready cfg (k + n) sv c \<longrightarrow> (q \<longrightarrow> calm c) \<longrightarrow>
      (\<exists>sv' c'. f sv c = Some (sv', c') \<and> ready cfg k sv' c' \<and> appended n c s c')"
    and qr: "q \<longrightarrow> r" and nm: "n \<le> m" and ready: "ready cfg (k + m) sv c" and slave: "r \<longrightarrow> calm c"
  have "ready cfg ((k + m - n) + n) sv c" using ready nm by simp
  then obtain sv' c' where c': "f sv c = Some (sv', c')" "ready cfg (k + m - n) sv' c'" "appended n c s c'"
    using f qr slave by blast
  have "cl_reply_bytes c' \<le> cl_reply_bytes c + m * 2 ^ 32"
    using appendedD(5) [OF c'(3)] mult_le_mono1 [OF nm, of "2 ^ 32"] by linarith
  then have "appended m c s c'" using c'(3) unfolding appended_def by blast
  then show "\<exists>sv' c'. f sv c = Some (sv', c') \<and> ready cfg k sv' c' \<and> appended m c s c'"
    using c' ready_mono [OF c'(2)] nm by auto
qed

lemma queues_if:
  assumes "b \<Longrightarrow> queues q n f s" and "\<not> b \<Longrightarrow> queues q n g s"
  shows "queues q n (\<lambda>sv c. if b then f sv c else g sv c) s"
  using assms by (cases b) simp_all

text \<open>The body of \<open>addReply\<close> and \<open>addReplyString\<close>.\<close>

lemma queues_prepared:
  assumes al: "allocator usable" and len: "length s < 2 ^ 30"
  shows "queues False 1 (\<lambda>sv c. let (sv, c, ok) = prepareClientToWrite sv c
            in if \<not> ok then Some (sv, c) else queue_text usable fill sv c s) s"
  unfolding queues_def
proof (intro allI impI)
  fix cfg sv c k assume ready: "ready cfg (k + 1) sv c"
  obtain sv1 c1 where p: "prepareClientToWrite sv c = (sv1, c1, may_queue c)" "bookkept c c1" "limits_ok cfg sv1 = limits_ok cfg sv"
    using prepare_correct by blast
  have inv: "out_inv c" "limits_ok cfg sv1" "cl_reply_bytes c + (k + 1) * 2 ^ 32 < 2 ^ 62"
    using ready p(3) by (simp_all add: ready_def)
  have c1: "out_inv c1" "cl_reply_bytes c1 < 2 ^ 62" "may_queue c1 = may_queue c"
    using inv bookkept_fields [OF p(2)] bookkept_accepts [OF p(2)] by simp_all
  have zero: "appended 0 c [] c1" by (rule bookkept_appended [OF p(2) inv(1)]) simp
  obtain sv' c' where r: "(if \<not> may_queue c then Some (sv1, c1) else queue_text usable fill sv1 c1 s) = Some (sv', c')"
    "limits_ok cfg sv'" "appended 1 c s c'"
  proof (cases "may_queue c")
    case False
    then have "appended 1 c s c1" using bookkept_appended [OF p(2) inv(1)] by (simp add: accepts_def)
    then show thesis using that False inv(2) by simp
  next
    case True
    then have "may_queue c1" using c1(3) by simp
    then obtain sv' c' where q: "queue_text usable fill sv1 c1 s = Some (sv', c')" "limits_ok cfg sv'" "appended 1 c1 s c'"
      using queue_text_correct [OF al c1(1) inv(2) c1(2) len] by blast
    have "appended 1 c s c'" using appended_trans [OF zero q(3)] by simp
    then show thesis using that q True by simp
  qed
  have "ready cfg k sv' c'" by (rule appended_ready [OF r(3) ready r(2)])
  then show "\<exists>sv' c'. (let (sv, c, ok) = prepareClientToWrite sv c
      in if \<not> ok then Some (sv, c) else queue_text usable fill sv c s) = Some (sv', c') \<and> ready cfg k sv' c' \<and> appended 1 c s c'"
    using r p(1) by simp
qed

lemma addReplyString_queues:
  assumes "allocator usable" and "length s < 2 ^ 30"
  shows "queues False 1 (\<lambda>sv c. addReplyString usable fill sv c s) s"
  using queues_prepared [OF assms] unfolding addReplyString_def queue_text_def .

definition obj_text :: "string_obj \<Rightarrow> string" where
  "obj_text obj = (case obj of SdsObj s \<Rightarrow> s | IntObj n \<Rightarrow> sdec n)"

definition obj_ok :: "string_obj \<Rightarrow> bool" where
  "obj_ok obj \<longleftrightarrow> (case obj of SdsObj s \<Rightarrow> length s < 2 ^ 30 | IntObj n \<Rightarrow> fits_signed 8 n)"

lemma length_obj_text: "obj_ok obj \<Longrightarrow> length (obj_text obj) < 2 ^ 30"
  using length_sdec_bound by (fastforce simp: obj_ok_def obj_text_def split: string_obj.splits)

lemma ll2string_text:
  assumes "fits_signed 8 n" and "20 < length dst"
  shows "do { (buf, len) \<leftarrow> ll2string dst n; mem_read buf 0 len } = Some (sdec n)"
  using length_sdec_bound [OF assms(1)] assms(2) by (simp add: ll2string_correct [OF assms(1)] mem_read_def)

lemma addReply_queues:
  assumes "allocator usable" and ok: "obj_ok obj"
  shows "queues False 1 (\<lambda>sv c. addReply usable fill sv c obj) (obj_text obj)"
proof -
  have s: "(case obj of SdsObj s \<Rightarrow> Some s
       | IntObj n \<Rightarrow> do { (buf, len) \<leftarrow> ll2string (map fill [0..<32]) n; mem_read buf 0 len }) = Some (obj_text obj)"
  proof (cases obj)
    case (IntObj n)
    then have "do { (buf, len) \<leftarrow> ll2string (map fill [0..<32]) n; mem_read buf 0 len } = Some (sdec n)"
      using ok ll2string_text [of n "map fill [0..<32]"] by (simp add: obj_ok_def)
    then show ?thesis using IntObj by (simp only: obj_text_def string_obj.case)
  qed (simp add: obj_text_def)
  show ?thesis
    using queues_prepared [OF assms(1) length_obj_text [OF ok], of fill]
    unfolding addReply_def queue_text_def s bind.bind_lunit .
qed

lemma length_CRLF [simp]: "length CRLF = 2"
  by (simp add: CRLF_def)

lemma addReplyErrorText_queues:
  assumes al: "allocator usable" and len: "length s < 2 ^ 30"
  shows "queues False 3 (\<lambda>sv c. addReplyErrorText usable fill sv c s)
     ((if s \<noteq> [] \<and> hd s = CHR ''-'' then [] else ''-ERR '') @ s @ CRLF)"
proof -
  have head: "queues False 1 (\<lambda>sv c. if length s = 0 \<or> s ! 0 \<noteq> CHR ''-'' then addReplyString usable fill sv c ''-ERR '' else Some (sv, c))
     (if s \<noteq> [] \<and> hd s = CHR ''-'' then [] else ''-ERR '')"
  proof (rule queues_if)
    assume "length s = 0 \<or> s ! 0 \<noteq> CHR ''-''"
    then have "\<not> (s \<noteq> [] \<and> hd s = CHR ''-'')" by (auto simp: hd_conv_nth)
    then show "queues False 1 (\<lambda>sv c. addReplyString usable fill sv c ''-ERR '') (if s \<noteq> [] \<and> hd s = CHR ''-'' then [] else ''-ERR '')"
      using addReplyString_queues [OF al, of "''-ERR ''" fill] unfolding if_not_P [OF \<open>\<not> _\<close>] by simp
  next
    assume "\<not> (length s = 0 \<or> s ! 0 \<noteq> CHR ''-'')"
    then have "s \<noteq> [] \<and> hd s = CHR ''-''" by (auto simp: hd_conv_nth)
    moreover have "queues False 0 (\<lambda>sv c. Some (sv, c)) []"
      unfolding queues_def using bookkept_appended [OF bookkept_refl] by (auto simp: ready_def)
    ultimately show "queues False 1 (\<lambda>sv c. Some (sv, c)) (if s \<noteq> [] \<and> hd s = CHR ''-'' then [] else ''-ERR '')"
      using queues_mono [of False 0 _ "[]" False 1] by simp
  qed
  show ?thesis unfolding addReplyErrorText_def
    by (rule queues_mono [OF queues_seq [OF head queues_seq [OF addReplyString_queues [OF al len] addReplyString_queues [OF al]]]])
      simp_all
qed

lemma addReplyErrorLength_cases:
  assumes "allocator usable" and "length s < 2 ^ 30" and "ready cfg (k + 3) sv c"
  obtains sv' c' where "addReplyErrorText usable fill sv c s = Some (sv', c')" and "ready cfg k sv' c'"
    and "appended 3 c ((if s \<noteq> [] \<and> hd s = CHR ''-'' then [] else ''-ERR '') @ s @ CRLF) c'"
    and "has_flag c' CLIENT_SLAVE = has_flag c CLIENT_SLAVE"
    and "addReplyErrorLength usable fill sv c s = (if has_flag c CLIENT_SLAVE then None else Some (sv', c'))"
proof -
  obtain sv' c' where r: "addReplyErrorText usable fill sv c s = Some (sv', c')" "ready cfg k sv' c'"
      "appended 3 c ((if s \<noteq> [] \<and> hd s = CHR ''-'' then [] else ''-ERR '') @ s @ CRLF) c'"
    using queuesE [OF addReplyErrorText_queues [OF assms(1,2)] assms(3)] by blast
  have f: "has_flag c' CLIENT_SLAVE = has_flag c CLIENT_SLAVE" by (rule appended_flags(4) [OF appendedD(3) [OF r(3)]])
  then show ?thesis using that [OF r] r(1) by (simp add: addReplyErrorLength_def)
qed

lemma addReplyErrorLength_queues:
  assumes "allocator usable" and "length s < 2 ^ 30"
  shows "queues True 3 (\<lambda>sv c. addReplyErrorLength usable fill sv c s)
     ((if s \<noteq> [] \<and> hd s = CHR ''-'' then [] else ''-ERR '') @ s @ CRLF)"
  unfolding queues_def
proof (intro allI impI)
  fix cfg sv c k assume ready: "ready cfg (k + 3) sv c" and slave: "True \<longrightarrow> calm c"
  then have "\<not> has_flag c CLIENT_SLAVE" by (simp add: calm_def)
  then show "\<exists>sv' c'. addReplyErrorLength usable fill sv c s = Some (sv', c') \<and> ready cfg k sv' c' \<and>
       appended 3 c ((if s \<noteq> [] \<and> hd s = CHR ''-'' then [] else ''-ERR '') @ s @ CRLF) c'"
    using addReplyErrorLength_cases [OF assms ready, of fill] by metis
qed

lemma addReplyStatusLength_queues:
  assumes al: "allocator usable" and len: "length s < 2 ^ 30"
  shows "queues False 3 (\<lambda>sv c. addReplyStatusLength usable fill sv c s) (''+'' @ s @ CRLF)"
  unfolding addReplyStatusLength_def
  by (rule queues_mono [OF queues_seq [OF addReplyString_queues [OF al]
        queues_seq [OF addReplyString_queues [OF al len] addReplyString_queues [OF al]]]]) simp_all

lemma prefixed_number:
  assumes "fits_signed 8 ll"
  shows "do { buf \<leftarrow> mem_write (map fill [0..<128]) 0 [prefix];
        (dst, len) \<leftarrow> ll2string (drop 1 buf) ll;
        let buf = take 1 buf @ dst;
        buf \<leftarrow> mem_write buf (len + 1) [CHR 0x0D];
        buf \<leftarrow> mem_write buf (len + 2) [CHR 0x0A];
        s \<leftarrow> mem_read buf 0 (len + 3);
        f s } = f (prefix # sdec ll @ CRLF)"
proof -
  define rest where "rest = map fill [1..<128]"
  have lr: "length rest = 127" by (simp add: rest_def)
  have w: "mem_write (map fill [0..<128]) 0 [prefix] = Some (prefix # rest)"
    by (simp add: mem_write_def rest_def drop_map)
  have l: "length (sdec ll) \<le> 20" by (rule length_sdec_bound [OF assms])
  define n where "n = length (sdec ll)"
  obtain a b where ab: "drop (Suc n) rest = a # b"
    using l lr by (cases "drop (Suc n) rest") (auto simp: n_def)
  have ll: "ll2string rest ll = Some (sdec ll @ CHR 0x00 # a # b, n)"
    using l lr ab by (simp add: ll2string_correct [OF assms] n_def)
  have w1: "mem_write (prefix # sdec ll @ CHR 0x00 # a # b) (n + 1) [CHR 0x0D] = Some (prefix # sdec ll @ CHR 0x0D # a # b)"
    using mem_write_append [of "[CHR 0x0D]" "[CHR 0x00]" "n + 1" "prefix # sdec ll" "a # b"] by (simp add: n_def)
  have w2: "mem_write (prefix # sdec ll @ CHR 0x0D # a # b) (n + 2) [CHR 0x0A] = Some (prefix # sdec ll @ CHR 0x0D # CHR 0x0A # b)"
    using mem_write_append [of "[CHR 0x0A]" "[a]" "n + 2" "prefix # sdec ll @ [CHR 0x0D]" b] by (simp add: n_def)
  have r: "mem_read (prefix # sdec ll @ CHR 0x0D # CHR 0x0A # b) 0 (n + 3) = Some (prefix # sdec ll @ CRLF)"
    by (simp add: mem_read_def n_def CRLF_def numeral_3_eq_3)
  show ?thesis using w ll w1 w2 r by simp
qed

lemma addReplyLongLongWithPrefix_queues:
  assumes al: "allocator usable" and f: "fits_signed 8 ll"
  shows "queues False 1 (\<lambda>sv c. addReplyLongLongWithPrefix usable fill sv c ll prefix) (prefix # sdec ll @ CRLF)"
proof -
  have l: "length (prefix # sdec ll @ CRLF) < 2 ^ 30" using length_sdec_bound [OF f] by simp
  have a: "queues False 1 (\<lambda>sv c. addReply usable fill sv c (SdsObj (prefix # sdec ll @ CRLF))) (prefix # sdec ll @ CRLF)"
    using addReply_queues [OF al, of "SdsObj (prefix # sdec ll @ CRLF)" fill] l by (simp add: obj_ok_def obj_text_def)
  have b: "queues False 1 (\<lambda>sv c. addReplyString usable fill sv c (prefix # sdec ll @ CRLF)) (prefix # sdec ll @ CRLF)"
    by (rule addReplyString_queues [OF al l])
  show ?thesis unfolding addReplyLongLongWithPrefix_def prefixed_number [OF f] shared_hdr_def
    using a b by (intro queues_if) auto
qed

lemma addReplyLongLong_queues:
  assumes al: "allocator usable" and f: "fits_signed 8 ll"
  shows "queues False 1 (\<lambda>sv c. addReplyLongLong usable fill sv c ll) ('':'' @ sdec ll @ CRLF)"
proof -
  have "queues False 1 (\<lambda>sv c. addReply usable fill sv c (SdsObj ('':'' @ sdec ll @ CRLF))) ('':'' @ sdec ll @ CRLF)"
    using addReply_queues [OF al, of "SdsObj ('':'' @ sdec ll @ CRLF)" fill] length_sdec_bound [OF f]
    by (simp add: obj_ok_def obj_text_def)
  moreover have "sdec 0 = ''0''" "sdec 1 = ''1''" by (simp_all add: sdec_def dec.simps digit_chars)
  ultimately show ?thesis using addReplyLongLongWithPrefix_queues [OF al f, of fill "CHR '':''"]
    unfolding addReplyLongLong_def by (intro queues_if) auto
qed

lemma radix10_len_dec: "radix10_len n k = k + length (dec n) - 1"
proof (induction n k rule: radix10_len.induct)
  case (1 n k)
  show ?case
  proof (cases "n div 10 = 0")
    case True
    then show ?thesis by (simp add: radix10_len.simps [of n k] dec.simps [of n] div_eq_0_iff)
  next
    case False
    then have "radix10_len (n div 10) (k + 1) = k + 1 + length (dec (n div 10)) - 1" using 1 by simp
    then show ?thesis using False by (simp add: radix10_len.simps [of n k] dec.simps [of n] Let_def div_eq_0_iff)
  qed
qed

lemma addReplyBulkLen_queues:
  assumes al: "allocator usable" and ok: "obj_ok obj" and m: "obj \<noteq> IntObj LLONG_MIN"
  shows "queues False 1 (\<lambda>sv c. addReplyBulkLen usable fill sv c obj) (''$'' @ sdec (int (length (obj_text obj))) @ CRLF)"
proof -
  define len where "len = length (obj_text obj)"
  have d: "dec n \<noteq> []" for n by (simp add: dec.simps)
  have l: "(case obj of SdsObj s \<Rightarrow> Some (length s)
       | IntObj n \<Rightarrow> if n = LLONG_MIN then None
           else if n < 0 then Some (radix10_len (nat (- n)) 2) else Some (radix10_len (nat n) 1)) = Some len"
    using m d by (cases obj) (auto simp: len_def obj_text_def radix10_len_dec sdec_def)
  have f: "fits_signed 8 (int len)" using length_obj_text [OF ok] by (simp add: len_def fits_signed_def)
  have "queues False 1 (\<lambda>sv c. addReply usable fill sv c (SdsObj (CHR ''$'' # sdec (int len) @ CRLF))) (CHR ''$'' # sdec (int len) @ CRLF)"
    using addReply_queues [OF al, of "SdsObj (CHR ''$'' # sdec (int len) @ CRLF)" fill] length_sdec_bound [OF f]
    by (simp add: obj_ok_def obj_text_def)
  then show ?thesis using addReplyLongLongWithPrefix_queues [OF al f, of fill "CHR ''$''"]
    unfolding addReplyBulkLen_def l bind.bind_lunit shared_hdr_def len_def [symmetric]
    by (intro queues_if) auto
qed

lemma CRLF_queues: "allocator usable \<Longrightarrow> queues False 1 (\<lambda>sv c. addReply usable fill sv c (SdsObj CRLF)) CRLF"
  using addReply_queues [of usable "SdsObj CRLF"] by (simp add: obj_ok_def obj_text_def)

lemma fill_before_block:
  assumes b: "blk_ok b" and room: "blk_size b - blk_used b \<ge> length l"
  obtains m where "do { m \<leftarrow> mem_move (blk_buf b) (length l) 0 (blk_used b); mem_write m 0 l } = Some m"
    and "blk_ok (b\<lparr>blk_buf := m, blk_used := blk_used b + length l\<rparr>)"
    and "blk_text (b\<lparr>blk_buf := m, blk_used := blk_used b + length l\<rparr>) = l @ blk_text b"
proof -
  have u: "blk_used b + length l \<le> length (blk_buf b)" and pos: "0 < blk_used b" using b room by (auto simp: blk_ok_def)
  define t where "t = blk_text b"
  have lt: "length t = blk_used b" using length_blk_text [OF b] by (simp add: t_def)
  have r: "mem_read (blk_buf b) 0 (blk_used b) = Some t" using u by (simp add: mem_read_def t_def blk_text_def)
  define m1 where "m1 = take (length l) (blk_buf b) @ t @ drop (length l + length t) (blk_buf b)"
  have w: "mem_write (blk_buf b) (length l) t = Some m1"
    using mem_write_Some [of "length l" t "blk_buf b"] u lt by (simp add: m1_def)
  have ll: "length (take (length l) (blk_buf b)) = length l" using u by simp
  have w1: "mem_write m1 0 l = Some (l @ t @ drop (length l + length t) (blk_buf b))"
    using mem_write_append [of l "take (length l) (blk_buf b)" 0 "[]"] ll by (simp add: m1_def)
  show ?thesis
  proof (rule that)
    show "do { m \<leftarrow> mem_move (blk_buf b) (length l) 0 (blk_used b); mem_write m 0 l } =
        Some (l @ t @ drop (length l + length t) (blk_buf b))"
      using r w w1 by (simp add: mem_move_def)
  qed (use u pos lt b in \<open>auto simp: blk_ok_def blk_text_def t_def\<close>)
qed

text \<open>Filling in a length puts the text at its place; the nodes from there on are replaced.\<close>

lemma setDeferred_correct:
  assumes al: "allocator usable" and inv: "out_inv c" and lim: "limits_ok cfg sv" and small: "cl_reply_bytes c < 2 ^ 62"
    and split: "cl_reply c = pre @ None # post" and f: "fits_signed 8 len"
  obtains sv' c' d nodes where "setDeferredMultiBulkLength usable fill sv c (Some (length pre)) len = Some (sv', c')"
    and "limits_ok cfg sv'" and "bookkept d c'" and "d = c\<lparr>cl_reply := pre @ nodes, cl_reply_bytes := cl_reply_bytes d\<rparr>"
    and "concat (map node_text nodes) = (''*'' @ sdec len @ CRLF) @ concat (map node_text post)"
    and "reply_ok nodes" and "cl_reply_bytes d = sum_list (map node_size (pre @ nodes))"
    and "cl_reply_bytes d \<le> cl_reply_bytes c + 2 ^ 32" and "None \<notin> set post \<Longrightarrow> None \<notin> set nodes"
proof -
  note result = that
  define l where "l = ''*'' @ sdec len @ CRLF"
  have ll: "length l < 2 ^ 30" "l \<noteq> []" using length_sdec_bound [OF f] by (simp_all add: l_def)
  have ok: "reply_ok post" "cl_reply_bytes c = sum_list (map node_size pre) + sum_list (map node_size post)"
    using inv split by (simp_all add: out_inv_def reply_ok_append reply_ok_Cons node_size_def)
  obtain b where b: "new_block usable fill (length l) l = Some b" "blk_ok b" "blk_text b = l" "blk_size b < 2 ^ 32"
    using new_block_correct [OF al order.refl ll] by blast
  have "cl_reply_bytes c + blk_size b < 2 ^ 64" using small b(4) by simp
  then have m: "(cl_reply_bytes c + blk_size b) mod 2 ^ 64 = cl_reply_bytes c + blk_size b" by (rule mod_less)
  define new where "new = c\<lparr>cl_reply := pre @ Some b # post, cl_reply_bytes := (cl_reply_bytes c + blk_size b) mod 2 ^ 64\<rparr>"
  have done_: thesis
    if d: "setDeferredMultiBulkLength usable fill sv c (Some (length pre)) len = asyncCloseClientOnOutputBufferLimitReached sv d"
      "d = c\<lparr>cl_reply := pre @ nodes, cl_reply_bytes := cl_reply_bytes d\<rparr>"
      "concat (map node_text nodes) = l @ concat (map node_text post)" "reply_ok nodes"
      "cl_reply_bytes d = sum_list (map node_size (pre @ nodes))" "cl_reply_bytes d \<le> cl_reply_bytes c + 2 ^ 32"
      "None \<notin> set post \<Longrightarrow> None \<notin> set nodes" for d nodes
  proof -
    have "cl_reply_bytes d < 2 ^ 63" using d(6) small by simp
    then obtain sv' c' where "asyncCloseClientOnOutputBufferLimitReached sv d = Some (sv', c')" "bookkept d c'" "limits_ok cfg sv'"
      using asyncClose_correct [OF lim] by blast
    then show thesis using result [OF _ _ _ d(2)] d(1,3-7) unfolding l_def by simp
  qed
  have new: thesis if "setDeferredMultiBulkLength usable fill sv c (Some (length pre)) len = asyncCloseClientOnOutputBufferLimitReached sv new"
  proof (rule done_ [OF that, of "Some b # post"])
    show "cl_reply_bytes new \<le> cl_reply_bytes c + 2 ^ 32" using b(4) unfolding new_def m by simp
    show "cl_reply_bytes new = sum_list (map node_size (pre @ Some b # post))" using ok(2) unfolding new_def m by (simp add: node_size_def)
  qed (use b ok in \<open>simp_all add: new_def node_text_def reply_ok_Cons\<close>)
  have none: "length pre < length (cl_reply c)" "cl_reply c ! length pre = None" using split by simp_all
  show thesis
  proof (cases "\<exists>nx rest. post = Some nx # rest \<and> blk_size nx - blk_used nx \<ge> length l \<and> blk_used nx < PROTO_REPLY_CHUNK_BYTES * 4")
    case False
    show thesis
    proof (rule new)
      show "setDeferredMultiBulkLength usable fill sv c (Some (length pre)) len = asyncCloseClientOnOutputBufferLimitReached sv new"
        using False b(1) split
        by (cases post) (auto simp: setDeferredMultiBulkLength_def l_def [symmetric, simplified] new_def nth_append split: option.splits)
    qed
  next
    case True
    then obtain nx rest where nx: "post = Some nx # rest" "blk_size nx - blk_used nx \<ge> length l" "blk_used nx < PROTO_REPLY_CHUNK_BYTES * 4"
      by blast
    have "blk_ok nx" using ok(1) nx(1) by (simp add: reply_ok_Cons)
    then obtain mm where mm: "do { m \<leftarrow> mem_move (blk_buf nx) (length l) 0 (blk_used nx); mem_write m 0 l } = Some mm"
      "blk_ok (nx\<lparr>blk_buf := mm, blk_used := blk_used nx + length l\<rparr>)"
      "blk_text (nx\<lparr>blk_buf := mm, blk_used := blk_used nx + length l\<rparr>) = l @ blk_text nx"
      using fill_before_block nx(2) by blast
    define nx' where "nx' = nx\<lparr>blk_buf := mm, blk_used := blk_used nx + length l\<rparr>"
    define d where "d = c\<lparr>cl_reply := pre @ Some nx' # rest\<rparr>"
    show thesis
    proof (rule done_ [of d "Some nx' # rest"])
      show "setDeferredMultiBulkLength usable fill sv c (Some (length pre)) len = asyncCloseClientOnOutputBufferLimitReached sv d"
        using mm(1) nx split
        by (auto simp: setDeferredMultiBulkLength_def l_def [symmetric, simplified] d_def nx'_def nth_append bind_eq_Some_conv)
    qed (use mm(2,3) ok nx(1) in \<open>simp_all add: d_def nx'_def [symmetric] node_text_def reply_ok_Cons node_size_def\<close>,
        simp add: nx'_def)
  qed
qed

lemma first_len_mono:
  assumes "cl_bufpos c' = cl_bufpos c" and "cl_reply c' = cl_reply c @ qs"
  shows "first_len c \<le> first_len c'"
  using assms by (cases "cl_reply c") (simp_all add: first_len_def)

lemma hole_split:
  assumes inv: "out_inv c" and h: "cl_reply h = cl_reply c @ [None]" "cl_buf h = cl_buf c" "cl_bufpos h = cl_bufpos c"
    "cl_sentlen h = cl_sentlen c" and ap: "appended n h s c2" and acc: "accepts h"
  obtains post where "cl_reply c2 = cl_reply c @ None # post" and "concat (map node_text post) = s" and "None \<notin> set post"
    and "cl_buf c2 = cl_buf c" and "cl_bufpos c2 = cl_bufpos c" and "cl_sentlen c2 = cl_sentlen c"
proof -
  have "length (cl_reply c) < length (cl_reply h)" "cl_reply h ! length (cl_reply c) = None" using h by simp_all
  from appendedD(4) [OF ap, unfolded holes_kept_def, THEN conjunct2, rule_format, OF this]
  have kept: "cl_bufpos c2 = cl_bufpos c" "cl_buf c2 = cl_buf c"
    "take (Suc (length (cl_reply c))) (cl_reply c2) = cl_reply c @ [None]"
    using h by simp_all
  define post where "post = drop (Suc (length (cl_reply c))) (cl_reply c2)"
  have r: "cl_reply c2 = cl_reply c @ None # post"
    using append_take_drop_id [of "Suc (length (cl_reply c))" "cl_reply c2"] kept(3) by (simp add: post_def)
  have sent: "cl_sentlen c2 = cl_sentlen c"
    using bookkept_fields(6) [OF appendedD(3) [OF ap]] h(4) by (simp add: outside_def)
  have "cl_sentlen c \<le> length (outtext c)"
    using inv first_len_le [of c] by (auto simp: out_inv_def)
  then have "pending h = pending c" "pending c2 = pending c @ concat (map node_text post)"
    using h r kept sent by (simp_all add: pending_def outtext_def node_text_def)
  then have "concat (map node_text post) = s" using appendedD(2) [OF ap] acc by simp
  moreover have "count_list (cl_reply c2) None = count_list (cl_reply h) None"
    using appendedD(4) [OF ap] by (simp add: holes_kept_def)
  then have "None \<notin> set post" using h(1) r by (simp add: count_list_0_iff)
  ultimately show ?thesis using that r kept sent by blast
qed

lemma fill_hole:
  assumes al: "allocator usable" and inv: "out_inv c" and calm: "calm c" and q: "may_queue c" and bk: "bookkept c c1"
    and h: "h = c1\<lparr>cl_reply := cl_reply c1 @ [None]\<rparr>" and ready: "ready cfg (k + 1) sv2 c2" and ap: "appended n h s c2"
    and len: "fits_signed 8 len"
  obtains sv' c' where "setDeferredMultiBulkLength usable fill sv2 c2 (Some (length (cl_reply c1))) len = Some (sv', c')"
    and "limits_ok cfg sv'" and "appended (n + 1) c (''*'' @ sdec len @ CRLF @ s) c'"
proof -
  have acc: "accepts c" using calm q by (simp add: calm_def accepts_def)
  have hc: "cl_reply h = cl_reply c @ [None]" "cl_buf h = cl_buf c" "cl_bufpos h = cl_bufpos c" "cl_sentlen h = cl_sentlen c"
    "cl_reply_bytes h = cl_reply_bytes c" "outside h = outside c1" "accepts h"
    using bookkept_fields [OF bk] bookkept_accepts(1) [OF bk] acc
    by (simp_all add: h outside_def accepts_def may_queue_def has_flag_def)
  obtain post where post: "cl_reply c2 = cl_reply c @ None # post" "concat (map node_text post) = s"
    "cl_buf c2 = cl_buf c" "cl_bufpos c2 = cl_bufpos c" "cl_sentlen c2 = cl_sentlen c" "None \<notin> set post"
    using hole_split [OF inv hc(1-4) ap hc(7)] by blast
  have r2: "out_inv c2" "limits_ok cfg sv2" "cl_reply_bytes c2 < 2 ^ 62" using ready by (simp_all add: ready_def)
  obtain sv' c' d nodes where d: "setDeferredMultiBulkLength usable fill sv2 c2 (Some (length (cl_reply c))) len = Some (sv', c')"
    "limits_ok cfg sv'" "bookkept d c'" "d = c2\<lparr>cl_reply := cl_reply c @ nodes, cl_reply_bytes := cl_reply_bytes d\<rparr>"
    "concat (map node_text nodes) = (''*'' @ sdec len @ CRLF) @ concat (map node_text post)" "reply_ok nodes"
    "cl_reply_bytes d = sum_list (map node_size (cl_reply c @ nodes))" "cl_reply_bytes d \<le> cl_reply_bytes c2 + 2 ^ 32"
    "None \<notin> set nodes"
    using setDeferred_correct [OF al r2 post(1) len, of fill] post(6) by metis
  have df: "cl_reply d = cl_reply c @ nodes" "cl_buf d = cl_buf c" "cl_bufpos d = cl_bufpos c" "cl_sentlen d = cl_sentlen c"
    using post by (subst d(4), simp)+
  have "outside d = outside c2" unfolding outside_def by (subst d(4)) simp
  then have "bookkept (outside c2) (outside c')" using bookkept_outside [OF d(3)] by simp
  moreover have "bookkept (outside c1) (outside c2)" using appendedD(3) [OF ap] hc(6) by simp
  ultimately have out: "bookkept (outside c) (outside c')"
    by (rule bookkept_trans [OF bookkept_trans [OF bookkept_outside [OF bk]], rotated])
  have "first_len c \<le> first_len d" by (rule first_len_mono [OF df(3,1)])
  moreover have "cl_sentlen c < first_len c \<or> cl_sentlen c = 0" using inv by (simp add: out_inv_def)
  ultimately have "cl_sentlen c < first_len d \<or> cl_sentlen c = 0" by linarith
  then have "out_inv d" using inv d(6,7) df by (simp add: out_inv_def reply_ok_append)
  moreover have "pending d = pending c @ (''*'' @ sdec len @ CRLF @ s)"
    by (rule pending_append [OF inv]) (use df d(5) post(2) in \<open>simp_all add: outtext_def\<close>)
  moreover have "holes_kept c d" using df(1-3) d(9) by (simp add: holes_kept_def count_list_0_iff)
  moreover have "cl_reply_bytes d \<le> cl_reply_bytes c + (n + 1) * 2 ^ 32"
    using d(8) appendedD(5) [OF ap] hc(5) unfolding add_mult_distrib by simp
  ultimately have "appended (n + 1) c (''*'' @ sdec len @ CRLF @ s) c'"
    using out acc bookkept_fields [OF d(3)] unfolding appended_def by (simp add: holes_kept_def)
  then show ?thesis using that d(1,2) bookkept_fields(2) [OF bk] by simp
qed

lemma deferred_queues:
  assumes al: "allocator usable" and f: "queues q n f s" and len: "fits_signed 8 len"
  shows "queues True (n + 1) (\<lambda>sv c. let (sv, c, node) = addDeferredMultiBulkLength sv c
      in do { (sv, c) \<leftarrow> f sv c; setDeferredMultiBulkLength usable fill sv c node len }) (''*'' @ sdec len @ CRLF @ s)"
  unfolding queues_def
proof (intro allI impI)
  fix cfg sv c k assume ready: "ready cfg (k + (n + 1)) sv c" and "True \<longrightarrow> calm c"
  then have calm: "calm c" by simp
  obtain sv1 c1 where p: "prepareClientToWrite sv c = (sv1, c1, may_queue c)" "bookkept c c1" "limits_ok cfg sv1 = limits_ok cfg sv"
    using prepare_correct by blast
  have inv: "out_inv c" "limits_ok cfg sv1" "cl_reply_bytes c + (k + (n + 1)) * 2 ^ 32 < 2 ^ 62"
    using ready p(3) by (simp_all add: ready_def)
  have c1: "out_inv c1" "cl_reply_bytes c1 = cl_reply_bytes c" "calm c1"
    using inv calm bookkept_fields [OF p(2)] bookkept_accepts [OF p(2)] by (simp_all add: calm_def)
  have zero: "appended 0 c [] c1" by (rule bookkept_appended [OF p(2) inv(1)]) simp
  let ?g = "\<lambda>sv c. let (sv, c, node) = addDeferredMultiBulkLength sv c
      in do { (sv, c) \<leftarrow> f sv c; setDeferredMultiBulkLength usable fill sv c node len }"
  obtain sv' c' where r: "?g sv c = Some (sv', c')" "limits_ok cfg sv'" "appended (n + 1) c (''*'' @ sdec len @ CRLF @ s) c'"
  proof (cases "may_queue c")
    case False
    then have na: "\<not> accepts c" by (simp add: accepts_def)
    have "ready cfg ((k + 1) + n) sv1 c1" using inv c1 by (simp add: ready_def)
    then obtain sv2 c2 where 2: "f sv1 c1 = Some (sv2, c2)" "ready cfg (k + 1) sv2 c2" "appended n c1 s c2"
      using queuesE [OF f] c1(3) by blast
    have "appended n c s c2" using appended_trans [OF zero 2(3)] by simp
    then have "appended (n + 1) c (''*'' @ sdec len @ CRLF @ s) c2"
      using na unfolding appended_def by simp
    then show thesis using that [of sv2 c2] False p(1) 2(1,2)
      by (simp add: addDeferredMultiBulkLength_def setDeferredMultiBulkLength_def ready_def)
  next
    case True
    define h where "h = c1\<lparr>cl_reply := cl_reply c1 @ [None]\<rparr>"
    have "first_len c1 \<le> first_len h" by (rule first_len_mono) (simp_all add: h_def)
    moreover have "cl_sentlen c1 < first_len c1 \<or> cl_sentlen c1 = 0" using c1(1) by (simp add: out_inv_def)
    ultimately have "cl_sentlen c1 < first_len h \<or> cl_sentlen c1 = 0" by linarith
    then have hinv: "out_inv h" using c1(1) by (simp add: out_inv_def h_def reply_ok_append reply_ok_Cons node_size_def)
    have "ready cfg ((k + 1) + n) sv1 h" using inv c1 hinv by (simp add: ready_def h_def)
    moreover have "calm h" using c1(3) by (simp add: calm_def h_def has_flag_def)
    ultimately obtain sv2 c2 where 2: "f sv1 h = Some (sv2, c2)" "ready cfg (k + 1) sv2 c2" "appended n h s c2"
      using queuesE [OF f] by blast
    obtain sv' c' where "setDeferredMultiBulkLength usable fill sv2 c2 (Some (length (cl_reply c1))) len = Some (sv', c')"
      "limits_ok cfg sv'" "appended (n + 1) c (''*'' @ sdec len @ CRLF @ s) c'"
      using fill_hole [OF al inv(1) calm True p(2) h_def 2(2,3) len] by blast
    then show thesis using that True p(1) 2(1) by (simp add: addDeferredMultiBulkLength_def h_def)
  qed
  have "ready cfg k sv' c'" by (rule appended_ready [OF r(3) ready r(2)])
  then show "\<exists>sv' c'. ?g sv c = Some (sv', c') \<and> ready cfg k sv' c' \<and> appended (n + 1) c (''*'' @ sdec len @ CRLF @ s) c'"
    using r by blast
qed

section \<open>The wire format\<close>

text \<open>The replies commands send; an array whose length is only known at its end defers the length.\<close>

datatype reply = RString string | RObject string_obj | RError string | RErrorFormat string | RStatus string
  | RLongLong int | RMultiBulkLen int | RBulk string_obj | RBulkCBuffer string | RBulkLongLong int
  | RArray "reply list"

fun send_reply ::
  "(nat \<Rightarrow> nat) \<Rightarrow> (nat \<Rightarrow> char) \<Rightarrow> reply \<Rightarrow> redisServer \<Rightarrow> client \<Rightarrow> (redisServer \<times> client) option"
and send_replies ::
  "(nat \<Rightarrow> nat) \<Rightarrow> (nat \<Rightarrow> char) \<Rightarrow> reply list \<Rightarrow> redisServer \<Rightarrow> client \<Rightarrow> (redisServer \<times> client) option" where
  "send_reply usable fill (RString s) sv c = addReplyString usable fill sv c s"
| "send_reply usable fill (RObject obj) sv c = addReply usable fill sv c obj"
| "send_reply usable fill (RError s) sv c = addReplyError usable fill sv c s"
| "send_reply usable fill (RErrorFormat s) sv c = addReplyErrorFormat usable fill sv c s"
| "send_reply usable fill (RStatus s) sv c = addReplyStatusLength usable fill sv c s"
| "send_reply usable fill (RLongLong n) sv c = addReplyLongLong usable fill sv c n"
| "send_reply usable fill (RMultiBulkLen n) sv c = addReplyMultiBulkLen usable fill sv c n"
| "send_reply usable fill (RBulk obj) sv c = addReplyBulk usable fill sv c obj"
| "send_reply usable fill (RBulkCBuffer s) sv c = addReplyBulkCBuffer usable fill sv c s"
| "send_reply usable fill (RBulkLongLong n) sv c = addReplyBulkLongLong usable fill sv c n"
| "send_reply usable fill (RArray rs) sv c =
     (let (sv, c, node) = addDeferredMultiBulkLength sv c
      in do { (sv, c) \<leftarrow> send_replies usable fill rs sv c;
              setDeferredMultiBulkLength usable fill sv c node (int (length rs)) })"
| "send_replies usable fill [] sv c = Some (sv, c)"
| "send_replies usable fill (r # rs) sv c =
     do { (sv, c) \<leftarrow> send_reply usable fill r sv c; send_replies usable fill rs sv c }"

definition error_line :: "string \<Rightarrow> string" where
  "error_line s = (if s \<noteq> [] \<and> hd s = CHR ''-'' then [] else ''-ERR '') @ s @ CRLF"

definition bulk :: "string \<Rightarrow> string" where
  "bulk s = ''$'' @ sdec (int (length s)) @ CRLF @ s @ CRLF"

definition no_newlines :: "string \<Rightarrow> string" where
  "no_newlines s = map (\<lambda>ch. if ch = CHR 0x0D \<or> ch = CHR 0x0A then CHR '' '' else ch) s"

fun wire :: "reply \<Rightarrow> string" and wires :: "reply list \<Rightarrow> string" where
  "wire (RString s) = s"
| "wire (RObject obj) = obj_text obj"
| "wire (RError s) = error_line s"
| "wire (RErrorFormat s) = error_line (no_newlines s)"
| "wire (RStatus s) = ''+'' @ s @ CRLF"
| "wire (RLongLong n) = '':'' @ sdec n @ CRLF"
| "wire (RMultiBulkLen n) = ''*'' @ sdec n @ CRLF"
| "wire (RBulk obj) = bulk (obj_text obj)"
| "wire (RBulkCBuffer s) = bulk s"
| "wire (RBulkLongLong n) = bulk (sdec n)"
| "wire (RArray rs) = ''*'' @ sdec (int (length rs)) @ CRLF @ wires rs"
| "wires [] = []"
| "wires (r # rs) = wire r @ wires rs"

text \<open>The arguments the functions are defined for, and the number of blocks a reply may need.\<close>

fun reply_valid :: "reply \<Rightarrow> bool" and replies_valid :: "reply list \<Rightarrow> bool" where
  "reply_valid (RString s) = (length s < 2 ^ 30)"
| "reply_valid (RObject obj) = obj_ok obj"
| "reply_valid (RError s) = (length s < 2 ^ 30)"
| "reply_valid (RErrorFormat s) = (length s < 2 ^ 30)"
| "reply_valid (RStatus s) = (length s < 2 ^ 30)"
| "reply_valid (RLongLong n) = fits_signed 8 n"
| "reply_valid (RMultiBulkLen n) = (fits_signed 8 n \<and> 0 \<le> n)"
| "reply_valid (RBulk obj) = (obj_ok obj \<and> obj \<noteq> IntObj LLONG_MIN)"
| "reply_valid (RBulkCBuffer s) = (length s < 2 ^ 30)"
| "reply_valid (RBulkLongLong n) = fits_signed 8 n"
| "reply_valid (RArray rs) = (replies_valid rs \<and> fits_signed 8 (int (length rs)))"
| "replies_valid [] = True"
| "replies_valid (r # rs) = (reply_valid r \<and> replies_valid rs)"

fun reply_blocks :: "reply \<Rightarrow> nat" and replies_blocks :: "reply list \<Rightarrow> nat" where
  "reply_blocks (RArray rs) = replies_blocks rs + 1"
| "reply_blocks _ = 3"
| "replies_blocks [] = 0"
| "replies_blocks (r # rs) = reply_blocks r + replies_blocks rs"

lemma addReplyMultiBulkLen_queues:
  assumes al: "allocator usable" and f: "fits_signed 8 n" "0 \<le> n"
  shows "queues False 1 (\<lambda>sv c. addReplyMultiBulkLen usable fill sv c n) (''*'' @ sdec n @ CRLF)"
proof -
  have "queues False 1 (\<lambda>sv c. addReply usable fill sv c (SdsObj (CHR ''*'' # sdec n @ CRLF))) (CHR ''*'' # sdec n @ CRLF)"
    using addReply_queues [OF al, of "SdsObj (CHR ''*'' # sdec n @ CRLF)" fill] length_sdec_bound [OF f(1)]
    by (simp add: obj_ok_def obj_text_def)
  then show ?thesis using addReplyLongLongWithPrefix_queues [OF al f(1), of fill "CHR ''*''"] f(2)
    unfolding addReplyMultiBulkLen_def shared_hdr_def by (intro queues_if) auto
qed

lemma addReplyBulk_queues:
  assumes al: "allocator usable" and ok: "obj_ok obj" "obj \<noteq> IntObj LLONG_MIN"
  shows "queues False 3 (\<lambda>sv c. addReplyBulk usable fill sv c obj) (bulk (obj_text obj))"
  unfolding addReplyBulk_def bulk_def
  using queues_seq [OF addReplyBulkLen_queues [OF al ok] queues_seq [OF addReply_queues [OF al ok(1)] CRLF_queues [OF al]]]
  by (simp add: numeral_3_eq_3)

lemma addReplyBulkCBuffer_queues:
  assumes al: "allocator usable" and len: "length s < 2 ^ 30"
  shows "queues False 3 (\<lambda>sv c. addReplyBulkCBuffer usable fill sv c s) (bulk s)"
proof -
  have "fits_signed 8 (int (length s))" using len by (simp add: fits_signed_def)
  from queues_seq [OF addReplyLongLongWithPrefix_queues [OF al this, of fill "CHR ''$''"]
      queues_seq [OF addReplyString_queues [OF al len] CRLF_queues [OF al]]]
  show ?thesis unfolding addReplyBulkCBuffer_def bulk_def by (simp add: numeral_3_eq_3)
qed

lemma addReplyBulkLongLong_queues:
  assumes al: "allocator usable" and f: "fits_signed 8 n"
  shows "queues False 3 (\<lambda>sv c. addReplyBulkLongLong usable fill sv c n) (bulk (sdec n))"
proof -
  have l: "length (sdec n) < 2 ^ 30" using length_sdec_bound [OF f] by simp
  have t: "do { (buf, len) \<leftarrow> ll2string (map fill [0..<64]) n; mem_read buf 0 len } = Some (sdec n)"
    using ll2string_text [OF f, of "map fill [0..<64]"] by simp
  have "addReplyBulkLongLong usable fill sv c n = addReplyBulkCBuffer usable fill sv c (sdec n)" for sv c
    using t unfolding addReplyBulkLongLong_def by (auto simp: bind_eq_Some_conv)
  then show ?thesis using addReplyBulkCBuffer_queues [OF al l] by simp
qed

lemma queues_send:
  assumes "\<And>sv c. g sv c = f sv c" and "queues False n f s" and "n \<le> 3"
  shows "queues True 3 g s"
proof -
  have "g = f" using assms(1) by blast
  then show ?thesis using queues_mono [OF assms(2) _ assms(3)] by simp
qed

lemma send_reply_queues:
  assumes al: "allocator usable"
  shows "reply_valid r \<Longrightarrow> queues True (reply_blocks r) (send_reply usable fill r) (wire r)"
    and "replies_valid rs \<Longrightarrow> queues True (replies_blocks rs) (send_replies usable fill rs) (wires rs)"
proof (induction r and rs rule: wire_wires.induct)
  case (3 s)
  then show ?case using addReplyErrorLength_queues [OF al, of s fill] by (simp add: addReplyError_def error_line_def)
next
  case (4 s)
  then show ?case using addReplyErrorLength_queues [OF al, of "no_newlines s" fill]
    by (simp add: addReplyErrorFormat_def error_line_def no_newlines_def)
next
  case (11 rs)
  then show ?case using deferred_queues [OF al, of True "replies_blocks rs" "send_replies usable fill rs" "wires rs" "int (length rs)" fill]
    by simp
next
  case 12
  have "queues True 0 (\<lambda>sv c. Some (sv, c)) []"
    unfolding queues_def using bookkept_appended [OF bookkept_refl] by (auto simp: ready_def)
  then show ?case by (simp add: fun_eq_iff [symmetric])
next
  case (13 r rs)
  then show ?case using queues_seq [of True "reply_blocks r" "send_reply usable fill r" "wire r" True]
    by simp
next
  case (1 s)
  then show ?case using queues_send [OF send_reply.simps(1) addReplyString_queues [OF al, of s]] by simp
next
  case (2 obj)
  then show ?case using queues_send [OF send_reply.simps(2) addReply_queues [OF al, of obj]] by simp
next
  case (5 s)
  then show ?case using queues_send [OF send_reply.simps(5) addReplyStatusLength_queues [OF al, of s]] by simp
next
  case (6 n)
  then show ?case using queues_send [OF send_reply.simps(6) addReplyLongLong_queues [OF al, of n]] by simp
next
  case (7 n)
  then show ?case using queues_send [OF send_reply.simps(7) addReplyMultiBulkLen_queues [OF al, of n]] by simp
next
  case (8 obj)
  then show ?case using queues_send [OF send_reply.simps(8) addReplyBulk_queues [OF al, of obj]] by simp
next
  case (9 s)
  then show ?case using queues_send [OF send_reply.simps(9) addReplyBulkCBuffer_queues [OF al, of s]] by simp
next
  case (10 n)
  then show ?case using queues_send [OF send_reply.simps(10) addReplyBulkLongLong_queues [OF al, of n]] by simp
qed

section \<open>Sending delivers the stream\<close>

text \<open>What one call of \<open>write(2)\<close> is given, and the client after \<open>k\<close> of these bytes were accepted.\<close>

definition chunk :: "client \<Rightarrow> string" where
  "chunk c = drop (cl_sentlen c) (if cl_bufpos c > 0 then take (cl_bufpos c) (cl_buf c) else node_text (hd (cl_reply c)))"

definition advance :: "client \<Rightarrow> nat \<Rightarrow> client" where
  "advance c k =
     (if cl_sentlen c + k \<noteq> first_len c then c\<lparr>cl_sentlen := cl_sentlen c + k\<rparr>
      else if cl_bufpos c > 0 then c\<lparr>cl_bufpos := 0, cl_sentlen := 0\<rparr>
      else c\<lparr>cl_reply_bytes := cl_reply_bytes c - node_size (hd (cl_reply c)), cl_reply := tl (cl_reply c), cl_sentlen := 0\<rparr>)"

definition sendable :: "client \<Rightarrow> bool" where
  "sendable c \<longleftrightarrow> out_inv c \<and> settled c \<and> cl_reply_bytes c < 2 ^ 64"

lemma sendable_head:
  assumes "sendable c" and "clientHasPendingReplies c" and "cl_bufpos c = 0"
  obtains b rs where "cl_reply c = Some b # rs" and "blk_ok b" and "reply_ok rs" and "None \<notin> set rs"
    and "cl_reply_bytes c = blk_size b + sum_list (map node_size rs)" and "first_len c = blk_used b" and "cl_sentlen c < blk_used b"
proof (cases "cl_reply c")
  case Nil
  then show ?thesis using assms(2,3) by (simp add: clientHasPendingReplies_def)
next
  case (Cons r rs)
  then obtain b where b: "r = Some b" using assms(1) by (cases r) (auto simp: sendable_def settled_def)
  have ok: "blk_ok b" "reply_ok rs" "None \<notin> set rs" "cl_reply_bytes c = blk_size b + sum_list (map node_size rs)"
    using assms(1) Cons b by (simp_all add: sendable_def out_inv_def settled_def reply_ok_Cons node_size_def)
  have fl: "first_len c = blk_used b" using Cons b assms(3) length_blk_text [OF ok(1)] by (simp add: first_len_def node_text_def)
  moreover have "0 < blk_used b" using ok(1) by (simp add: blk_ok_def)
  ultimately have "cl_sentlen c < blk_used b" using assms(1) unfolding sendable_def out_inv_def by auto
  then show ?thesis using that Cons b ok fl by blast
qed

lemma sentlen_first:
  assumes "sendable c" and "clientHasPendingReplies c"
  shows "cl_sentlen c < first_len c" and "length (chunk c) = first_len c - cl_sentlen c"
proof -
  show *: "cl_sentlen c < first_len c"
  proof (cases "cl_bufpos c = 0")
    case True
    then show ?thesis using sendable_head [OF assms True] by metis
  next
    case False
    then have "first_len c > 0" by (simp add: first_len_def)
    then show ?thesis using assms(1) by (auto simp: sendable_def out_inv_def)
  qed
  show "length (chunk c) = first_len c - cl_sentlen c"
  proof (cases "cl_bufpos c = 0")
    case True
    then obtain b rs where "cl_reply c = Some b # rs" "blk_ok b" "first_len c = blk_used b"
      using sendable_head [OF assms True] by metis
    then show ?thesis using True by (simp add: chunk_def node_text_def length_blk_text)
  next
    case False
    then show ?thesis using assms(1) by (simp add: chunk_def first_len_def sendable_def out_inv_def)
  qed
qed

lemma pending_chunk:
  assumes "sendable c" and "clientHasPendingReplies c"
  obtains rest where "pending c = chunk c @ rest" and "chunk c \<noteq> []"
    and "\<And>k. k \<le> length (chunk c) \<Longrightarrow> pending (advance c k) = drop k (chunk c) @ rest"
proof -
  note lt = sentlen_first [OF assms]
  then have ne: "chunk c \<noteq> []" by (metis list.size(3) less_irrefl zero_less_diff)
  show ?thesis
  proof (cases "cl_bufpos c = 0")
    case True
    then obtain b rs where h: "cl_reply c = Some b # rs" "first_len c = blk_used b" "blk_ok b"
      using sendable_head [OF assms True] by metis
    have lb: "length (blk_text b) = blk_used b" by (rule length_blk_text [OF h(3)])
    have "pending (advance c k) = drop k (chunk c) @ concat (map node_text rs)" if "k \<le> length (chunk c)" for k
      using that h lb lt True by (auto simp: pending_def outtext_def advance_def chunk_def node_text_def add.commute)
    moreover have "pending c = chunk c @ concat (map node_text rs)"
      using h lb lt True by (simp add: pending_def outtext_def chunk_def node_text_def)
    ultimately show ?thesis using that ne by blast
  next
    case False
    then have fl: "first_len c = cl_bufpos c" by (simp add: first_len_def)
    have lb: "length (take (cl_bufpos c) (cl_buf c)) = cl_bufpos c"
      using assms(1) by (simp add: sendable_def out_inv_def)
    have "pending (advance c k) = drop k (chunk c) @ concat (map node_text (cl_reply c))" if "k \<le> length (chunk c)" for k
      using that lb lt False fl by (auto simp: pending_def outtext_def advance_def chunk_def add.commute)
    moreover have "pending c = chunk c @ concat (map node_text (cl_reply c))"
      using lb lt False fl by (simp add: pending_def outtext_def chunk_def)
    ultimately show ?thesis using that ne by blast
  qed
qed

lemma advance_sendable:
  assumes "sendable c" and "clientHasPendingReplies c" and k: "k \<le> length (chunk c)"
  shows "sendable (advance c k)"
proof (cases "cl_sentlen c + k \<noteq> first_len c")
  case True
  then have "cl_sentlen c + k < first_len c" using k sentlen_first [OF assms(1,2)] by simp
  moreover have "first_len (c\<lparr>cl_sentlen := n\<rparr>) = first_len c" for n by (simp add: first_len_def)
  ultimately show ?thesis using assms(1) True by (simp add: sendable_def advance_def out_inv_def settled_def)
next
  case False
  show ?thesis
  proof (cases "cl_bufpos c = 0")
    case True
    then obtain b rs where "cl_reply c = Some b # rs" "reply_ok rs" "None \<notin> set rs"
      "cl_reply_bytes c = blk_size b + sum_list (map node_size rs)"
      using sendable_head [OF assms(1,2) True] by metis
    then show ?thesis using assms(1) False True by (simp add: sendable_def advance_def out_inv_def settled_def node_size_def)
  next
    case False': False
    then show ?thesis using assms(1) False by (simp add: sendable_def advance_def out_inv_def settled_def)
  qed
qed

text \<open>One turn of the loop, in these terms: the assertion on \<open>reply_bytes\<close> holds.\<close>

lemma write_loop_turn:
  assumes s: "sendable c" and p: "clientHasPendingReplies c" and net: "net i (length (chunk c)) \<le> int (length (chunk c))"
  shows "write_loop net mem sv i nw tot sent c =
    (let k = net i (length (chunk c)) in
     if k \<le> 0 then Some (c, k, tot, sent)
     else if write_pause mem sv i (tot + nat k) (advance c (nat k))
     then Some (advance c (nat k), k, tot + nat k, sent @ take (nat k) (chunk c))
     else write_loop net mem sv (i + 1) k (tot + nat k) (sent @ take (nat k) (chunk c)) (advance c (nat k)))"
proof (cases "cl_bufpos c = 0")
  case False
  have lt: "cl_sentlen c < cl_bufpos c" "cl_bufpos c \<le> length (cl_buf c)"
    using sentlen_first(1) [OF s p] False s by (simp_all add: first_len_def sendable_def out_inv_def)
  have r: "mem_read (cl_buf c) (cl_sentlen c) (cl_bufpos c - cl_sentlen c) = Some (chunk c)"
    using lt False by (simp add: mem_read_def chunk_def take_drop)
  have "(let c = c\<lparr>cl_sentlen := cl_sentlen c + k\<rparr>
     in if cl_sentlen c = cl_bufpos c then c\<lparr>cl_bufpos := 0, cl_sentlen := 0\<rparr> else c) = advance c k" for k
    using False by (simp add: advance_def first_len_def)
  then show ?thesis using p False lt r
    by (subst write_loop.simps) (simp add: Let_def)
next
  case True
  then obtain b rs where h: "cl_reply c = Some b # rs" "blk_ok b" "first_len c = blk_used b" "cl_sentlen c < blk_used b"
    "cl_reply_bytes c = blk_size b + sum_list (map node_size rs)"
    using sendable_head [OF s p True] by metis
  have pos: "blk_used b \<noteq> 0" and len: "blk_used b \<le> length (blk_buf b)" using h(2) by (simp_all add: blk_ok_def)
  have r: "mem_read (blk_buf b) (cl_sentlen c) (blk_used b - cl_sentlen c) = Some (chunk c)"
    using h(1,4) len True by (simp add: mem_read_def chunk_def node_text_def blk_text_def take_drop)
  have small: "cl_reply_bytes c < 2 ^ 64" using s by (simp add: sendable_def)
  have "(cl_reply_bytes c + 2 ^ 64 - blk_size b) mod 2 ^ 64 = (cl_reply_bytes c - blk_size b + 2 ^ 64) mod 2 ^ 64"
    using h(5) by simp
  also have "\<dots> = cl_reply_bytes c - blk_size b" using small unfolding mod_add_self2 by (intro mod_less) linarith
  finally have m: "(cl_reply_bytes c + 2 ^ 64 - blk_size b) mod 2 ^ 64 = cl_reply_bytes c - blk_size b" .
  have z: "(rs = [] \<and> blk_size b < cl_reply_bytes c) = False" using h(5) by simp
  define k where "k = net i (length (chunk c))"
  have a: "advance c (nat k) = (if cl_sentlen c + nat k = blk_used b
      then c\<lparr>cl_reply_bytes := cl_reply_bytes c - blk_size b, cl_reply := rs, cl_sentlen := 0\<rparr>
      else c\<lparr>cl_sentlen := cl_sentlen c + nat k\<rparr>)"
    using h(1,3) True by (simp add: advance_def node_size_def)
  have nle: "\<not> cl_sentlen c > blk_used b" using h(4) by simp
  show ?thesis
  proof (cases "cl_sentlen c + nat k = blk_used b")
    case eq: True
    show ?thesis using p True h(1) pos nle r
      by (subst write_loop.simps) (simp add: k_def [symmetric] eq a z m [simplified] Let_def)
  next
    case neq: False
    show ?thesis using p True h(1) pos nle r
      by (subst write_loop.simps) (simp add: k_def [symmetric] neq a Let_def)
  qed
qed

text \<open>\<open>write(2)\<close> never reports more bytes than it was given.\<close>

definition kernel :: "(nat \<Rightarrow> nat \<Rightarrow> int) \<Rightarrow> bool" where
  "kernel net \<longleftrightarrow> (\<forall>i n. net i n \<le> int n)"

text \<open>What sending changes of a client.\<close>

definition unsent :: "client \<Rightarrow> client" where
  "unsent c = c\<lparr>cl_reply := [], cl_reply_bytes := 0, cl_bufpos := 0, cl_sentlen := 0\<rparr>"

lemma advance_unsent: "unsent (advance c k) = unsent c"
  by (simp add: unsent_def advance_def)

lemma no_pending: "sendable c \<Longrightarrow> \<not> clientHasPendingReplies c \<Longrightarrow> pending c = []"
  by (simp add: clientHasPendingReplies_def pending_def outtext_def)

lemma write_loop_correct:
  assumes net: "kernel net" and s: "sendable c"
  shows "\<exists>c' nw' out. write_loop net mem sv i nw tot sent c = Some (c', nw', tot + length out, sent @ out) \<and>
    out @ pending c' = pending c \<and> sendable c' \<and> unsent c' = unsent c \<and>
    ((\<forall>i n. 0 < n \<longrightarrow> 0 < net i n) \<longrightarrow> clientHasPendingReplies c' \<longrightarrow> tot + length out > NET_MAX_WRITES_PER_EVENT) \<and>
    (nw' = nw \<or> (\<exists>j n. 0 < n \<and> nw' = net j n))"
  using s
proof (induction "length (pending c)" arbitrary: c i nw tot sent rule: less_induct)
  case less
  show ?case
  proof (cases "clientHasPendingReplies c")
    case False
    then have "write_loop net mem sv i nw tot sent c = Some (c, nw, tot + length [], sent @ [])"
      by (subst write_loop.simps) simp
    then show ?thesis using less.prems False by (intro exI [of _ c] exI [of _ nw] exI [of _ "[]"]) simp
  next
    case True
    define k where "k = net i (length (chunk c))"
    have kle: "k \<le> int (length (chunk c))" using net by (simp add: kernel_def k_def)
    obtain rest where rest: "pending c = chunk c @ rest" "chunk c \<noteq> []"
      "\<And>k. k \<le> length (chunk c) \<Longrightarrow> pending (advance c k) = drop k (chunk c) @ rest"
      using pending_chunk [OF less.prems True] by blast
    note turn = write_loop_turn [of c net i mem sv nw tot sent, OF less.prems True, folded k_def, OF kle, unfolded Let_def]
    have wrote: "\<exists>j n. 0 < n \<and> k = net j n" using rest(2) by (auto simp: k_def)
    show ?thesis
    proof (cases "k \<le> 0")
      case k: True
      then have "write_loop net mem sv i nw tot sent c = Some (c, k, tot + length [], sent @ [])" using turn by simp
      moreover have "\<not> (\<forall>i n. 0 < n \<longrightarrow> 0 < net i n)" using k rest(2) unfolding k_def by (metis length_greater_0_conv not_less)
      ultimately show ?thesis using less.prems wrote
        by (intro exI [of _ c] exI [of _ k] exI [of _ "[]"]) (simp, blast)
    next
      case k: False
      define c1 out1 where "c1 = advance c (nat k)" and "out1 = take (nat k) (chunk c)"
      have kn: "nat k \<le> length (chunk c)" "length out1 = nat k" using kle k by (auto simp: out1_def)
      have c1: "sendable c1" "unsent c1 = unsent c" "out1 @ pending c1 = pending c"
        using advance_sendable [OF less.prems True kn(1)] rest kn(1) by (simp_all add: c1_def out1_def advance_unsent)
      show ?thesis
      proof (cases "write_pause mem sv i (tot + nat k) c1")
        case pause: True
        then have "write_loop net mem sv i nw tot sent c = Some (c1, k, tot + length out1, sent @ out1)"
          using turn k kn(2) by (simp add: c1_def out1_def)
        moreover have "tot + length out1 > NET_MAX_WRITES_PER_EVENT" using pause kn(2) by (simp add: write_pause_def)
        ultimately show ?thesis using c1 wrote by (intro exI [of _ c1] exI [of _ k] exI [of _ out1]) simp
      next
        case pause: False
        have "length (pending c1) < length (pending c)" using c1(3) kn(2) k by (metis length_append less_add_same_cancel2 nat_0_iff neq0_conv zero_less_nat_eq not_le)
        from less.hyps [OF this c1(1), of "i + 1" k "tot + nat k" "sent @ out1"] obtain c' nw' out where ih:
          "write_loop net mem sv (i + 1) k (tot + nat k) (sent @ out1) c1 = Some (c', nw', tot + nat k + length out, (sent @ out1) @ out)"
          "out @ pending c' = pending c1" "sendable c'" "unsent c' = unsent c1"
          "(\<forall>i n. 0 < n \<longrightarrow> 0 < net i n) \<longrightarrow> clientHasPendingReplies c' \<longrightarrow> tot + nat k + length out > NET_MAX_WRITES_PER_EVENT"
          "nw' = k \<or> (\<exists>j n. 0 < n \<and> nw' = net j n)" by blast
        have "write_loop net mem sv i nw tot sent c = Some (c', nw', tot + length (out1 @ out), sent @ out1 @ out)"
          using turn k pause ih(1) kn(2) by (simp add: c1_def out1_def)
        moreover have "(out1 @ out) @ pending c' = pending c" using ih(2) c1(3) by simp
        moreover have "nw' = nw \<or> (\<exists>j n. 0 < n \<and> nw' = net j n)" using ih(6) wrote by blast
        ultimately show ?thesis using ih(3-5) c1(2) kn(2)
          by (intro exI [of _ c'] exI [of _ nw'] exI [of _ "out1 @ out"]) (simp add: add.assoc)
      qed
    qed
  qed
qed

lemma writeToClient_correct:
  assumes net: "kernel net" and s: "sendable c"
  obtains sv' st out where "writeToClient net mem eagain sv c = Some (sv', st, out)"
    and "\<And>c'. st = Live c' \<Longrightarrow> out @ pending c' = pending c \<and> sendable c' \<and>
      unsent (c'\<lparr>cl_lastinteraction := cl_lastinteraction c\<rparr>) = unsent c \<and>
      (pending c' = [] \<longrightarrow> \<not> has_flag c' CLIENT_CLOSE_AFTER_REPLY)"
    and "st = Freed \<Longrightarrow> (\<exists>rest. out @ rest = pending c \<and>
      (rest = [] \<and> has_flag c CLIENT_CLOSE_AFTER_REPLY \<or> \<not> eagain \<and> (\<exists>i n. 0 < n \<and> net i n = - 1)))"
    and "(\<forall>i n. 0 < n \<longrightarrow> 0 < net i n) \<Longrightarrow> length out > NET_MAX_WRITES_PER_EVENT \<or> out = pending c"
proof -
  obtain c1 nw out where w: "write_loop net mem sv 0 0 0 [] c = Some (c1, nw, length out, out)" "out @ pending c1 = pending c"
    "sendable c1" "unsent c1 = unsent c"
    "(\<forall>i n. 0 < n \<longrightarrow> 0 < net i n) \<longrightarrow> clientHasPendingReplies c1 \<longrightarrow> length out > NET_MAX_WRITES_PER_EVENT"
    "nw = 0 \<or> (\<exists>j n. 0 < n \<and> nw = net j n)"
    using write_loop_correct [OF net s, of mem sv 0 0 0 "[]"] unfolding add_0 append_Nil by blast
  have live: "length out > NET_MAX_WRITES_PER_EVENT \<or> out = pending c" if "\<forall>i n. 0 < n \<longrightarrow> 0 < net i n"
    using w(2,5) no_pending [OF w(3)] that by (cases "clientHasPendingReplies c1") auto
  define sv' where "sv' = sv\<lparr>sv_stat_net_output_bytes := sv_stat_net_output_bytes sv + int (length out)\<rparr>"
  define c2 where "c2 = (if length out > 0 \<and> \<not> has_flag c1 CLIENT_MASTER then c1\<lparr>cl_lastinteraction := sv_unixtime sv'\<rparr> else c1)"
  have fl: "first_len (c\<lparr>cl_lastinteraction := t\<rparr>) = first_len c" for c t by (simp add: first_len_def)
  have c2: "sendable c2" "pending c2 = pending c1" "clientHasPendingReplies c2 = clientHasPendingReplies c1"
    "has_flag c2 CLIENT_CLOSE_AFTER_REPLY = has_flag c1 CLIENT_CLOSE_AFTER_REPLY"
    using w(3) fl by (simp_all add: c2_def sendable_def out_inv_def settled_def pending_def outtext_def
        clientHasPendingReplies_def has_flag_def)
  have u: "unsent (c2\<lparr>cl_lastinteraction := cl_lastinteraction c\<rparr>) = unsent c"
  proof -
    have "unsent (c2\<lparr>cl_lastinteraction := cl_lastinteraction c\<rparr>) = (unsent c1)\<lparr>cl_lastinteraction := cl_lastinteraction c\<rparr>"
      by (simp add: c2_def unsent_def)
    then show ?thesis using w(4) by (simp add: unsent_def)
  qed
  have flag: "has_flag c1 CLIENT_CLOSE_AFTER_REPLY = has_flag c CLIENT_CLOSE_AFTER_REPLY"
    using arg_cong [OF w(4), of cl_flags] by (simp add: unsent_def has_flag_def)
  have nf: "has_flag (c\<lparr>cl_sentlen := 0\<rparr>) f = has_flag c f" for c f by (simp add: has_flag_def)
  have e: "writeToClient net mem eagain sv c = Some
    (if nw = - 1 \<and> \<not> eagain then (sv', Freed, out)
     else if \<not> clientHasPendingReplies c2
     then (if has_flag c2 CLIENT_CLOSE_AFTER_REPLY then (sv', Freed, out) else (sv', Live (c2\<lparr>cl_sentlen := 0\<rparr>), out))
     else (sv', Live c2, out))"
    unfolding writeToClient_def w(1) bind.bind_lunit prod.case Let_def sv'_def [symmetric] c2_def [symmetric] nf
    by simp
  consider (err) "nw = - 1 \<and> \<not> eagain" | (rest) "\<not> (nw = - 1 \<and> \<not> eagain)" "clientHasPendingReplies c2"
    | (all) "\<not> (nw = - 1 \<and> \<not> eagain)" "\<not> clientHasPendingReplies c2" "has_flag c2 CLIENT_CLOSE_AFTER_REPLY"
    | (idle) "\<not> (nw = - 1 \<and> \<not> eagain)" "\<not> clientHasPendingReplies c2" "\<not> has_flag c2 CLIENT_CLOSE_AFTER_REPLY" by blast
  then show ?thesis
  proof cases
    case err
    then have "\<exists>i n. 0 < n \<and> net i n = - 1" using w(6) by force
    then show ?thesis using that [of sv' Freed out] e err w(2) live by auto
  next
    case rest
    obtain rst where "pending c2 = chunk c2 @ rst" "chunk c2 \<noteq> []" using pending_chunk [OF c2(1) rest(2)] by blast
    then show ?thesis using that [of sv' "Live c2" out] e rest c2 u w(2) live by auto
  next
    case all
    then have "pending c1 = []" using no_pending [OF w(3)] c2(3) by simp
    then show ?thesis using that [of sv' Freed out] e all w(2) live c2(4) flag by auto
  next
    case idle
    then have p: "pending c1 = []" using no_pending [OF w(3)] c2(3) by simp
    have i: "sendable (c2\<lparr>cl_sentlen := 0\<rparr>)" "pending (c2\<lparr>cl_sentlen := 0\<rparr>) = []"
      "unsent (c2\<lparr>cl_sentlen := 0, cl_lastinteraction := cl_lastinteraction c\<rparr>) = unsent c"
      using idle(2) c2(1) u by (simp_all add: sendable_def out_inv_def settled_def first_len_def pending_def outtext_def
          clientHasPendingReplies_def unsent_def)
    then show ?thesis using that [of sv' "Live (c2\<lparr>cl_sentlen := 0\<rparr>)" out] e idle p w(2) live
      by (auto simp: has_flag_def)
  qed
qed

section \<open>The properties of the output side\<close>

lemma appended_settled: "appended k c s c' \<Longrightarrow> settled c \<Longrightarrow> settled c'"
  using appendedD(4) [of k c s c'] by (simp add: settled_def holes_kept_def flip: count_list_0_iff)

lemma createClient_fresh:
  assumes "createClient fill i now fd = Some c"
  shows "sendable c" and "pending c = []" and "cl_flags c = 0" and "cl_fd c = fd" and "cl_reply_bytes c = 0"
    and "cl_reply c = []" and "cl_sentlen c = 0"
  using assms by (auto simp: createClient_def bind_eq_Some_conv sendable_def out_inv_def settled_def first_len_def
      pending_def outtext_def)

lemma createClient_Some: "createClient fill i now fd \<noteq> None"
proof -
  obtain s where "sdsempty fill = Some s"
    using sdsnewlen_correct [of 0 "[]" fill] unfolding sdsempty_def by auto
  then show ?thesis by (simp add: createClient_def)
qed

text \<open>A client and a server for examples.\<close>

definition demo_client :: client where
  "demo_client = the (createClient (\<lambda>_. CHR ''?'') 7 0 5)"

definition demo_server :: redisServer where
  "demo_server = \<lparr>sv_unixtime = 0, sv_clients_pending_write = [], sv_clients_to_close = [],
     sv_client_obuf_limits = replicate 3 \<lparr>hard_limit_bytes = 0, soft_limit_bytes = 0, soft_limit_seconds = 0\<rparr>,
     sv_maxmemory = 0, sv_proto_max_bulk_len = 512 * 1024 * 1024, sv_client_max_querybuf_len = 1024 * 1024 * 1024,
     sv_lua_timedout = False, sv_clients_paused = False, sv_stat_net_output_bytes = 0, sv_stat_net_input_bytes = 0,
     sv_monitors = []\<rparr>"

lemma demo_client_fresh: "sendable demo_client" "pending demo_client = []" "cl_flags demo_client = 0" "cl_fd demo_client = 5"
    "cl_reply_bytes demo_client = 0" "cl_reply demo_client = []" "cl_sentlen demo_client = 0"
proof -
  obtain c where c: "createClient (\<lambda>_. CHR ''?'') 7 0 5 = Some c" using createClient_Some by blast
  then have "demo_client = c" by (simp add: demo_client_def)
  then show "sendable demo_client" "pending demo_client = []" "cl_flags demo_client = 0" "cl_fd demo_client = 5"
    "cl_reply_bytes demo_client = 0" "cl_reply demo_client = []" "cl_sentlen demo_client = 0" using createClient_fresh [OF c] by simp_all
qed

definition demo_busy :: client where
  "demo_busy = demo_client\<lparr>cl_buf := ''hello'' @ replicate 16379 (CHR ''?''), cl_bufpos := 5\<rparr>"

lemma demo_busy_pending: "sendable demo_busy" "pending demo_busy = ''hello''"
  using demo_client_fresh(5-7)
  by (simp_all add: demo_busy_def sendable_def out_inv_def settled_def first_len_def pending_def outtext_def
      PROTO_REPLY_CHUNK_BYTES_def)

text \<open>C7: Whatever replies a command queues, nested arrays with deferred lengths included, the stream of the
  client grows by exactly their protocol text when it takes replies and by nothing otherwise. No buffer is
  overrun, no assertion fails, and the invariant of the output side holds afterwards.\<close>

theorem replies_on_the_wire:
  assumes "allocator usable" and "out_inv c" and "settled c" and "limits_ok (sv_config sv) sv" and "calm c"
    and "replies_valid rs" and "cl_reply_bytes c + replies_blocks rs * 2 ^ 32 < 2 ^ 62"
  shows "\<exists>sv' c'. send_replies usable fill rs sv c = Some (sv', c') \<and> out_inv c' \<and> settled c' \<and>
    sv_config sv' = sv_config sv \<and> pending c' = pending c @ (if may_queue c then wires rs else [])"
proof -
  have "ready (sv_config sv) (0 + replies_blocks rs) sv c" using assms by (simp add: ready_def)
  then obtain sv' c' where r: "send_replies usable fill rs sv c = Some (sv', c')" "appended (replies_blocks rs) c (wires rs) c'"
    "ready (sv_config sv) 0 sv' c'"
    using queuesE [OF send_reply_queues(2) [OF assms(1,6)]] assms(5) by blast
  moreover have "accepts c = may_queue c" using assms(5) by (simp add: accepts_def calm_def)
  moreover have "sv_config sv' = sv_config sv" using r(3) by (simp add: ready_def limits_ok_def)
  ultimately show ?thesis using appendedD(1,2) [OF r(2)] appended_settled [OF r(2) assms(3)] by auto
qed

theorem replies_on_the_wire_witness:
  "\<exists>sv' c'. send_replies (\<lambda>n. n) (\<lambda>_. CHR ''?'') [RArray [RBulkCBuffer ''ab'', RLongLong 5], RStatus ''OK''] demo_server demo_client =
      Some (sv', c') \<and> out_inv c' \<and> settled c' \<and> sv_config sv' = sv_config demo_server \<and>
      pending c' = ''*2'' @ CRLF @ ''$2'' @ CRLF @ ''ab'' @ CRLF @ '':5'' @ CRLF @ ''+OK'' @ CRLF"
proof -
  have "allocator (\<lambda>n. n)" by (simp add: allocator_def)
  moreover have "out_inv demo_client" "settled demo_client" using demo_client_fresh(1) by (simp_all add: sendable_def)
  moreover have "limits_ok (sv_config demo_server) demo_server" by (simp add: limits_ok_def demo_server_def)
  moreover have "calm demo_client" "may_queue demo_client"
    using demo_client_fresh by (simp_all add: calm_def may_queue_def has_flag_def)
  moreover have "replies_valid [RArray [RBulkCBuffer ''ab'', RLongLong 5], RStatus ''OK'']" by (simp add: fits_signed_def)
  moreover have "wires [RArray [RBulkCBuffer ''ab'', RLongLong 5], RStatus ''OK''] =
      ''*2'' @ CRLF @ ''$2'' @ CRLF @ ''ab'' @ CRLF @ '':5'' @ CRLF @ ''+OK'' @ CRLF"
    by (simp add: bulk_def sdec_def dec.simps digit_chars)
  moreover have "cl_reply_bytes demo_client + replies_blocks [RArray [RBulkCBuffer ''ab'', RLongLong 5], RStatus ''OK''] * 2 ^ 32 < 2 ^ 62"
    using demo_client_fresh(5) by simp
  ultimately show ?thesis
    using replies_on_the_wire [of "\<lambda>n. n" demo_client demo_server "[RArray [RBulkCBuffer ''ab'', RLongLong 5], RStatus ''OK'']" "\<lambda>_. CHR ''?''"]
    unfolding demo_client_fresh(2) append_Nil by (simp only: if_True)
qed

text \<open>C8: Sending loses, repeats and reorders nothing: for every kernel that accepts no more than it is given,
  \<open>writeToClient\<close> returns, and the bytes it sent followed by those still pending are those pending before. The
  client is released only when an error was reported or when all was sent and it is to be closed.\<close>

theorem writeToClient_delivers:
  assumes "kernel net" and "sendable c"
  shows "\<exists>sv' st out. writeToClient net mem eagain sv c = Some (sv', st, out) \<and>
    (case st of
       Live c' \<Rightarrow> out @ pending c' = pending c \<and> sendable c' \<and> (pending c' = [] \<longrightarrow> \<not> has_flag c' CLIENT_CLOSE_AFTER_REPLY)
     | Freed \<Rightarrow> (\<exists>rest. out @ rest = pending c \<and>
         (rest = [] \<and> has_flag c CLIENT_CLOSE_AFTER_REPLY \<or> \<not> eagain \<and> (\<exists>i n. 0 < n \<and> net i n = - 1))))"
proof -
  show ?thesis
  proof (rule writeToClient_correct [OF assms, of mem eagain sv])
    fix sv' st out
    assume w: "writeToClient net mem eagain sv c = Some (sv', st, out)"
      and live: "\<And>c'. st = Live c' \<Longrightarrow> out @ pending c' = pending c \<and> sendable c' \<and>
        unsent (c'\<lparr>cl_lastinteraction := cl_lastinteraction c\<rparr>) = unsent c \<and>
        (pending c' = [] \<longrightarrow> \<not> has_flag c' CLIENT_CLOSE_AFTER_REPLY)"
      and freed: "st = Freed \<Longrightarrow> (\<exists>rest. out @ rest = pending c \<and>
        (rest = [] \<and> has_flag c CLIENT_CLOSE_AFTER_REPLY \<or> \<not> eagain \<and> (\<exists>i n. 0 < n \<and> net i n = - 1)))"
    show ?thesis
    proof (cases st)
      case (Live c')
      then show ?thesis using w live [OF Live] by simp
    next
      case Freed
      then show ?thesis using w freed [OF Freed] by simp
    qed
  qed
qed

theorem writeToClient_delivers_witness:
  "\<exists>sv' st out. writeToClient (\<lambda>i n. int (min 1 n)) (\<lambda>i. 0) True demo_server demo_busy = Some (sv', st, out) \<and>
    (case st of
       Live c' \<Rightarrow> out @ pending c' = ''hello'' \<and> sendable c' \<and> (pending c' = [] \<longrightarrow> \<not> has_flag c' CLIENT_CLOSE_AFTER_REPLY)
     | Freed \<Rightarrow> (\<exists>rest. out @ rest = ''hello'' \<and>
         (rest = [] \<and> has_flag demo_busy CLIENT_CLOSE_AFTER_REPLY \<or> \<not> True \<and> (\<exists>(i :: nat) n. 0 < n \<and> int (min 1 n) = - 1))))"
  by (rule writeToClient_delivers [of "\<lambda>i n. int (min 1 n)" demo_busy "\<lambda>i. 0" True demo_server, unfolded demo_busy_pending(2),
        OF _ demo_busy_pending(1)]) (simp add: kernel_def)

text \<open>The write handler runs whenever the socket is writable; \<open>net j\<close> and \<open>mem j\<close> describe the \<open>j\<close>-th run.\<close>

fun write_events ::
  "(nat \<Rightarrow> nat \<Rightarrow> nat \<Rightarrow> int) \<Rightarrow> (nat \<Rightarrow> nat \<Rightarrow> nat) \<Rightarrow> redisServer \<Rightarrow> nat \<Rightarrow> client_state \<Rightarrow>
     (client_state \<times> string) option" where
  "write_events net mem sv 0 st = Some (st, [])"
| "write_events net mem sv (Suc j) Freed = Some (Freed, [])"
| "write_events net mem sv (Suc j) (Live c) =
     do { (sv, st, out) \<leftarrow> writeToClient (net j) (mem j) True sv c;
          (st, out') \<leftarrow> write_events net mem sv j st;
          Some (st, out @ out') }"

lemma write_events_idle:
  assumes "\<And>j. kernel (net j)" and "sendable c" and "pending c = []"
  shows "\<exists>st. write_events net mem sv n (Live c) = Some (st, []) \<and> (\<forall>c'. st = Live c' \<longrightarrow> pending c' = [])"
  using assms(2,3)
proof (induction n arbitrary: sv c)
  case (Suc n)
  show ?case
  proof (rule writeToClient_correct [OF assms(1) Suc.prems(1), of n "mem n" True sv])
    fix sv' st out
    assume w: "writeToClient (net n) (mem n) True sv c = Some (sv', st, out)"
      and live: "\<And>c'. st = Live c' \<Longrightarrow> out @ pending c' = pending c \<and> sendable c' \<and>
        unsent (c'\<lparr>cl_lastinteraction := cl_lastinteraction c\<rparr>) = unsent c \<and>
        (pending c' = [] \<longrightarrow> \<not> has_flag c' CLIENT_CLOSE_AFTER_REPLY)"
      and freed: "st = Freed \<Longrightarrow> (\<exists>rest. out @ rest = pending c \<and>
        (rest = [] \<and> has_flag c CLIENT_CLOSE_AFTER_REPLY \<or> \<not> True \<and> (\<exists>i na. 0 < na \<and> net n i na = - 1)))"
    show ?thesis
    proof (cases st)
      case (Live c')
      then have "out = []" "pending c' = []" "sendable c'" using live [OF Live] Suc.prems(2) by simp_all
      then show ?thesis using Suc.IH [of c' sv'] w Live by auto
    next
      case Freed
      then have "out = []" using freed [OF Freed] Suc.prems(2) by simp
      then show ?thesis using w Freed by (cases n) auto
    qed
  qed
qed simp

lemma write_events_flush:
  assumes net: "\<And>j. kernel (net j)" and acc: "\<And>j i n. 0 < n \<Longrightarrow> 0 < net j i n"
    and "sendable c" and "length (pending c) \<le> n"
  shows "\<exists>st. write_events net mem sv n (Live c) = Some (st, pending c) \<and> (\<forall>c'. st = Live c' \<longrightarrow> pending c' = [])"
  using assms(3,4)
proof (induction n arbitrary: sv c)
  case (Suc n)
  show ?case
  proof (cases "pending c = []")
    case True
    then show ?thesis using write_events_idle [OF net Suc.prems(1), of "\<lambda>j. j" mem sv "Suc n"] by (simp del: write_events.simps)
  next
    case False
    show ?thesis
    proof (rule writeToClient_correct [OF net Suc.prems(1), of n "mem n" True sv])
      fix sv' st out
      assume w: "writeToClient (net n) (mem n) True sv c = Some (sv', st, out)"
        and live: "\<And>c'. st = Live c' \<Longrightarrow> out @ pending c' = pending c \<and> sendable c' \<and>
          unsent (c'\<lparr>cl_lastinteraction := cl_lastinteraction c\<rparr>) = unsent c \<and>
          (pending c' = [] \<longrightarrow> \<not> has_flag c' CLIENT_CLOSE_AFTER_REPLY)"
        and freed: "st = Freed \<Longrightarrow> (\<exists>rest. out @ rest = pending c \<and>
          (rest = [] \<and> has_flag c CLIENT_CLOSE_AFTER_REPLY \<or> \<not> True \<and> (\<exists>i na. 0 < na \<and> net n i na = - 1)))"
        and "\<forall>i na. 0 < na \<longrightarrow> 0 < net n i na \<Longrightarrow> NET_MAX_WRITES_PER_EVENT < length out \<or> out = pending c"
      then have ne: "out \<noteq> []" using acc False by auto
      show ?thesis
      proof (cases st)
        case (Live c')
        then have o: "out @ pending c' = pending c" "sendable c'" using live [OF Live] by simp_all
        then have "length (pending c') \<le> n" using ne Suc.prems(2) by (cases out) (auto simp flip: o(1))
        from Suc.IH [OF o(2) this, of sv'] show ?thesis using w Live o(1) by auto
      next
        case Freed
        then have "out = pending c" using freed [OF Freed] by simp
        then show ?thesis using w Freed by (cases n) auto
      qed
    qed
  qed
qed simp

text \<open>C18: If the socket accepts at least one byte whenever it is offered some, the whole queue is delivered,
  however small the pieces: after as many write events as there are pending bytes all of them were sent, in
  order, and nothing is pending any more.\<close>

theorem output_is_flushed:
  assumes "\<And>j. kernel (net j)" and "\<And>j i n. 0 < n \<Longrightarrow> 0 < net j i n" and "sendable c"
  shows "\<exists>st. write_events net mem sv (length (pending c)) (Live c) = Some (st, pending c) \<and>
    (\<forall>c'. st = Live c' \<longrightarrow> pending c' = [])"
  using write_events_flush [OF assms order.refl] .

theorem output_is_flushed_witness:
  "\<exists>st. write_events (\<lambda>j i n. int (min 1 n)) (\<lambda>j i. 0) demo_server 5 (Live demo_busy) = Some (st, ''hello'') \<and>
    (\<forall>c'. st = Live c' \<longrightarrow> pending c' = [])"
proof -
  have five: "length ''hello'' = 5" by simp
  show ?thesis
    using output_is_flushed [of "\<lambda>j i n. int (min 1 n)" demo_busy "\<lambda>j i. 0" demo_server, OF _ _ demo_busy_pending(1),
        unfolded demo_busy_pending(2) five] by (simp add: kernel_def)
qed

end
