(* ===== verification/Client_Input.thy ===== *)
theory Client_Input
  imports Client_Output
begin

text \<open>
  Requests of \<open>networking.c\<close>: bytes from the socket are appended to the query buffer, and commands
  are cut from it in the inline or in the RESP format. \<open>processCommand\<close> and the data set are
  parameters: \<open>run w sv c\<close> executes the command in \<open>argv\<close> in the world \<open>w\<close> and returns the new world,
  server and client and whether the result was \<open>C_OK\<close>; a client that was released is \<open>Freed\<close>. \<open>feed\<close>
  is \<open>replicationFeedSlavesFromMasterStream\<close>. Log messages are left out.
\<close>

section \<open>Searching\<close>

text \<open>\<open>strchr\<close> reads up to the character or to the first NUL.\<close>

function strchr :: "string \<Rightarrow> nat \<Rightarrow> char \<Rightarrow> nat option option" where
  "strchr buf p ch =
     (if \<not> p < length buf then None
      else if buf ! p = ch then Some (Some p)
      else if buf ! p = CHR 0x00 then Some None
      else strchr buf (p + 1) ch)"
  by pat_completeness auto
termination by (relation "measure (\<lambda>(buf, p, ch). length buf - p)") auto

declare strchr.simps [simp del]

section \<open>One request\<close>

definition freeClientArgv :: "client \<Rightarrow> client" where
  "freeClientArgv c = c\<lparr>cl_argv := [], cl_cmd := None\<rparr>"

definition resetClient :: "client \<Rightarrow> client" where
  "resetClient c =
     (let prevcmd = cl_cmd c;
          c = freeClientArgv c;
          c = c\<lparr>cl_reqtype := 0, cl_multibulklen := 0, cl_bulklen := - 1\<rparr>;
          c = (if \<not> has_flag c CLIENT_MULTI \<and> prevcmd \<noteq> Some ''asking'' then clear_flag c CLIENT_ASKING else c);
          c = clear_flag c CLIENT_REPLY_SKIP
      in if has_flag c CLIENT_REPLY_SKIP_NEXT
         then clear_flag (set_flag c CLIENT_REPLY_SKIP) CLIENT_REPLY_SKIP_NEXT
         else c)"

definition setProtocolError :: "client \<Rightarrow> client" where
  "setProtocolError c = set_flag c CLIENT_CLOSE_AFTER_REPLY"

text \<open>The error reply and the mark that every protocol error leaves.\<close>

definition protocol_error ::
  "(nat \<Rightarrow> nat) \<Rightarrow> (nat \<Rightarrow> char) \<Rightarrow> redisServer \<Rightarrow> client \<Rightarrow> string \<Rightarrow> (redisServer \<times> client) option" where
  "protocol_error usable fill sv c err =
     do { (sv, c) \<leftarrow> addReplyError usable fill sv c err; Some (sv, setProtocolError c) }"

definition unparsed_len :: "client \<Rightarrow> nat" where
  "unparsed_len c = sdslen (cl_querybuf c) - cl_qb_pos c"

definition processInlineBuffer ::
  "(nat \<Rightarrow> nat) \<Rightarrow> (nat \<Rightarrow> char) \<Rightarrow> redisServer \<Rightarrow> client \<Rightarrow> (redisServer \<times> client \<times> bool) option" where
  "processInlineBuffer usable fill sv c =
     (let buf = sds_buf (cl_querybuf c); pos = cl_qb_pos c
      in do {
        newline \<leftarrow> strchr buf pos (CHR 0x0A);
        case newline of
          None \<Rightarrow>
            if unparsed_len c > PROTO_INLINE_MAX_SIZE
            then do { (sv, c) \<leftarrow> protocol_error usable fill sv c ''Protocol error: too big inline request''; Some (sv, c, False) }
            else Some (sv, c, False)
        | Some newline \<Rightarrow>
            (let cr = (newline \<noteq> pos \<and> buf ! (newline - 1) = CHR 0x0D);
                 linefeed_chars = (if cr then 2 else 1);
                 newline = (if cr then newline - 1 else newline);
                 querylen = newline - pos
             in do {
               aux \<leftarrow> mem_read buf pos querylen;
               argv \<leftarrow> sdssplitargs aux;
               case argv of
                 None \<Rightarrow>
                   do { (sv, c) \<leftarrow> protocol_error usable fill sv c ''Protocol error: unbalanced quotes in request'';
                        Some (sv, c, False) }
               | Some argv \<Rightarrow>
                   (let c = (if querylen = 0 \<and> has_flag c CLIENT_SLAVE then c\<lparr>cl_repl_ack_time := sv_unixtime sv\<rparr> else c);
                        c = c\<lparr>cl_qb_pos := pos + querylen + linefeed_chars\<rparr>;
                        c = (if argv \<noteq> [] then c\<lparr>cl_argv_cap := length argv\<rparr> else c);
                        args = filter (\<lambda>a. length a \<noteq> 0) argv
                    in Some (sv, c\<lparr>cl_argv := args\<rparr>, True)) }) })"

text \<open>The header \<open>*<count>\<close> of a multi bulk request: an error or too few bytes (\<open>False\<close>), a count that is
  not positive (\<open>True\<close> and \<open>multibulklen\<close> 0), or the count and room for the arguments.\<close>

definition mb_header ::
  "(nat \<Rightarrow> nat) \<Rightarrow> (nat \<Rightarrow> char) \<Rightarrow> redisServer \<Rightarrow> client \<Rightarrow> (redisServer \<times> client \<times> bool) option" where
  "mb_header usable fill sv c =
     (let buf = sds_buf (cl_querybuf c); pos = cl_qb_pos c
      in if cl_argv c \<noteq> [] then None
         else do {
           newline \<leftarrow> strchr buf pos (CHR 0x0D);
           case newline of
             None \<Rightarrow>
               if unparsed_len c > PROTO_INLINE_MAX_SIZE
               then do { (sv, c) \<leftarrow> protocol_error usable fill sv c ''Protocol error: too big mbulk count string''; Some (sv, c, False) }
               else Some (sv, c, False)
           | Some newline \<Rightarrow>
               if int (newline - pos) > int (unparsed_len c) - 2 then Some (sv, c, False)
               else if buf ! pos \<noteq> CHR ''*'' then None
               else do {
                 s \<leftarrow> mem_read buf (pos + 1) (newline - (pos + 1));
                 case string2ll s of
                   None \<Rightarrow>
                     do { (sv, c) \<leftarrow> protocol_error usable fill sv c ''Protocol error: invalid multibulk length'';
                          Some (sv, c, False) }
                 | Some ll \<Rightarrow>
                     if ll > 1024 * 1024
                     then do { (sv, c) \<leftarrow> protocol_error usable fill sv c ''Protocol error: invalid multibulk length'';
                               Some (sv, c, False) }
                     else
                       (let c = c\<lparr>cl_qb_pos := newline + 2\<rparr>
                        in if ll \<le> 0 then Some (sv, c, True)
                           else Some (sv, c\<lparr>cl_multibulklen := nat ll, cl_argv_cap := nat ll\<rparr>, True)) } })"

datatype mb_step = Mb_Go | Mb_Break | Mb_Err

text \<open>The length \<open>$<bytes>\<close> of the next argument, if it is not known yet.\<close>

definition mb_bulklen ::
  "(nat \<Rightarrow> nat) \<Rightarrow> (nat \<Rightarrow> char) \<Rightarrow> redisServer \<Rightarrow> client \<Rightarrow> (redisServer \<times> client \<times> mb_step) option" where
  "mb_bulklen usable fill sv c =
     (let buf = sds_buf (cl_querybuf c); pos = cl_qb_pos c
      in if cl_bulklen c \<noteq> - 1 then Some (sv, c, Mb_Go)
         else do {
           newline \<leftarrow> strchr buf pos (CHR 0x0D);
           case newline of
             None \<Rightarrow>
               if unparsed_len c > PROTO_INLINE_MAX_SIZE
               then do { (sv, c) \<leftarrow> protocol_error usable fill sv c ''Protocol error: too big bulk count string''; Some (sv, c, Mb_Err) }
               else Some (sv, c, Mb_Break)
           | Some newline \<Rightarrow>
               if int (newline - pos) > int (unparsed_len c) - 2 then Some (sv, c, Mb_Break)
               else if buf ! pos \<noteq> CHR ''$''
               then do { (sv, c) \<leftarrow> addReplyErrorFormat usable fill sv c (''Protocol error: expected '' @ [CHR 0x27] @ ''$'' @ [CHR 0x27] @ '', got '' @ [CHR 0x27, buf ! pos, CHR 0x27]);
                         Some (sv, setProtocolError c, Mb_Err) }
               else do {
                 s \<leftarrow> mem_read buf (pos + 1) (newline - (pos + 1));
                 case string2ll s of
                   None \<Rightarrow> do { (sv, c) \<leftarrow> protocol_error usable fill sv c ''Protocol error: invalid bulk length''; Some (sv, c, Mb_Err) }
                 | Some ll \<Rightarrow>
                     if ll < 0 \<or> ll > sv_proto_max_bulk_len sv
                     then do { (sv, c) \<leftarrow> protocol_error usable fill sv c ''Protocol error: invalid bulk length''; Some (sv, c, Mb_Err) }
                     else do {
                       let c = c\<lparr>cl_qb_pos := newline + 2\<rparr>;
                       c \<leftarrow> (if ll \<ge> int PROTO_MBULK_BIG_ARG \<and> unparsed_len c \<le> nat ll + 2
                             then do { q \<leftarrow> sdsrange (cl_querybuf c) (int (cl_qb_pos c)) (- 1);
                                       q \<leftarrow> sdsMakeRoomFor fill q (nat ll + 2);
                                       Some (c\<lparr>cl_querybuf := q, cl_qb_pos := 0\<rparr>) }
                             else Some c);
                       Some (sv, c\<lparr>cl_bulklen := ll\<rparr>, Mb_Go) } } })"

text \<open>The argument itself. A long one that fills the buffer exactly takes the buffer over.\<close>

definition push_arg :: "client \<Rightarrow> string \<Rightarrow> client option" where
  "push_arg c a = (if length (cl_argv c) < cl_argv_cap c then Some (c\<lparr>cl_argv := cl_argv c @ [a]\<rparr>) else None)"

definition mb_argument :: "(nat \<Rightarrow> char) \<Rightarrow> client \<Rightarrow> (client \<times> bool) option" where
  "mb_argument fill c =
     (let len = nat (cl_bulklen c)
      in if unparsed_len c < len + 2 then Some (c, False)
         else do {
           c \<leftarrow> (if cl_qb_pos c = 0 \<and> len \<ge> PROTO_MBULK_BIG_ARG \<and> sdslen (cl_querybuf c) = len + 2
                 then do { q \<leftarrow> sdsIncrLen (cl_querybuf c) (- 2);
                           c \<leftarrow> push_arg c (contents q);
                           q \<leftarrow> sdsnewlen fill SDS_NOINIT (len + 2);
                           q \<leftarrow> sdsclear q;
                           Some (c\<lparr>cl_querybuf := q\<rparr>) }
                 else do { a \<leftarrow> mem_read (sds_buf (cl_querybuf c)) (cl_qb_pos c) len;
                           c \<leftarrow> push_arg c a;
                           Some (c\<lparr>cl_qb_pos := cl_qb_pos c + len + 2\<rparr>) });
           Some (c\<lparr>cl_bulklen := - 1, cl_multibulklen := cl_multibulklen c - 1\<rparr>, True) })"

text \<open>The loop over the arguments; \<open>n\<close> is \<open>multibulklen\<close>.\<close>

primrec mb_loop ::
  "(nat \<Rightarrow> nat) \<Rightarrow> (nat \<Rightarrow> char) \<Rightarrow> nat \<Rightarrow> redisServer \<Rightarrow> client \<Rightarrow> (redisServer \<times> client \<times> bool) option" where
  "mb_loop usable fill 0 sv c = Some (sv, c, True)"
| "mb_loop usable fill (Suc n) sv c =
     do { (sv, c, st) \<leftarrow> mb_bulklen usable fill sv c;
          case st of
            Mb_Err \<Rightarrow> Some (sv, c, False)
          | Mb_Break \<Rightarrow> Some (sv, c, False)
          | Mb_Go \<Rightarrow>
              do { (c, go) \<leftarrow> mb_argument fill c;
                   if go then mb_loop usable fill n sv c else Some (sv, c, False) } }"

definition processMultibulkBuffer ::
  "(nat \<Rightarrow> nat) \<Rightarrow> (nat \<Rightarrow> char) \<Rightarrow> redisServer \<Rightarrow> client \<Rightarrow> (redisServer \<times> client \<times> bool) option" where
  "processMultibulkBuffer usable fill sv c =
     (if cl_multibulklen c = 0 then
        do { (sv, c, ok) \<leftarrow> mb_header usable fill sv c;
             if ok \<and> cl_multibulklen c > 0 then mb_loop usable fill (cl_multibulklen c) sv c else Some (sv, c, ok) }
      else mb_loop usable fill (cl_multibulklen c) sv c)"

section \<open>The query buffer\<close>

definition parse_request ::
  "(nat \<Rightarrow> nat) \<Rightarrow> (nat \<Rightarrow> char) \<Rightarrow> redisServer \<Rightarrow> client \<Rightarrow> (redisServer \<times> client \<times> bool) option" where
  "parse_request usable fill sv c =
     (let c = (if cl_reqtype c = 0
               then (if sds_buf (cl_querybuf c) ! cl_qb_pos c = CHR ''*'' then c\<lparr>cl_reqtype := PROTO_REQ_MULTIBULK\<rparr>
                     else c\<lparr>cl_reqtype := PROTO_REQ_INLINE\<rparr>)
               else c)
      in if cl_reqtype c = PROTO_REQ_INLINE then processInlineBuffer usable fill sv c
         else if cl_reqtype c = PROTO_REQ_MULTIBULK then processMultibulkBuffer usable fill sv c
         else None)"

text \<open>The conditions under which the loop stops before a request is parsed.\<close>

definition input_stopped :: "redisServer \<Rightarrow> client \<Rightarrow> bool" where
  "input_stopped sv c \<longleftrightarrow>
     \<not> cl_qb_pos c < sdslen (cl_querybuf c) \<or>
     \<not> has_flag c CLIENT_SLAVE \<and> sv_clients_paused sv \<or>
     has_flag c CLIENT_BLOCKED \<or>
     sv_lua_timedout sv \<and> has_flag c CLIENT_MASTER \<or>
     has_flag c (CLIENT_CLOSE_AFTER_REPLY OR CLIENT_CLOSE_ASAP)"

text \<open>What happens to the client after its command was executed. A released client must not be looked at: the loop
  below has no result when the command released its client and returned \<open>C_OK\<close>.\<close>

definition after_command :: "client \<Rightarrow> client" where
  "after_command c =
     (let c = (if has_flag c CLIENT_MASTER \<and> \<not> has_flag c CLIENT_MULTI
               then c\<lparr>cl_reploff := s64 (cl_read_reploff c - int (sdslen (cl_querybuf c)) + int (cl_qb_pos c))\<rparr> else c)
      in if \<not> has_flag c CLIENT_BLOCKED \<or> cl_btype c \<noteq> BLOCKED_MODULE then resetClient c else c)"

type_synonym 'w run = "'w \<Rightarrow> redisServer \<Rightarrow> client \<Rightarrow> 'w \<times> redisServer \<times> client_state \<times> bool"

partial_function (option) input_loop ::
  "(nat \<Rightarrow> nat) \<Rightarrow> (nat \<Rightarrow> char) \<Rightarrow> 'w run \<Rightarrow> 'w \<Rightarrow> redisServer \<Rightarrow> client \<Rightarrow> ('w \<times> redisServer \<times> client_state) option" where
  "input_loop usable fill run w sv c =
     (if input_stopped sv c then Some (w, sv, Live c)
      else do {
        (sv, c, ok) \<leftarrow> parse_request usable fill sv c;
        if \<not> ok then Some (w, sv, Live c)
        else if cl_argv c = [] then input_loop usable fill run w sv (resetClient c)
        else
          (case run w sv c of
             (w, sv, Freed, ok) \<Rightarrow> if ok then None else Some (w, sv, Freed)
           | (w, sv, Live c, ok) \<Rightarrow> input_loop usable fill run w sv (if ok then after_command c else c)) })"

text \<open>After the loop the buffer is trimmed, which reads the client even when it was released.\<close>

definition processInputBuffer ::
  "(nat \<Rightarrow> nat) \<Rightarrow> (nat \<Rightarrow> char) \<Rightarrow> 'w run \<Rightarrow> 'w \<Rightarrow> redisServer \<Rightarrow> client \<Rightarrow> ('w \<times> redisServer \<times> client) option" where
  "processInputBuffer usable fill run w sv c =
     do { (w, sv, st) \<leftarrow> input_loop usable fill run w sv c;
          case st of
            Freed \<Rightarrow> None
          | Live c \<Rightarrow>
              if cl_qb_pos c \<noteq> 0
              then do { q \<leftarrow> sdsrange (cl_querybuf c) (int (cl_qb_pos c)) (- 1);
                        Some (w, sv, c\<lparr>cl_querybuf := q, cl_qb_pos := 0\<rparr>) }
              else Some (w, sv, c) }"

definition processInputBufferAndReplicate ::
  "(nat \<Rightarrow> nat) \<Rightarrow> (nat \<Rightarrow> char) \<Rightarrow> 'w run \<Rightarrow> ('w \<Rightarrow> string \<Rightarrow> 'w) \<Rightarrow> 'w \<Rightarrow> redisServer \<Rightarrow> client \<Rightarrow>
     ('w \<times> redisServer \<times> client) option" where
  "processInputBufferAndReplicate usable fill run feed w sv c =
     (if \<not> has_flag c CLIENT_MASTER then processInputBuffer usable fill run w sv c
      else do {
        let prev_offset = cl_reploff c;
        (w, sv, c) \<leftarrow> processInputBuffer usable fill run w sv c;
        let applied = nat ((cl_reploff c - prev_offset) mod 2 ^ 64);
        if applied \<noteq> 0 then do {
          bs \<leftarrow> mem_read (sds_buf (cl_pending_querybuf c)) 0 applied;
          p \<leftarrow> sdsrange (cl_pending_querybuf c) (s64 (int applied)) (- 1);
          Some (feed w bs, sv, c\<lparr>cl_pending_querybuf := p\<rparr>) }
        else Some (w, sv, c) })"

text \<open>The result of \<open>read(2)\<close> as a function of the number of bytes asked for.\<close>

datatype read_result = Read_EAGAIN | Read_Error | Read_EOF | Read_Data string

definition query_readlen :: "client \<Rightarrow> nat" where
  "query_readlen c =
     (let remaining = cl_bulklen c + 2 - int (sdslen (cl_querybuf c))
      in if cl_reqtype c = PROTO_REQ_MULTIBULK \<and> cl_multibulklen c \<noteq> 0 \<and> cl_bulklen c \<noteq> - 1 \<and>
            cl_bulklen c \<ge> int PROTO_MBULK_BIG_ARG \<and> remaining > 0 \<and> remaining < int PROTO_IOBUF_LEN
         then nat remaining else PROTO_IOBUF_LEN)"

definition readQueryFromClient ::
  "(nat \<Rightarrow> nat) \<Rightarrow> (nat \<Rightarrow> char) \<Rightarrow> 'w run \<Rightarrow> ('w \<Rightarrow> string \<Rightarrow> 'w) \<Rightarrow> (nat \<Rightarrow> read_result) \<Rightarrow> 'w \<Rightarrow> redisServer \<Rightarrow> client \<Rightarrow>
     ('w \<times> redisServer \<times> client_state) option" where
  "readQueryFromClient usable fill run feed read w sv c =
     (let readlen = query_readlen c;
          qblen = sdslen (cl_querybuf c);
          c = (if cl_querybuf_peak c < qblen then c\<lparr>cl_querybuf_peak := qblen\<rparr> else c)
      in do {
        q \<leftarrow> sdsMakeRoomFor fill (cl_querybuf c) readlen;
        let c = c\<lparr>cl_querybuf := q\<rparr>;
        case read readlen of
          Read_EAGAIN \<Rightarrow> Some (w, sv, Live c)
        | Read_Error \<Rightarrow> Some (w, sv, Freed)
        | Read_EOF \<Rightarrow> Some (w, sv, Freed)
        | Read_Data bs \<Rightarrow>
            do { b \<leftarrow> mem_write (sds_buf q) qblen bs;
                 let q = q\<lparr>sds_buf := b\<rparr>;
                 c \<leftarrow> (if has_flag c CLIENT_MASTER
                       then do { p \<leftarrow> sdscatlen fill (cl_pending_querybuf c) bs (length bs);
                                 Some (c\<lparr>cl_pending_querybuf := p\<rparr>) }
                       else Some c);
                 q \<leftarrow> sdsIncrLen q (int (length bs));
                 let c = c\<lparr>cl_querybuf := q, cl_lastinteraction := sv_unixtime sv\<rparr>;
                 let c = (if has_flag c CLIENT_MASTER then c\<lparr>cl_read_reploff := s64 (cl_read_reploff c + int (length bs))\<rparr> else c);
                 let sv = sv\<lparr>sv_stat_net_input_bytes := sv_stat_net_input_bytes sv + int (length bs)\<rparr>;
                 if sdslen q > sv_client_max_querybuf_len sv then Some (w, sv, Freed)
                 else do {
                   (w, sv, c) \<leftarrow> processInputBufferAndReplicate usable fill run feed w sv c;
                   Some (w, sv, Live c) } } })"

section \<open>The unparsed part of the buffer\<close>

definition unparsed :: "client \<Rightarrow> string" where
  "unparsed c = drop (cl_qb_pos c) (contents (cl_querybuf c))"

definition qb_ok :: "client \<Rightarrow> bool" where
  "qb_ok c \<longleftrightarrow> sds_inv (cl_querybuf c) \<and> cl_qb_pos c \<le> sdslen (cl_querybuf c) \<and> sdslen (cl_querybuf c) < 2 ^ 61"

lemma sds_buf_split:
  assumes "sds_inv q"
  obtains t where "sds_buf q = contents q @ CHR 0x00 # t"
proof -
  have "sdslen q < length (sds_buf q)" using assms sds_wf_len by (simp add: sds_inv_def)
  then have "sds_buf q = take (sdslen q) (sds_buf q) @ sds_buf q ! sdslen q # drop (Suc (sdslen q)) (sds_buf q)"
    by (rule id_take_nth_drop)
  then show ?thesis using that assms by (simp add: contents_def sds_inv_def)
qed

lemma qb_ok_len:
  assumes "qb_ok c"
  shows "length (contents (cl_querybuf c)) = sdslen (cl_querybuf c)" and "length (unparsed c) = unparsed_len c"
    and "unparsed_len c = sdslen (cl_querybuf c) - cl_qb_pos c"
  using assms length_contents by (simp_all add: qb_ok_def sds_inv_def unparsed_def unparsed_len_def)

lemma qb_split:
  assumes "qb_ok c"
  obtains pre t where "sds_buf (cl_querybuf c) = pre @ unparsed c @ CHR 0x00 # t" and "length pre = cl_qb_pos c"
    and "contents (cl_querybuf c) = pre @ unparsed c"
proof -
  obtain t where t: "sds_buf (cl_querybuf c) = contents (cl_querybuf c) @ CHR 0x00 # t"
    using sds_buf_split assms by (auto simp: qb_ok_def)
  have "contents (cl_querybuf c) = take (cl_qb_pos c) (contents (cl_querybuf c)) @ unparsed c" by (simp add: unparsed_def)
  moreover have "length (take (cl_qb_pos c) (contents (cl_querybuf c))) = cl_qb_pos c"
    using assms qb_ok_len(1) [OF assms] by (simp add: qb_ok_def)
  ultimately show ?thesis using that t by (metis append.assoc)
qed

lemma strchr_stop:
  assumes "p = length pre" and "x = ch \<or> x = CHR 0x00"
  shows "strchr (pre @ x # post) p ch = Some (if x = ch then Some p else None)"
  using assms by (subst strchr.simps) auto

lemma strchr_skip:
  assumes "\<forall>x \<in> set xs. x \<noteq> ch \<and> x \<noteq> CHR 0x00"
  shows "strchr (pre @ xs @ post) (length pre) ch = strchr (pre @ xs @ post) (length pre + length xs) ch"
  using assms
proof (induction xs arbitrary: pre)
  case (Cons x xs)
  have "strchr (pre @ (x # xs) @ post) (length pre) ch = strchr (pre @ (x # xs) @ post) (length pre + 1) ch"
    using Cons.prems by (subst strchr.simps) simp
  also have "\<dots> = strchr ((pre @ [x]) @ xs @ post) (length (pre @ [x])) ch" by simp
  also have "\<dots> = strchr ((pre @ [x]) @ xs @ post) (length (pre @ [x]) + length xs) ch"
    using Cons.prems by (intro Cons.IH) simp
  finally show ?case by simp
qed simp

lemma strchr_found:
  assumes "\<forall>x \<in> set xs. x \<noteq> ch \<and> x \<noteq> CHR 0x00" and "p = length pre"
  shows "strchr (pre @ xs @ ch # post) p ch = Some (Some (length pre + length xs))"
  using strchr_skip [OF assms(1), of pre "ch # post"] strchr_stop [of _ "pre @ xs" ch ch post] assms(2) by simp

lemma strchr_nul:
  assumes "\<forall>x \<in> set xs. x \<noteq> ch \<and> x \<noteq> CHR 0x00" and "p = length pre" and "ch \<noteq> CHR 0x00"
  shows "strchr (pre @ xs @ CHR 0x00 # post) p ch = Some None"
  using strchr_skip [OF assms(1), of pre "CHR 0x00 # post"] strchr_stop [of _ "pre @ xs" "CHR 0x00" ch post] assms(2,3) by simp

text \<open>On a string in the buffer the search ends at its terminator.\<close>

lemma strchr_buffer:
  assumes "ch \<noteq> CHR 0x00" and "p = length pre"
  shows "strchr (pre @ u @ CHR 0x00 # t) p ch = Some None \<or>
    (\<exists>n. strchr (pre @ u @ CHR 0x00 # t) p ch = Some (Some n) \<and> p \<le> n \<and> n < p + length u \<and> u ! (n - p) = ch)"
proof -
  define xs where "xs = takeWhile (\<lambda>x. x \<noteq> ch \<and> x \<noteq> CHR 0x00) u"
  define ys where "ys = dropWhile (\<lambda>x. x \<noteq> ch \<and> x \<noteq> CHR 0x00) u"
  have u: "u = xs @ ys" by (simp add: xs_def ys_def)
  have xs: "\<forall>x \<in> set xs. x \<noteq> ch \<and> x \<noteq> CHR 0x00" unfolding xs_def by (auto dest: set_takeWhileD)
  show ?thesis
  proof (cases ys)
    case Nil
    then show ?thesis using strchr_nul [OF xs assms(2,1)] u by simp
  next
    case (Cons y zs)
    then have y: "y = ch \<or> y = CHR 0x00" using hd_dropWhile [of "\<lambda>x. x \<noteq> ch \<and> x \<noteq> CHR 0x00" u] by (auto simp: ys_def)
    have "strchr (pre @ u @ CHR 0x00 # t) p ch = Some (if y = ch then Some (p + length xs) else None)"
      using strchr_skip [OF xs, of pre "y # zs @ CHR 0x00 # t"] strchr_stop [of _ "pre @ xs" y ch "zs @ CHR 0x00 # t", OF _ y]
        u Cons assms(2) by simp
    then show ?thesis using u Cons by simp
  qed
qed

lemma qb_strchr:
  assumes "qb_ok c" and "ch \<noteq> CHR 0x00"
  obtains (none) "strchr (sds_buf (cl_querybuf c)) (cl_qb_pos c) ch = Some None"
  | (found) n where "strchr (sds_buf (cl_querybuf c)) (cl_qb_pos c) ch = Some (Some (cl_qb_pos c + n))"
      and "n < unparsed_len c" and "unparsed c ! n = ch"
proof -
  obtain pre t where s: "sds_buf (cl_querybuf c) = pre @ unparsed c @ CHR 0x00 # t" "length pre = cl_qb_pos c"
    using qb_split [OF assms(1)] by blast
  from strchr_buffer [OF assms(2) s(2) [symmetric], of "unparsed c" t] show ?thesis
  proof (elim disjE exE conjE)
    assume "strchr (pre @ unparsed c @ CHR 0x00 # t) (cl_qb_pos c) ch = Some None"
    then show ?thesis using none s(1) by simp
  next
    fix n assume "strchr (pre @ unparsed c @ CHR 0x00 # t) (cl_qb_pos c) ch = Some (Some n)"
      "cl_qb_pos c \<le> n" "n < cl_qb_pos c + length (unparsed c)" "unparsed c ! (n - cl_qb_pos c) = ch"
    then show ?thesis using found [of "n - cl_qb_pos c"] s(1) qb_ok_len(2) [OF assms(1)] by simp
  qed
qed

lemma qb_read:
  assumes "qb_ok c" and "off + n \<le> unparsed_len c"
  shows "mem_read (sds_buf (cl_querybuf c)) (cl_qb_pos c + off) n = Some (take n (drop off (unparsed c)))"
proof -
  obtain pre t where s: "sds_buf (cl_querybuf c) = pre @ unparsed c @ CHR 0x00 # t" "length pre = cl_qb_pos c"
    using qb_split [OF assms(1)] by blast
  have "off + n \<le> length (unparsed c)" using assms qb_ok_len(2) by simp
  then show ?thesis by (simp add: mem_read_def s(1) s(2) [symmetric])
qed

lemma qb_char:
  assumes "qb_ok c" and "n < unparsed_len c"
  shows "sds_buf (cl_querybuf c) ! (cl_qb_pos c + n) = unparsed c ! n"
proof -
  obtain pre t where s: "sds_buf (cl_querybuf c) = pre @ unparsed c @ CHR 0x00 # t" "length pre = cl_qb_pos c"
    using qb_split [OF assms(1)] by blast
  then show ?thesis using assms qb_ok_len(2) by (simp add: nth_append s(2) [symmetric])
qed

text \<open>Moving the position and trimming.\<close>

lemma qb_advance:
  assumes "qb_ok c" and "n \<le> unparsed_len c"
  shows "qb_ok (c\<lparr>cl_qb_pos := cl_qb_pos c + n\<rparr>)" and "unparsed (c\<lparr>cl_qb_pos := cl_qb_pos c + n\<rparr>) = drop n (unparsed c)"
  using assms by (auto simp: qb_ok_def unparsed_def unparsed_len_def add.commute)

lemma slice_tail: "slice xs (int n) (- 1) = drop n xs"
  by (auto simp: slice_def clamp_def Let_def)

lemma qb_trim:
  assumes "qb_ok c"
  obtains q where "sdsrange (cl_querybuf c) (int (cl_qb_pos c)) (- 1) = Some q"
    and "qb_ok (c\<lparr>cl_querybuf := q, cl_qb_pos := 0\<rparr>)" and "unparsed (c\<lparr>cl_querybuf := q, cl_qb_pos := 0\<rparr>) = unparsed c"
    and "sdslen q = unparsed_len c"
proof -
  have i: "sds_inv (cl_querybuf c)" "sdslen (cl_querybuf c) < 2 ^ 62" using assms by (simp_all add: qb_ok_def)
  obtain q where q: "sdsrange (cl_querybuf c) (int (cl_qb_pos c)) (- 1) = Some q" "sds_inv q"
    "contents q = slice (contents (cl_querybuf c)) (int (cl_qb_pos c)) (- 1)"
    using sdsrange_correct [OF i, of "- 1" "int (cl_qb_pos c)"] by (auto simp: LLONG_MAX_def)
  then have c: "contents q = unparsed c" by (simp add: slice_tail unparsed_def)
  moreover have l: "sdslen q = unparsed_len c" using length_contents [of q] q(2) c qb_ok_len(2) [OF assms] by (simp add: sds_inv_def)
  moreover have "unparsed_len c < 2 ^ 61" using assms unfolding qb_ok_def unparsed_len_def by linarith
  ultimately show ?thesis using that [of q] q(1,2) by (simp add: qb_ok_def unparsed_def)
qed

section \<open>What parsing leaves alone\<close>

text \<open>The input side of a client, and a client that differs only there.\<close>

definition inputs :: "client \<Rightarrow> sds \<times> nat \<times> string list \<times> nat \<times> nat \<times> nat \<times> int" where
  "inputs c = (cl_querybuf c, cl_qb_pos c, cl_argv c, cl_argv_cap c, cl_reqtype c, cl_multibulklen c, cl_bulklen c)"

definition same_rest :: "client \<Rightarrow> client \<Rightarrow> bool" where
  "same_rest c c' \<longleftrightarrow> c' = c\<lparr>cl_querybuf := cl_querybuf c', cl_qb_pos := cl_qb_pos c', cl_argv := cl_argv c',
     cl_argv_cap := cl_argv_cap c', cl_reqtype := cl_reqtype c', cl_multibulklen := cl_multibulklen c',
     cl_bulklen := cl_bulklen c', cl_repl_ack_time := cl_repl_ack_time c'\<rparr>"

lemma same_rest_refl: "same_rest c c"
  by (simp add: same_rest_def)

lemma same_rest_line:
  "c' = c\<lparr>cl_querybuf := q, cl_qb_pos := p, cl_bulklen := b\<rparr> \<Longrightarrow> same_rest c c'"
  by (simp add: same_rest_def)

lemma same_rest_arg:
  "c' = c\<lparr>cl_querybuf := q, cl_qb_pos := p, cl_bulklen := b, cl_multibulklen := m, cl_argv := a\<rparr> \<Longrightarrow> same_rest c c'"
  by (simp add: same_rest_def)

lemma same_rest_trans:
  assumes "same_rest a b" and "same_rest b c"
  shows "same_rest a c"
  using assms(2) unfolding same_rest_def by (subst (asm) assms(1) [unfolded same_rest_def]) simp

lemma same_rest_fields:
  assumes "same_rest c c'"
  shows "cl_flags c' = cl_flags c" and "has_flag c' f = has_flag c f" and "cl_reply c' = cl_reply c"
    and "cl_reply_bytes c' = cl_reply_bytes c" and "cl_buf c' = cl_buf c" and "cl_bufpos c' = cl_bufpos c"
    and "cl_sentlen c' = cl_sentlen c" and "cl_fd c' = cl_fd c" and "cl_btype c' = cl_btype c"
  unfolding has_flag_def by (subst assms [unfolded same_rest_def], simp)+

lemma same_rest_output:
  assumes "same_rest c c'"
  shows "out_inv c' = out_inv c" and "pending c' = pending c" and "ready cfg k sv c' = ready cfg k sv c"
    and "calm c' = calm c" and "may_queue c' = may_queue c"
proof -
  note f = same_rest_fields [OF assms]
  show o: "out_inv c' = out_inv c" "pending c' = pending c" using f by (simp_all add: out_inv_def pending_def outtext_def first_len_def)
  show "ready cfg k sv c' = ready cfg k sv c" "calm c' = calm c" "may_queue c' = may_queue c"
    using f o by (simp_all add: ready_def calm_def may_queue_def)
qed

text \<open>A request was refused: an error was queued and the client is to be closed.\<close>

definition refused :: "redisServer \<Rightarrow> nat \<Rightarrow> client \<Rightarrow> string \<Rightarrow> redisServer \<Rightarrow> client \<Rightarrow> bool" where
  "refused cfg k c err sv' c' \<longleftrightarrow> ready cfg k sv' c' \<and> inputs c' = inputs c \<and> has_flag c' CLIENT_CLOSE_AFTER_REPLY \<and>
     \<not> has_flag c' CLIENT_SLAVE \<and> has_flag c' CLIENT_MASTER = has_flag c CLIENT_MASTER \<and> pending c' = pending c @ (if may_queue c then error_line err else [])"

lemma close_after_reply:
  assumes "ready cfg k sv c" and "\<not> has_flag c CLIENT_SLAVE"
  shows "ready cfg k sv (setProtocolError c)" and "inputs (setProtocolError c) = inputs c"
    and "has_flag (setProtocolError c) CLIENT_CLOSE_AFTER_REPLY" and "\<not> has_flag (setProtocolError c) CLIENT_SLAVE"
    and "has_flag (setProtocolError c) CLIENT_MASTER = has_flag c CLIENT_MASTER" and "pending (setProtocolError c) = pending c"
proof -
  show "has_flag (setProtocolError c) CLIENT_CLOSE_AFTER_REPLY"
    unfolding setProtocolError_def by (rule has_set_same) (simp add: client_flag_defs)
  show "\<not> has_flag (setProtocolError c) CLIENT_SLAVE"
    unfolding setProtocolError_def using assms(2) by (subst has_set_other) (simp_all add: client_flag_defs)
  show "has_flag (setProtocolError c) CLIENT_MASTER = has_flag c CLIENT_MASTER"
    unfolding setProtocolError_def by (subst has_set_other) (simp_all add: client_flag_defs)
  have "first_len (c\<lparr>cl_flags := f\<rparr>) = first_len c" for f by (simp add: first_len_def)
  then show "ready cfg k sv (setProtocolError c)" using assms(1)
    by (simp add: setProtocolError_def set_flag_def ready_def out_inv_def)
qed (simp_all add: setProtocolError_def set_flag_def inputs_def pending_def outtext_def)

lemma bookkept_inputs:
  assumes "bookkept (outside c) (outside c')"
  shows "inputs c' = inputs c"
proof -
  have "inputs (outside c') = inputs (outside c)" using assms by (auto simp: bookkept_def inputs_def)
  then show ?thesis by (simp add: outside_def inputs_def)
qed

lemma protocol_error_correct:
  assumes al: "allocator usable" and ready: "ready cfg (k + 3) sv c" and calm: "calm c" and len: "length err < 2 ^ 30"
  obtains sv' c' where "protocol_error usable fill sv c err = Some (sv', c')" and "refused cfg k c err sv' c'"
proof -
  obtain sv' c' where r: "addReplyErrorLength usable fill sv c err = Some (sv', c')" "ready cfg k sv' c'"
    "appended 3 c ((if err \<noteq> [] \<and> hd err = CHR ''-'' then [] else ''-ERR '') @ err @ CRLF) c'"
    using queuesE [OF addReplyErrorLength_queues [OF al len] ready] calm by blast
  note a = appendedD [OF r(3)]
  have s: "\<not> has_flag c' CLIENT_SLAVE" using appended_flags(4) [OF a(3)] calm by (simp add: calm_def)
  have "has_flag (outside c') CLIENT_MASTER = has_flag (outside c) CLIENT_MASTER"
    by (rule bookkept_flag [OF a(3)]) (simp add: client_flag_defs)
  moreover have "accepts c = may_queue c" using calm by (simp add: accepts_def calm_def)
  ultimately have "refused cfg k c err sv' (setProtocolError c')"
    using close_after_reply [OF r(2) s] a(2) bookkept_inputs [OF a(3)] by (simp add: refused_def error_line_def outside_flags)
  then show ?thesis using that r(1) by (simp add: protocol_error_def addReplyError_def)
qed

text \<open>The same for the reply with the offending character.\<close>

lemma error_format_correct:
  assumes al: "allocator usable" and ready: "ready cfg (k + 3) sv c" and calm: "calm c" and len: "length err < 2 ^ 30"
  obtains sv' c' where "do { (sv, c) \<leftarrow> addReplyErrorFormat usable fill sv c err; Some (sv, setProtocolError c, st) } = Some (sv', c', st)"
    and "refused cfg k c (no_newlines err) sv' c'"
proof -
  have "length (no_newlines err) < 2 ^ 30" using len by (simp add: no_newlines_def)
  then obtain sv' c' where "protocol_error usable fill sv c (no_newlines err) = Some (sv', c')" "refused cfg k c (no_newlines err) sv' c'"
    using protocol_error_correct [OF al ready calm] by blast
  then show ?thesis using that
    by (auto simp: protocol_error_def addReplyError_def addReplyErrorFormat_def no_newlines_def bind_eq_Some_conv)
qed

section \<open>Parsing a multi bulk request\<close>

lemma make_room:
  assumes "sds_inv q" and "sdslen q + n < 2 ^ 62"
  obtains q' where "sdsMakeRoomFor fill q n = Some q'" and "sds_inv q'" and "contents q' = contents q" and "sdslen q' = sdslen q"
    and "sdslen q + n \<le> sdsalloc q'"
proof -
  have wf: "sds_wf q" using assms(1) by (simp add: sds_inv_def)
  obtain q' where q': "sdsMakeRoomFor fill q n = Some q'" "sds_wf q'" "sdslen q' = sdslen q" "sdslen q + n \<le> sdsalloc q'"
    "take (Suc (sdslen q)) (sds_buf q') = take (Suc (sdslen q)) (sds_buf q)"
    using sdsMakeRoomFor_correct [OF wf assms(2)] by blast
  have "contents q' = contents q" using arg_cong [OF q'(5), of "take (sdslen q)"] q'(3) by (simp add: contents_def min_absorb2)
  moreover have "sds_buf q' ! sdslen q = sds_buf q ! sdslen q"
    using arg_cong [OF q'(5), of "\<lambda>b. b ! sdslen q"] by simp
  then have "sds_inv q'" using assms(1) q'(2,3) by (simp add: sds_inv_def)
  ultimately show ?thesis using that q' by blast
qed

text \<open>The length of an argument is accepted.\<close>

lemma mb_bulklen_line:
  assumes ok: "qb_ok c" and unknown: "cl_bulklen c = - 1"
    and found: "strchr (sds_buf (cl_querybuf c)) (cl_qb_pos c) (CHR 0x0D) = Some (Some (cl_qb_pos c + n))"
    and len: "n + 2 \<le> unparsed_len c" and dollar: "unparsed c ! 0 = CHR ''$''" and pos: "0 < n"
    and num: "string2ll (take (n - 1) (drop 1 (unparsed c))) = Some ll" and range: "0 \<le> ll" "ll \<le> sv_proto_max_bulk_len sv"
    and small: "sv_proto_max_bulk_len sv < 2 ^ 60"
  obtains c' where "mb_bulklen usable fill sv c = Some (sv, c', Mb_Go)" and "qb_ok c'"
    and "unparsed c' = drop (n + 2) (unparsed c)" and "sdslen (cl_querybuf c') \<le> sdslen (cl_querybuf c)"
    and "c' = c\<lparr>cl_querybuf := cl_querybuf c', cl_qb_pos := cl_qb_pos c', cl_bulklen := ll\<rparr>"
proof -
  define c1 where "c1 = c\<lparr>cl_qb_pos := cl_qb_pos c + (n + 2)\<rparr>"
  have c1: "qb_ok c1" "unparsed c1 = drop (n + 2) (unparsed c)" using qb_advance [OF ok len] by (simp_all add: c1_def)
  have nl: "\<not> int (cl_qb_pos c + n - cl_qb_pos c) > int (unparsed_len c) - 2" using len by simp
  have ch: "sds_buf (cl_querybuf c) ! cl_qb_pos c = CHR ''$''" using qb_char [OF ok, of 0] len dollar by simp
  have rd: "mem_read (sds_buf (cl_querybuf c)) (cl_qb_pos c + 1) (cl_qb_pos c + n - (cl_qb_pos c + 1)) =
      Some (take (n - 1) (drop 1 (unparsed c)))"
    using qb_read [OF ok, of 1 "n - 1"] len pos by simp
  have rg: "\<not> (ll < 0 \<or> ll > sv_proto_max_bulk_len sv)" using range by simp
  define room where "room = (if ll \<ge> int PROTO_MBULK_BIG_ARG \<and> unparsed_len c1 \<le> nat ll + 2
       then do { q \<leftarrow> sdsrange (cl_querybuf c1) (int (cl_qb_pos c1)) (- 1);
                 q \<leftarrow> sdsMakeRoomFor fill q (nat ll + 2);
                 Some (c1\<lparr>cl_querybuf := q, cl_qb_pos := 0\<rparr>) }
       else Some c1)"
  have pos_eq: "cl_qb_pos c + n + 2 = cl_qb_pos c + (n + 2)" by simp
  have e: "mb_bulklen usable fill sv c = do { c \<leftarrow> room; Some (sv, c\<lparr>cl_bulklen := ll\<rparr>, Mb_Go) }"
    unfolding mb_bulklen_def Let_def found bind.bind_lunit option.case if_not_P [OF nl] rd num if_not_P [OF rg] room_def c1_def pos_eq
    by (simp add: unknown ch)
  show ?thesis
  proof (cases "ll \<ge> int PROTO_MBULK_BIG_ARG \<and> unparsed_len c1 \<le> nat ll + 2")
    case False
    then have "room = Some c1" unfolding room_def by (rule if_not_P)
    then have "mb_bulklen usable fill sv c = Some (sv, c1\<lparr>cl_bulklen := ll\<rparr>, Mb_Go)" using e by simp
    then show ?thesis by (rule that) (use c1 in \<open>simp_all add: c1_def qb_ok_def unparsed_def\<close>)
  next
    case True
    obtain q where q: "sdsrange (cl_querybuf c1) (int (cl_qb_pos c1)) (- 1) = Some q"
      "qb_ok (c1\<lparr>cl_querybuf := q, cl_qb_pos := 0\<rparr>)" "unparsed (c1\<lparr>cl_querybuf := q, cl_qb_pos := 0\<rparr>) = unparsed c1"
      "sdslen q = unparsed_len c1" using qb_trim [OF c1(1)] by blast
    have "nat ll + 2 < 2 ^ 61" using range(2) small by simp
    moreover have qi: "sdslen q < 2 ^ 61" "sds_inv q" using q(2) by (simp_all add: qb_ok_def)
    ultimately have "sdslen q + (nat ll + 2) < 2 ^ 62" by simp
    then obtain q' where q': "sdsMakeRoomFor fill q (nat ll + 2) = Some q'" "sds_inv q'" "contents q' = contents q" "sdslen q' = sdslen q"
      using make_room [OF qi(2)] by blast
    have "room = Some (c1\<lparr>cl_querybuf := q', cl_qb_pos := 0\<rparr>)"
      unfolding room_def if_P [OF True] q(1) bind.bind_lunit q'(1) ..
    then have m: "mb_bulklen usable fill sv c = Some (sv, c1\<lparr>cl_querybuf := q', cl_qb_pos := 0, cl_bulklen := ll\<rparr>, Mb_Go)" using e by simp
    have le: "sdslen q' \<le> sdslen (cl_querybuf c)" using q(4) q'(4) by (simp add: unparsed_len_def c1_def)
    show ?thesis by (rule that [OF m]) (use q q' c1 le in \<open>simp_all add: qb_ok_def unparsed_def c1_def\<close>)
  qed
qed

lemma mb_bulklen_cases:
  assumes al: "allocator usable" and ok: "qb_ok c" and ready: "ready cfg (k + 3) sv c" and calm: "calm c"
    and small: "sv_proto_max_bulk_len sv < 2 ^ 60" and bl: "cl_bulklen c = - 1 \<or> 0 \<le> cl_bulklen c \<and> cl_bulklen c < 2 ^ 60"
  obtains (go) c' where "mb_bulklen usable fill sv c = Some (sv, c', Mb_Go)" and "qb_ok c'" and "0 \<le> cl_bulklen c'"
      and "cl_bulklen c' < 2 ^ 60" and "sdslen (cl_querybuf c') \<le> sdslen (cl_querybuf c)" and "unparsed_len c' \<le> unparsed_len c"
      and "c' = c\<lparr>cl_querybuf := cl_querybuf c', cl_qb_pos := cl_qb_pos c', cl_bulklen := cl_bulklen c'\<rparr>"
  | (break) "mb_bulklen usable fill sv c = Some (sv, c, Mb_Break)"
  | (err) sv' c' e where "mb_bulklen usable fill sv c = Some (sv', c', Mb_Err)" and "refused cfg k c e sv' c'"
proof (cases "cl_bulklen c = - 1")
  case False
  then show ?thesis using go [of c] ok bl by (simp add: mb_bulklen_def)
next
  case unknown: True
  have perr: thesis if p: "mb_bulklen usable fill sv c = do { (sv, c) \<leftarrow> protocol_error usable fill sv c e; Some (sv, c, Mb_Err) }"
      and l: "length e < 2 ^ 30" for e
  proof -
    obtain sv' c' where "protocol_error usable fill sv c e = Some (sv', c')" "refused cfg k c e sv' c'"
      using protocol_error_correct [OF al ready calm l] by blast
    then show thesis using err [of sv' c' e] p by simp
  qed
  show ?thesis
  proof (rule qb_strchr [OF ok, of "CHR 0x0D"])
    assume n: "strchr (sds_buf (cl_querybuf c)) (cl_qb_pos c) (CHR 0x0D) = Some None"
    show thesis
    proof (cases "unparsed_len c > PROTO_INLINE_MAX_SIZE")
      case True
      then show thesis using n unknown by (intro perr) (auto simp: mb_bulklen_def)
    next
      case False
      then show thesis using n unknown by (intro break) (simp add: mb_bulklen_def)
    qed
  next
    fix n assume f: "strchr (sds_buf (cl_querybuf c)) (cl_qb_pos c) (CHR 0x0D) = Some (Some (cl_qb_pos c + n))"
      and nu: "n < unparsed_len c" and cr: "unparsed c ! n = CHR 0x0D"
    have ch: "sds_buf (cl_querybuf c) ! cl_qb_pos c = unparsed c ! 0" using qb_char [OF ok, of 0] nu by simp
    show thesis
    proof (cases "n + 2 \<le> unparsed_len c")
      case False
      then show thesis using f unknown by (intro break) (simp add: mb_bulklen_def Let_def)
    next
      case len: True
      have nl: "\<not> int (cl_qb_pos c + n - cl_qb_pos c) > int (unparsed_len c) - 2" using len by simp
      show thesis
      proof (cases "unparsed c ! 0 = CHR ''$''")
        case False
        define e where "e = ''Protocol error: expected '' @ [CHR 0x27] @ ''$'' @ [CHR 0x27] @ '', got '' @ [CHR 0x27, unparsed c ! 0, CHR 0x27]"
        have le: "length e < 2 ^ 30" by (simp add: e_def)
        obtain sv' c' where "do { (sv, c) \<leftarrow> addReplyErrorFormat usable fill sv c e; Some (sv, setProtocolError c, Mb_Err) } = Some (sv', c', Mb_Err)"
          "refused cfg k c (no_newlines e) sv' c'"
          by (rule error_format_correct [OF al ready calm le, of fill Mb_Err])
        moreover have "mb_bulklen usable fill sv c = do { (sv, c) \<leftarrow> addReplyErrorFormat usable fill sv c e; Some (sv, setProtocolError c, Mb_Err) }"
          unfolding e_def mb_bulklen_def Let_def f bind.bind_lunit option.case if_not_P [OF nl] ch using unknown False by simp
        ultimately show thesis using err [of sv' c' "no_newlines e"] by simp
      next
        case dollar: True
        then have pos: "0 < n" using cr by (cases n) auto
        have rd: "mem_read (sds_buf (cl_querybuf c)) (cl_qb_pos c + 1) (cl_qb_pos c + n - (cl_qb_pos c + 1)) =
            Some (take (n - 1) (drop 1 (unparsed c)))"
          using qb_read [OF ok, of 1 "n - 1"] len pos by simp
        show thesis
        proof (cases "\<exists>ll. string2ll (take (n - 1) (drop 1 (unparsed c))) = Some ll \<and> 0 \<le> ll \<and> ll \<le> sv_proto_max_bulk_len sv")
          case True
          then obtain ll where ll: "string2ll (take (n - 1) (drop 1 (unparsed c))) = Some ll" "0 \<le> ll" "ll \<le> sv_proto_max_bulk_len sv" by blast
          obtain c' where c': "mb_bulklen usable fill sv c = Some (sv, c', Mb_Go)" "qb_ok c'"
            "unparsed c' = drop (n + 2) (unparsed c)" "sdslen (cl_querybuf c') \<le> sdslen (cl_querybuf c)"
            "c' = c\<lparr>cl_querybuf := cl_querybuf c', cl_qb_pos := cl_qb_pos c', cl_bulklen := ll\<rparr>"
            using mb_bulklen_line [OF ok unknown f len dollar pos ll small] by blast
          have b: "cl_bulklen c' = ll" by (subst c'(5)) simp
          moreover have "unparsed_len c' \<le> unparsed_len c"
            using arg_cong [OF c'(3), of length] qb_ok_len(2) [OF c'(2)] qb_ok_len(2) [OF ok] by simp
          ultimately show thesis using go [OF c'(1,2) _ _ c'(4)] c'(5) ll small by simp
        next
          case False
          show thesis
          proof (rule perr [of "''Protocol error: invalid bulk length''"])
            show "mb_bulklen usable fill sv c = do { (sv, c) \<leftarrow> protocol_error usable fill sv c ''Protocol error: invalid bulk length''; Some (sv, c, Mb_Err) }"
            proof (cases "string2ll (take (n - 1) (drop 1 (unparsed c)))")
              case None
              then show ?thesis
                unfolding mb_bulklen_def Let_def f bind.bind_lunit option.case if_not_P [OF nl] ch rd None by (simp add: unknown dollar)
            next
              case (Some ll)
              have rg: "ll < 0 \<or> ll > sv_proto_max_bulk_len sv"
              proof (rule ccontr)
                assume "\<not> (ll < 0 \<or> ll > sv_proto_max_bulk_len sv)"
                then have "0 \<le> ll" "ll \<le> sv_proto_max_bulk_len sv" by simp_all
                then show "False" using False Some by blast
              qed
              show ?thesis
                unfolding mb_bulklen_def Let_def f bind.bind_lunit option.case if_not_P [OF nl] ch rd Some if_P [OF rg] by (simp add: unknown dollar)
            qed
          qed simp
        qed
      qed
    qed
  qed simp
qed

lemma mb_argument_cases:
  assumes ok: "qb_ok c" and bl: "0 \<le> cl_bulklen c" "cl_bulklen c < 2 ^ 60" and room: "length (cl_argv c) < cl_argv_cap c"
  obtains (wait) "mb_argument fill c = Some (c, False)" and "unparsed_len c < nat (cl_bulklen c) + 2"
  | (take) c' where "mb_argument fill c = Some (c', True)" and "qb_ok c'" and "nat (cl_bulklen c) + 2 \<le> unparsed_len c"
      and "unparsed c' = drop (nat (cl_bulklen c) + 2) (unparsed c)" and "sdslen (cl_querybuf c') \<le> sdslen (cl_querybuf c)"
      and "c' = c\<lparr>cl_querybuf := cl_querybuf c', cl_qb_pos := cl_qb_pos c', cl_bulklen := - 1, cl_multibulklen := cl_multibulklen c - 1,
             cl_argv := cl_argv c @ [take (nat (cl_bulklen c)) (unparsed c)]\<rparr>"
proof -
  define len where "len = nat (cl_bulklen c)"
  have small62: "len + 2 < 2 ^ 62" using bl by (simp add: len_def)
  show ?thesis
  proof (cases "unparsed_len c < len + 2")
    case True
    then show ?thesis using wait by (simp add: mb_argument_def len_def)
  next
    case False
    note t = take [folded len_def]
    show ?thesis
    proof (cases "cl_qb_pos c = 0 \<and> len \<ge> PROTO_MBULK_BIG_ARG \<and> sdslen (cl_querybuf c) = len + 2")
      case big: True
      have i: "sds_inv (cl_querybuf c)" "2 \<le> sdslen (cl_querybuf c)" using ok big by (simp_all add: qb_ok_def)
      have ty: "sds_type (cl_querybuf c) \<noteq> SDS_TYPE_5"
      proof
        assume t5: "sds_type (cl_querybuf c) = SDS_TYPE_5"
        then have "sdslen (cl_querybuf c) < 2 ^ 5" using i(1) by (auto simp: sds_inv_def sds_wf_def)
        then show False using big by (simp add: PROTO_MBULK_BIG_ARG_def)
      qed
      have two: "0 < (2 :: nat)" "(2 :: nat) < 2 ^ 31" by simp_all
      obtain q where q: "sdsIncrLen (cl_querybuf c) (- int 2) = Some q" "sds_inv q"
        "contents q = List.take (sdslen (cl_querybuf c) - 2) (contents (cl_querybuf c))"
        using sdsIncrLen_shorten [OF i(1,2) two ty] by blast
      have a: "contents q = List.take len (unparsed c)" using q(3) big by (simp add: unparsed_def)
      obtain n where n: "sdsnewlen fill SDS_NOINIT (len + 2) = Some n" "sds_inv n"
        using sdsnewlen_noinit [OF small62] by blast
      obtain e where e: "sdsclear n = Some e" "sds_inv e" "contents e = []" using sdsclear_correct [OF sds_inv_wf [OF n(2)]] by blast
      define c' where "c' = c\<lparr>cl_argv := cl_argv c @ [List.take len (unparsed c)], cl_querybuf := e, cl_bulklen := - 1,
          cl_multibulklen := cl_multibulklen c - 1\<rparr>"
      have m: "mb_argument fill c = Some (c', True)"
        unfolding mb_argument_def Let_def len_def [symmetric] if_not_P [OF False] if_P [OF big]
        using q(1) [simplified] a n(1) e(1) room by (simp add: push_arg_def c'_def)
      have el: "sdslen e = 0" using e(2,3) length_contents [of e] by (simp add: sds_inv_def)
      have "drop (len + 2) (unparsed c) = []" using big qb_ok_len(2) [OF ok] by (simp add: unparsed_len_def)
      then show ?thesis
        by (intro t [OF m]) (use False el e(2,3) big in \<open>simp_all add: c'_def qb_ok_def unparsed_def\<close>)
    next
      case small_: False
      have rd: "mem_read (sds_buf (cl_querybuf c)) (cl_qb_pos c) len = Some (List.take len (unparsed c))"
        using qb_read [OF ok, of 0 len] False by simp
      define c' where "c' = c\<lparr>cl_qb_pos := cl_qb_pos c + (len + 2), cl_argv := cl_argv c @ [List.take len (unparsed c)], cl_bulklen := - 1,
          cl_multibulklen := cl_multibulklen c - 1\<rparr>"
      have m: "mb_argument fill c = Some (c', True)"
        unfolding mb_argument_def Let_def len_def [symmetric] if_not_P [OF False] if_not_P [OF small_] rd
        using room by (simp add: push_arg_def c'_def)
      have "qb_ok (c\<lparr>cl_qb_pos := cl_qb_pos c + (len + 2)\<rparr>)"
        "unparsed (c\<lparr>cl_qb_pos := cl_qb_pos c + (len + 2)\<rparr>) = drop (len + 2) (unparsed c)"
        using qb_advance [OF ok, of "len + 2"] False by simp_all
      then show ?thesis
        by (intro t [OF m]) (use False in \<open>simp_all add: c'_def qb_ok_def unparsed_def\<close>)
    qed
  qed
qed

text \<open>The invariant of the input side, between two calls of the event handler.\<close>

definition in_inv :: "client \<Rightarrow> bool" where
  "in_inv c \<longleftrightarrow> qb_ok c \<and> cl_reqtype c \<in> {0, PROTO_REQ_INLINE, PROTO_REQ_MULTIBULK} \<and>
     (if cl_multibulklen c = 0
      then cl_bulklen c = - 1 \<and> cl_argv c = [] \<and>
        (cl_reqtype c = PROTO_REQ_MULTIBULK \<longrightarrow> 0 < unparsed_len c \<and> unparsed c ! 0 = CHR ''*'')
      else cl_reqtype c = PROTO_REQ_MULTIBULK \<and> length (cl_argv c) + cl_multibulklen c = cl_argv_cap c \<and>
        (cl_bulklen c = - 1 \<or> 0 \<le> cl_bulklen c \<and> cl_bulklen c < 2 ^ 60))"

text \<open>The outcome of a parser: a request and fewer bytes, a wait for more, or a refusal.\<close>

definition parse_ok :: "redisServer \<Rightarrow> nat \<Rightarrow> redisServer \<Rightarrow> client \<Rightarrow> redisServer \<times> client \<times> bool \<Rightarrow> bool" where
  "parse_ok cfg k sv c r \<longleftrightarrow> (\<exists>c'. same_rest c c' \<and> sdslen (cl_querybuf c') \<le> sdslen (cl_querybuf c) \<and>
     (r = (sv, c', True) \<and> qb_ok c' \<and> cl_multibulklen c' = 0 \<and> cl_bulklen c' = - 1 \<and>
        cl_reqtype c' \<in> {PROTO_REQ_INLINE, PROTO_REQ_MULTIBULK} \<and> unparsed_len c' < unparsed_len c \<or>
      r = (sv, c', False) \<and> in_inv c' \<or>
      (\<exists>sv'' c'' e. r = (sv'', c'', False) \<and> in_inv c' \<and> refused cfg k c' e sv'' c'')))"

lemma parse_ok_done:
  assumes "same_rest c c'" and "sdslen (cl_querybuf c') \<le> sdslen (cl_querybuf c)" and "qb_ok c'" and "cl_multibulklen c' = 0"
    and "cl_bulklen c' = - 1" and "cl_reqtype c' \<in> {PROTO_REQ_INLINE, PROTO_REQ_MULTIBULK}" and "unparsed_len c' < unparsed_len c"
  shows "parse_ok cfg k sv c (sv, c', True)"
  using assms unfolding parse_ok_def by blast

lemma parse_ok_wait:
  "same_rest c c' \<Longrightarrow> sdslen (cl_querybuf c') \<le> sdslen (cl_querybuf c) \<Longrightarrow> in_inv c' \<Longrightarrow> parse_ok cfg k sv c (sv, c', False)"
  unfolding parse_ok_def by blast

lemma parse_ok_refused:
  "same_rest c c' \<Longrightarrow> sdslen (cl_querybuf c') \<le> sdslen (cl_querybuf c) \<Longrightarrow> in_inv c' \<Longrightarrow> refused cfg k c' e sv'' c'' \<Longrightarrow>
     parse_ok cfg k sv c (sv'', c'', False)"
  unfolding parse_ok_def by blast

lemma parse_ok_trans:
  assumes "same_rest c d" and "sdslen (cl_querybuf d) \<le> sdslen (cl_querybuf c)" and "unparsed_len d \<le> unparsed_len c"
    and "parse_ok cfg k sv d r"
  shows "parse_ok cfg k sv c r"
proof -
  obtain c' where c': "same_rest d c'" "sdslen (cl_querybuf c') \<le> sdslen (cl_querybuf d)"
     "r = (sv, c', True) \<and> qb_ok c' \<and> cl_multibulklen c' = 0 \<and> cl_bulklen c' = - 1 \<and>
        cl_reqtype c' \<in> {PROTO_REQ_INLINE, PROTO_REQ_MULTIBULK} \<and> unparsed_len c' < unparsed_len d \<or>
      r = (sv, c', False) \<and> in_inv c' \<or>
      (\<exists>sv'' c'' e. r = (sv'', c'', False) \<and> in_inv c' \<and> refused cfg k c' e sv'' c'')"
    using assms(4) unfolding parse_ok_def by blast
  have s: "same_rest c c'" by (rule same_rest_trans [OF assms(1) c'(1)])
  have l: "sdslen (cl_querybuf c') \<le> sdslen (cl_querybuf c)" using c'(2) assms(2) by linarith
  show ?thesis using c'(3)
  proof (elim disjE exE conjE)
    assume "unparsed_len c' < unparsed_len d"
    then have "unparsed_len c' < unparsed_len c" using assms(3) by linarith
    moreover assume "r = (sv, c', True)" "qb_ok c'" "cl_multibulklen c' = 0" "cl_bulklen c' = - 1"
      "cl_reqtype c' \<in> {PROTO_REQ_INLINE, PROTO_REQ_MULTIBULK}"
    ultimately show ?thesis using parse_ok_done [OF s l] by blast
  next
    assume "r = (sv, c', False)" "in_inv c'"
    then show ?thesis using parse_ok_wait [OF s l] by blast
  next
    fix sv'' c'' e assume "r = (sv'', c'', False)" "in_inv c'" "refused cfg k c' e sv'' c''"
    then show ?thesis using parse_ok_refused [OF s l] by blast
  qed
qed

lemma in_inv_mid:
  assumes "in_inv c" and "cl_multibulklen c \<noteq> 0"
  shows "qb_ok c" and "cl_reqtype c = PROTO_REQ_MULTIBULK" and "length (cl_argv c) + cl_multibulklen c = cl_argv_cap c"
    and "cl_bulklen c = - 1 \<or> 0 \<le> cl_bulklen c \<and> cl_bulklen c < 2 ^ 60"
  using assms by (simp_all add: in_inv_def)

text \<open>One turn of the loop: the parser stops, or it goes on with one argument more.\<close>

lemma mb_turn:
  assumes al: "allocator usable" and small: "sv_proto_max_bulk_len sv < 2 ^ 60"
    and inv: "in_inv c" and n: "cl_multibulklen c = Suc n" and ready: "ready cfg (k + 3) sv c" and calm: "calm c"
    and rest: "\<And>d. n \<noteq> 0 \<Longrightarrow> in_inv d \<Longrightarrow> cl_multibulklen d = n \<Longrightarrow> ready cfg (k + 3) sv d \<Longrightarrow> calm d \<Longrightarrow>
      \<exists>r. mb_loop usable fill n sv d = Some r \<and> parse_ok cfg k sv d r"
  shows "\<exists>r. mb_loop usable fill (Suc n) sv c = Some r \<and> parse_ok cfg k sv c r"
proof -
  have "cl_multibulklen c \<noteq> 0" using n by simp
  note mid = in_inv_mid [OF inv this]
  show ?thesis
  proof (rule mb_bulklen_cases [OF al mid(1) ready calm small mid(4), of fill])
    assume "mb_bulklen usable fill sv c = Some (sv, c, Mb_Break)"
    then show ?thesis using parse_ok_wait [OF same_rest_refl order.refl inv] by simp
  next
    fix sv' c' e assume "mb_bulklen usable fill sv c = Some (sv', c', Mb_Err)" "refused cfg k c e sv' c'"
    then show ?thesis using parse_ok_refused [OF same_rest_refl order.refl inv] by simp
  next
    fix c1 assume b: "mb_bulklen usable fill sv c = Some (sv, c1, Mb_Go)" and ok: "qb_ok c1"
      and bl: "0 \<le> cl_bulklen c1" "cl_bulklen c1 < 2 ^ 60" and sl: "sdslen (cl_querybuf c1) \<le> sdslen (cl_querybuf c)"
      and ul: "unparsed_len c1 \<le> unparsed_len c"
      and c1: "c1 = c\<lparr>cl_querybuf := cl_querybuf c1, cl_qb_pos := cl_qb_pos c1, cl_bulklen := cl_bulklen c1\<rparr>"
    have f: "cl_argv c1 = cl_argv c" "cl_argv_cap c1 = cl_argv_cap c" "cl_multibulklen c1 = Suc n" "cl_reqtype c1 = PROTO_REQ_MULTIBULK"
      using arg_cong [OF c1, of cl_argv] arg_cong [OF c1, of cl_argv_cap] arg_cong [OF c1, of cl_multibulklen]
        arg_cong [OF c1, of cl_reqtype] n mid(2) by simp_all
    have sr: "same_rest c c1" by (rule same_rest_line [OF c1])
    have i1: "in_inv c1" using ok bl f mid(3) n by (simp add: in_inv_def)
    have room: "length (cl_argv c1) < cl_argv_cap c1" using f mid(3) n by simp
    show ?thesis
    proof (rule mb_argument_cases [OF ok bl room, of fill])
      assume "mb_argument fill c1 = Some (c1, False)"
      then show ?thesis using b parse_ok_wait [OF sr sl i1] by simp
    next
      fix d assume a: "mb_argument fill c1 = Some (d, True)" and dok: "qb_ok d" and dl: "nat (cl_bulklen c1) + 2 \<le> unparsed_len c1"
        and du: "unparsed d = drop (nat (cl_bulklen c1) + 2) (unparsed c1)" and ds: "sdslen (cl_querybuf d) \<le> sdslen (cl_querybuf c1)"
        and d: "d = c1\<lparr>cl_querybuf := cl_querybuf d, cl_qb_pos := cl_qb_pos d, cl_bulklen := - 1, cl_multibulklen := cl_multibulklen c1 - 1,
             cl_argv := cl_argv c1 @ [take (nat (cl_bulklen c1)) (unparsed c1)]\<rparr>"
      have df: "cl_multibulklen d = n" "cl_bulklen d = - 1" "cl_reqtype d = PROTO_REQ_MULTIBULK" "cl_argv_cap d = cl_argv_cap c1"
        "length (cl_argv d) = Suc (length (cl_argv c1))"
        using f arg_cong [OF d, of cl_multibulklen] arg_cong [OF d, of cl_bulklen] arg_cong [OF d, of cl_reqtype]
          arg_cong [OF d, of cl_argv_cap] arg_cong [OF d, of cl_argv] by simp_all
      have srd: "same_rest c1 d" by (rule same_rest_arg [OF d])
      have ult: "unparsed_len d < unparsed_len c1"
        using arg_cong [OF du, of length] dl qb_ok_len(2) [OF dok] qb_ok_len(2) [OF ok] by simp
      have lp: "mb_loop usable fill (Suc n) sv c = mb_loop usable fill n sv d" using b a by simp
      have sl2: "sdslen (cl_querybuf d) \<le> sdslen (cl_querybuf c)" using ds sl by linarith
      note srcd = same_rest_trans [OF sr srd]
      have ul2: "unparsed_len d < unparsed_len c" using ult ul by linarith
      show ?thesis
      proof (cases "n = 0")
        case True
        then have "parse_ok cfg k sv c (sv, d, True)" using df ul2 by (intro parse_ok_done [OF srcd sl2 dok]) simp_all
        then show ?thesis using lp True by simp
      next
        case False
        have "in_inv d" using False dok df f mid(3) n by (simp add: in_inv_def)
        moreover have "ready cfg (k + 3) sv d" "calm d" using ready calm same_rest_output [OF srcd] by simp_all
        ultimately obtain r where "mb_loop usable fill n sv d = Some r" "parse_ok cfg k sv d r" using rest [OF False] df(1) by blast
        then show ?thesis using lp parse_ok_trans [OF srcd sl2 less_imp_le [OF ul2]] by simp
      qed
    qed
  qed
qed

lemma mb_loop_safe:
  assumes al: "allocator usable" and small: "sv_proto_max_bulk_len sv < 2 ^ 60"
    and "in_inv c" and "cl_multibulklen c = Suc n" and "ready cfg (k + 3) sv c" and "calm c"
  shows "\<exists>r. mb_loop usable fill (Suc n) sv c = Some r \<and> parse_ok cfg k sv c r"
  using assms(3-6)
proof (induction n arbitrary: c)
  case (0 c)
  show ?case by (rule mb_turn [OF al small 0]) simp
next
  case (Suc n c)
  show ?case by (rule mb_turn [OF al small Suc.prems]) (rule Suc.IH)
qed

lemma mb_header_cases:
  assumes al: "allocator usable" and inv: "in_inv c" and idle: "cl_multibulklen c = 0" and star: "0 < unparsed_len c" "unparsed c ! 0 = CHR ''*''"
    and ready: "ready cfg (k + 3) sv c" and calm: "calm c"
  obtains (stop) r where "mb_header usable fill sv c = Some r" and "snd (snd r) = False" and "parse_ok cfg k sv c r"
  | (count) n ll where "mb_header usable fill sv c =
        Some (sv, c\<lparr>cl_qb_pos := cl_qb_pos c + (n + 2), cl_multibulklen := nat ll, cl_argv_cap := if ll \<le> 0 then cl_argv_cap c else nat ll\<rparr>, True)"
      and "n + 2 \<le> unparsed_len c"
proof -
  have ok: "qb_ok c" and av: "cl_argv c = []" using inv idle by (simp_all add: in_inv_def)
  have perr: thesis if p: "mb_header usable fill sv c = do { (sv, c) \<leftarrow> protocol_error usable fill sv c e; Some (sv, c, False) }"
      and l: "length e < 2 ^ 30" for e
  proof -
    obtain sv' c' where "protocol_error usable fill sv c e = Some (sv', c')" "refused cfg k c e sv' c'"
      using protocol_error_correct [OF al ready calm l] by blast
    then show thesis using stop [of "(sv', c', False)"] parse_ok_refused [OF same_rest_refl order.refl inv] p by simp
  qed
  have wait: "parse_ok cfg k sv c (sv, c, False)" by (rule parse_ok_wait [OF same_rest_refl order.refl inv])
  show ?thesis
  proof (rule qb_strchr [OF ok, of "CHR 0x0D"])
    assume n: "strchr (sds_buf (cl_querybuf c)) (cl_qb_pos c) (CHR 0x0D) = Some None"
    show thesis
    proof (cases "unparsed_len c > PROTO_INLINE_MAX_SIZE")
      case True
      show thesis by (rule perr [of "''Protocol error: too big mbulk count string''"]) (use n av True in \<open>simp_all add: mb_header_def\<close>)
    next
      case False
      then show thesis using n av wait by (intro stop [of "(sv, c, False)"]) (simp_all add: mb_header_def)
    qed
  next
    fix n assume f: "strchr (sds_buf (cl_querybuf c)) (cl_qb_pos c) (CHR 0x0D) = Some (Some (cl_qb_pos c + n))"
      and nu: "n < unparsed_len c" and cr: "unparsed c ! n = CHR 0x0D"
    have pos: "0 < n" using cr star by (cases n) auto
    have ch: "sds_buf (cl_querybuf c) ! cl_qb_pos c = CHR ''*''" using qb_char [OF ok, of 0] star by simp
    show thesis
    proof (cases "n + 2 \<le> unparsed_len c")
      case False
      then show thesis using f av wait by (intro stop [of "(sv, c, False)"]) (simp_all add: mb_header_def Let_def)
    next
      case len: True
      have nl: "\<not> int (cl_qb_pos c + n - cl_qb_pos c) > int (unparsed_len c) - 2" using len by simp
      have rd: "mem_read (sds_buf (cl_querybuf c)) (cl_qb_pos c + 1) (cl_qb_pos c + n - (cl_qb_pos c + 1)) =
          Some (take (n - 1) (drop 1 (unparsed c)))"
        using qb_read [OF ok, of 1 "n - 1"] len pos by simp
      define s where "s = take (n - 1) (drop 1 (unparsed c))"
      have e: "mb_header usable fill sv c = (case string2ll s of
                   None \<Rightarrow>
                     do { (sv, c) \<leftarrow> protocol_error usable fill sv c ''Protocol error: invalid multibulk length'';
                          Some (sv, c, False) }
                 | Some ll \<Rightarrow>
                     if ll > 1024 * 1024
                     then do { (sv, c) \<leftarrow> protocol_error usable fill sv c ''Protocol error: invalid multibulk length'';
                               Some (sv, c, False) }
                     else
                       (let c = c\<lparr>cl_qb_pos := cl_qb_pos c + n + 2\<rparr>
                        in if ll \<le> 0 then Some (sv, c, True)
                           else Some (sv, c\<lparr>cl_multibulklen := nat ll, cl_argv_cap := nat ll\<rparr>, True)))"
        unfolding mb_header_def Let_def f bind.bind_lunit option.case if_not_P [OF nl] ch rd s_def [symmetric] using av by simp
      show thesis
      proof (cases "\<exists>ll. string2ll s = Some ll \<and> \<not> ll > 1024 * 1024")
        case False
        show thesis
        proof (rule perr [of "''Protocol error: invalid multibulk length''"])
          show "mb_header usable fill sv c = do { (sv, c) \<leftarrow> protocol_error usable fill sv c ''Protocol error: invalid multibulk length''; Some (sv, c, False) }"
            unfolding e using False by (cases "string2ll s") auto
        qed simp
      next
        case True
        then obtain ll where "string2ll s = Some ll" "\<not> ll > 1024 * 1024" by blast
        then have "mb_header usable fill sv c =
            Some (sv, c\<lparr>cl_qb_pos := cl_qb_pos c + (n + 2), cl_multibulklen := nat ll, cl_argv_cap := if ll \<le> 0 then cl_argv_cap c else nat ll\<rparr>, True)"
          using idle unfolding e by (cases "ll \<le> 0") (simp_all add: Let_def)
        then show thesis using count len by blast
      qed
    qed
  qed simp
qed

lemma processMultibulkBuffer_safe:
  assumes al: "allocator usable" and small: "sv_proto_max_bulk_len sv < 2 ^ 60" and inv: "in_inv c"
    and mb: "cl_reqtype c = PROTO_REQ_MULTIBULK" and star: "cl_multibulklen c = 0 \<Longrightarrow> 0 < unparsed_len c \<and> unparsed c ! 0 = CHR ''*''"
    and ready: "ready cfg (k + 3) sv c" and calm: "calm c"
  shows "\<exists>r. processMultibulkBuffer usable fill sv c = Some r \<and> parse_ok cfg k sv c r"
proof (cases "cl_multibulklen c")
  case (Suc n)
  then show ?thesis using mb_loop_safe [OF al small inv Suc ready calm, of fill] by (simp add: processMultibulkBuffer_def)
next
  case 0
  then have s: "0 < unparsed_len c" "unparsed c ! 0 = CHR ''*''" using star by simp_all
  have ok: "qb_ok c" and idle: "cl_argv c = []" "cl_bulklen c = - 1" using inv 0 by (simp_all add: in_inv_def)
  show ?thesis
  proof (rule mb_header_cases [OF al inv 0 s ready calm, of fill])
    fix r assume "mb_header usable fill sv c = Some r" "snd (snd r) = False" "parse_ok cfg k sv c r"
    then show ?thesis using 0 by (cases r) (simp add: processMultibulkBuffer_def)
  next
    fix n ll assume h: "mb_header usable fill sv c =
        Some (sv, c\<lparr>cl_qb_pos := cl_qb_pos c + (n + 2), cl_multibulklen := nat ll, cl_argv_cap := if ll \<le> 0 then cl_argv_cap c else nat ll\<rparr>, True)"
      and len: "n + 2 \<le> unparsed_len c"
    define d where "d = c\<lparr>cl_qb_pos := cl_qb_pos c + (n + 2), cl_multibulklen := nat ll, cl_argv_cap := if ll \<le> 0 then cl_argv_cap c else nat ll\<rparr>"
    have sr: "same_rest c d" by (simp add: same_rest_def d_def)
    have "qb_ok (c\<lparr>cl_qb_pos := cl_qb_pos c + (n + 2)\<rparr>)" using qb_advance(1) [OF ok len] .
    then have dok: "qb_ok d" by (simp add: qb_ok_def d_def)
    have sl: "sdslen (cl_querybuf d) \<le> sdslen (cl_querybuf c)" by (simp add: d_def)
    have ul: "unparsed_len d < unparsed_len c" using len by (simp add: unparsed_len_def d_def)
    show ?thesis
    proof (cases "nat ll")
      case z: 0
      then have "processMultibulkBuffer usable fill sv c = Some (sv, d, True)"
        using h 0 by (simp add: processMultibulkBuffer_def d_def)
      moreover have "parse_ok cfg k sv c (sv, d, True)"
        by (rule parse_ok_done [OF sr sl dok]) (use z idle mb ul in \<open>simp_all add: d_def\<close>)
      ultimately show ?thesis by blast
    next
      case (Suc m)
      then have p: "processMultibulkBuffer usable fill sv c = mb_loop usable fill (Suc m) sv d"
        using h 0 by (simp add: processMultibulkBuffer_def d_def del: mb_loop.simps)
      have di: "in_inv d" "cl_multibulklen d = Suc m" using dok Suc idle mb by (auto simp: in_inv_def d_def)
      have "ready cfg (k + 3) sv d" "calm d" using ready calm same_rest_output [OF sr] by simp_all
      from mb_loop_safe [OF al small di this, of fill]
      show ?thesis unfolding p using parse_ok_trans [OF sr sl less_imp_le [OF ul]] by blast
    qed
  qed
qed

section \<open>Parsing never leaves the buffer\<close>

lemma processInlineBuffer_safe:
  assumes al: "allocator usable" and inv: "in_inv c" and il: "cl_reqtype c = PROTO_REQ_INLINE"
    and ready: "ready cfg (k + 3) sv c" and calm: "calm c"
  shows "\<exists>r. processInlineBuffer usable fill sv c = Some r \<and> parse_ok cfg k sv c r"
proof -
  have mb: "cl_multibulklen c = 0" "cl_bulklen c = - 1" and ok: "qb_ok c"
    using inv il by (auto simp: in_inv_def PROTO_REQ_INLINE_def PROTO_REQ_MULTIBULK_def split: if_splits)
  have slave: "\<not> has_flag c CLIENT_SLAVE" using calm by (simp add: calm_def)
  have perr: ?thesis if p: "processInlineBuffer usable fill sv c = do { (sv, c) \<leftarrow> protocol_error usable fill sv c e; Some (sv, c, False) }"
      and l: "length e < 2 ^ 30" for e
  proof -
    obtain sv' c' where "protocol_error usable fill sv c e = Some (sv', c')" "refused cfg k c e sv' c'"
      using protocol_error_correct [OF al ready calm l] by blast
    then show ?thesis using parse_ok_refused [OF same_rest_refl order.refl inv] p by simp
  qed
  show ?thesis
  proof (rule qb_strchr [OF ok, of "CHR 0x0A"])
    assume n: "strchr (sds_buf (cl_querybuf c)) (cl_qb_pos c) (CHR 0x0A) = Some None"
    show ?thesis
    proof (cases "unparsed_len c > PROTO_INLINE_MAX_SIZE")
      case True
      show ?thesis by (rule perr [of "''Protocol error: too big inline request''"]) (use n True in \<open>simp_all add: processInlineBuffer_def\<close>)
    next
      case False
      then show ?thesis using n parse_ok_wait [OF same_rest_refl order.refl inv] by (simp add: processInlineBuffer_def)
    qed
  next
    fix n assume f: "strchr (sds_buf (cl_querybuf c)) (cl_qb_pos c) (CHR 0x0A) = Some (Some (cl_qb_pos c + n))"
      and nu: "n < unparsed_len c" and cr: "unparsed c ! n = CHR 0x0A"
    define cr where "cr = (cl_qb_pos c + n \<noteq> cl_qb_pos c \<and> sds_buf (cl_querybuf c) ! (cl_qb_pos c + n - 1) = CHR 0x0D)"
    define querylen where "querylen = (if cr then n - 1 else n)"
    have q: "(if cr then cl_qb_pos c + n - 1 else cl_qb_pos c + n) - cl_qb_pos c = querylen"
      by (auto simp: querylen_def cr_def)
    have le: "querylen + (if cr then 2 else 1) = n + 1" by (auto simp: querylen_def cr_def)
    have ql: "querylen \<le> n" by (simp add: querylen_def)
    have rd: "mem_read (sds_buf (cl_querybuf c)) (cl_qb_pos c) querylen = Some (take querylen (unparsed c))"
      using qb_read [OF ok, of 0 querylen] nu ql by simp
    obtain a where a: "sdssplitargs (take querylen (unparsed c)) = Some a" using sdssplitargs_total by blast
    show ?thesis
    proof (cases a)
      case None
      show ?thesis
        by (rule perr [of "''Protocol error: unbalanced quotes in request''"])
          (use f rd a None in \<open>simp_all add: processInlineBuffer_def Let_def cr_def [symmetric, simplified] q [simplified]\<close>)
    next
      case (Some argv)
      define d where "d = c\<lparr>cl_qb_pos := cl_qb_pos c + (n + 1), cl_argv_cap := (if argv \<noteq> [] then length argv else cl_argv_cap c),
          cl_argv := filter (\<lambda>a. length a \<noteq> 0) argv\<rparr>"
      have pos: "cl_qb_pos c + querylen + (if cr then 2 else 1) = cl_qb_pos c + (n + 1)" using le by simp
      have "processInlineBuffer usable fill sv c = Some (sv, d, True)"
        unfolding processInlineBuffer_def Let_def f bind.bind_lunit option.case cr_def [symmetric] q rd a Some pos
        using slave by (simp add: d_def)
      moreover have sr: "same_rest c d" by (simp add: same_rest_def d_def)
      have "n + 1 \<le> unparsed_len c" using nu by simp
      from qb_advance(1) [OF ok this] have dok: "qb_ok d" by (simp add: qb_ok_def d_def)
      have "parse_ok cfg k sv c (sv, d, True)"
        by (rule parse_ok_done [OF sr _ dok]) (use nu mb il in \<open>simp_all add: d_def unparsed_len_def\<close>)
      ultimately show ?thesis by blast
    qed
  qed simp
qed

lemma parse_request_safe:
  assumes al: "allocator usable" and small: "sv_proto_max_bulk_len sv < 2 ^ 60" and inv: "in_inv c"
    and some: "0 < unparsed_len c" and ready: "ready cfg (k + 3) sv c" and calm: "calm c"
  shows "\<exists>r. parse_request usable fill sv c = Some r \<and> parse_ok cfg k sv c r"
proof -
  have ok: "qb_ok c" using inv by (simp add: in_inv_def)
  have ch: "sds_buf (cl_querybuf c) ! cl_qb_pos c = unparsed c ! 0" using qb_char [OF ok some] by simp
  define d where "d = (if cl_reqtype c = 0
      then (if unparsed c ! 0 = CHR ''*'' then c\<lparr>cl_reqtype := PROTO_REQ_MULTIBULK\<rparr> else c\<lparr>cl_reqtype := PROTO_REQ_INLINE\<rparr>) else c)"
  have f: "cl_querybuf d = cl_querybuf c" "unparsed_len d = unparsed_len c" "unparsed d = unparsed c"
    "cl_multibulklen d = cl_multibulklen c" by (simp_all add: d_def unparsed_len_def unparsed_def)
  have sr: "same_rest c d" by (simp add: d_def same_rest_def)
  have di: "in_inv d" using inv some
    by (auto simp: d_def in_inv_def qb_ok_def unparsed_len_def unparsed_def PROTO_REQ_INLINE_def PROTO_REQ_MULTIBULK_def split: if_splits)
  have rd: "ready cfg (k + 3) sv d" "calm d" using ready calm same_rest_output [OF sr] by simp_all
  have rt: "cl_reqtype d = PROTO_REQ_INLINE \<or> cl_reqtype d = PROTO_REQ_MULTIBULK"
    using inv by (auto simp: d_def in_inv_def)
  have p: "parse_request usable fill sv c = (if cl_reqtype d = PROTO_REQ_INLINE then processInlineBuffer usable fill sv d
      else if cl_reqtype d = PROTO_REQ_MULTIBULK then processMultibulkBuffer usable fill sv d else None)"
    unfolding parse_request_def Let_def ch d_def [symmetric] ..
  have "\<exists>r. parse_request usable fill sv c = Some r \<and> parse_ok cfg k sv d r"
  proof (cases "cl_reqtype d = PROTO_REQ_INLINE")
    case True
    then show ?thesis using processInlineBuffer_safe [OF al di True rd] p by simp
  next
    case False
    then have m: "cl_reqtype d = PROTO_REQ_MULTIBULK" using rt by simp
    have "cl_multibulklen d = 0 \<Longrightarrow> 0 < unparsed_len d \<and> unparsed d ! 0 = CHR ''*''" using di m by (simp add: in_inv_def)
    from processMultibulkBuffer_safe [OF al small di m this rd, of fill]
    show ?thesis unfolding p if_not_P [OF False] if_P [OF m] .
  qed
  then show ?thesis using parse_ok_trans [OF sr] f by auto
qed

section \<open>The loop over the requests\<close>

lemma has_flag_or: "has_flag c (f OR g) \<longleftrightarrow> has_flag c f \<or> has_flag c g"
  by (auto simp: has_flag_def bit_eq_iff bit_simps)

lemma in_inv_qb: "in_inv c \<Longrightarrow> qb_ok c"
  by (simp add: in_inv_def)

lemma clear_other:
  assumes "g AND m = 0"
  shows "has_flag (clear_flag c m) g = has_flag c g"
proof -
  have "(x AND NOT m) AND g = x AND g" for x using assms by (auto simp: bit_eq_iff bit_simps)
  then show ?thesis by (simp add: has_flag_def clear_flag_def)
qed

lemma set_other:
  assumes "g AND m = 0"
  shows "has_flag (set_flag c m) g = has_flag c g"
  using assms by (rule has_set_other)

lemma resetClient_flags:
  assumes "g AND (CLIENT_ASKING OR CLIENT_REPLY_SKIP OR CLIENT_REPLY_SKIP_NEXT) = 0"
  shows "has_flag (resetClient c) g = has_flag c g"
proof -
  have z: "g AND CLIENT_ASKING = 0" "g AND CLIENT_REPLY_SKIP = 0" "g AND CLIENT_REPLY_SKIP_NEXT = 0"
    using assms by (auto simp: bit_eq_iff bit_simps)
  have f: "has_flag (d\<lparr>cl_reqtype := a, cl_multibulklen := b, cl_bulklen := e\<rparr>) g = has_flag d g" "has_flag (freeClientArgv d) g = has_flag d g" for d a b e
    by (simp_all add: has_flag_def freeClientArgv_def)
  show ?thesis unfolding resetClient_def Let_def by (simp add: clear_other [OF z(1)] clear_other [OF z(2)] clear_other [OF z(3)]
      set_other [OF z(2)] f split: if_splits)
qed

lemma resetClient_shape:
  "\<exists>fl. resetClient c = c\<lparr>cl_argv := [], cl_cmd := None, cl_reqtype := 0, cl_multibulklen := 0, cl_bulklen := - 1, cl_flags := fl\<rparr>"
  unfolding resetClient_def Let_def clear_flag_def set_flag_def freeClientArgv_def by auto

lemma first_len_cong: "cl_bufpos c' = cl_bufpos c \<Longrightarrow> cl_reply c' = cl_reply c \<Longrightarrow> first_len c' = first_len c"
  by (simp add: first_len_def)

lemma ready_cong:
  assumes "cl_buf c' = cl_buf c" and "cl_bufpos c' = cl_bufpos c" and "cl_reply c' = cl_reply c"
    and "cl_reply_bytes c' = cl_reply_bytes c" and "cl_sentlen c' = cl_sentlen c"
  shows "ready cfg k sv c' = ready cfg k sv c"
  using assms first_len_cong [OF assms(2,3)] by (simp add: ready_def out_inv_def)

lemma resetClient_keeps:
  shows "qb_ok (resetClient c) = qb_ok c" and "unparsed_len (resetClient c) = unparsed_len c" and "unparsed (resetClient c) = unparsed c"
    and "cl_querybuf (resetClient c) = cl_querybuf c" and "cl_qb_pos (resetClient c) = cl_qb_pos c"
    and "ready cfg k sv (resetClient c) = ready cfg k sv c" and "pending (resetClient c) = pending c"
    and "qb_ok c \<Longrightarrow> in_inv (resetClient c)"
proof -
  obtain fl where r: "resetClient c = c\<lparr>cl_argv := [], cl_cmd := None, cl_reqtype := 0, cl_multibulklen := 0, cl_bulklen := - 1, cl_flags := fl\<rparr>"
    using resetClient_shape by blast
  show "ready cfg k sv (resetClient c) = ready cfg k sv c" unfolding r by (rule ready_cong) simp_all
  show "qb_ok c \<Longrightarrow> in_inv (resetClient c)" unfolding r
    by (simp add: in_inv_def qb_ok_def PROTO_REQ_MULTIBULK_def)
qed (use resetClient_shape [of c] in \<open>auto simp: qb_ok_def unparsed_len_def unparsed_def pending_def outtext_def\<close>)

text \<open>What is required of a command: it leaves the input side alone, keeps the output side usable and the
  configuration as it is, does not turn the client into a replica or a master, does not block it in a
  module, and it is refused only when the client is to be closed.\<close>

definition plain :: "client \<Rightarrow> bool" where
  "plain c \<longleftrightarrow> \<not> has_flag c CLIENT_SLAVE \<and> \<not> has_flag c CLIENT_MASTER"

definition well_behaved :: "redisServer \<Rightarrow> 'w run \<Rightarrow> bool" where
  "well_behaved cfg run \<longleftrightarrow> (\<forall>w sv c. cl_argv c \<noteq> [] \<longrightarrow> ready cfg 3 sv c \<longrightarrow> plain c \<longrightarrow>
     (\<exists>w' sv' c' ok. run w sv c = (w', sv', Live c', ok) \<and> cl_querybuf c' = cl_querybuf c \<and> cl_qb_pos c' = cl_qb_pos c \<and>
        ready cfg 3 sv' c' \<and> plain c' \<and> \<not> (has_flag c' CLIENT_BLOCKED \<and> cl_btype c' = BLOCKED_MODULE) \<and>
        (\<not> ok \<longrightarrow> has_flag c' CLIENT_CLOSE_AFTER_REPLY)))"

text \<open>The state of a connection between two events.\<close>

definition conn_ok :: "redisServer \<Rightarrow> redisServer \<Rightarrow> client \<Rightarrow> bool" where
  "conn_ok cfg sv c \<longleftrightarrow> qb_ok c \<and> plain c \<and>
     (in_inv c \<and> ready cfg 3 sv c \<or> has_flag c CLIENT_CLOSE_AFTER_REPLY \<and> ready cfg 0 sv c)"

lemma resetClient_plain: "plain (resetClient c) = plain c"
proof -
  have "has_flag (resetClient c) CLIENT_SLAVE = has_flag c CLIENT_SLAVE" "has_flag (resetClient c) CLIENT_MASTER = has_flag c CLIENT_MASTER"
    by (rule resetClient_flags, simp add: client_flag_defs)+
  then show ?thesis by (simp add: plain_def)
qed

lemma resetClient_conn: "qb_ok c \<Longrightarrow> plain c \<Longrightarrow> ready cfg 3 sv c \<Longrightarrow> conn_ok cfg sv (resetClient c)"
  by (simp add: conn_ok_def resetClient_keeps resetClient_plain)

lemma after_command_plain:
  assumes "plain c" and "\<not> (has_flag c CLIENT_BLOCKED \<and> cl_btype c = BLOCKED_MODULE)"
  shows "after_command c = resetClient c"
  using assms by (simp add: after_command_def plain_def)

lemma refused_conn:
  assumes "refused cfg 0 c e sv' c'" and "qb_ok c" and "plain c"
  shows "conn_ok cfg sv' c'"
proof -
  have "cl_querybuf c' = cl_querybuf c" "cl_qb_pos c' = cl_qb_pos c" using assms(1) by (simp_all add: refused_def inputs_def)
  then have "qb_ok c'" using assms(2) by (simp add: qb_ok_def)
  then show ?thesis using assms(1,3) by (simp add: conn_ok_def refused_def plain_def)
qed

lemma input_loop_safe:
  assumes al: "allocator usable" and small: "sv_proto_max_bulk_len cfg < 2 ^ 60" and run: "well_behaved cfg run"
    and "conn_ok cfg sv c"
  shows "\<exists>w' sv' c'. input_loop usable fill run w sv c = Some (w', sv', Live c') \<and> conn_ok cfg sv' c' \<and>
    sdslen (cl_querybuf c') \<le> sdslen (cl_querybuf c)"
  using assms(4)
proof (induction "unparsed_len c" arbitrary: w sv c rule: less_induct)
  case less
  show ?case
  proof (cases "input_stopped sv c")
    case True
    then have "input_loop usable fill run w sv c = Some (w, sv, Live c)" by (subst input_loop.simps) simp
    then show ?thesis using less.prems by blast
  next
    case go: False
    have some: "0 < unparsed_len c" using go by (simp add: input_stopped_def unparsed_len_def)
    have "\<not> has_flag c (CLIENT_CLOSE_AFTER_REPLY OR CLIENT_CLOSE_ASAP)" using go by (simp add: input_stopped_def)
    then have nc: "\<not> has_flag c CLIENT_CLOSE_AFTER_REPLY" by (simp add: has_flag_or)
    then have inv: "in_inv c" "ready cfg 3 sv c" "plain c" and calm: "calm c"
      using less.prems by (auto simp: conn_ok_def calm_def plain_def)
    have "sv_config sv = cfg" using inv(2) by (simp add: ready_def limits_ok_def)
    then have sm: "sv_proto_max_bulk_len sv < 2 ^ 60" using small by (auto simp: sv_config_def)
    have r3: "ready cfg (0 + 3) sv c" using inv(2) by simp
    obtain r where r: "parse_request usable fill sv c = Some r" "parse_ok cfg 0 sv c r"
      using parse_request_safe [OF al sm inv(1) some r3 calm] by blast
    obtain d where d: "same_rest c d" "sdslen (cl_querybuf d) \<le> sdslen (cl_querybuf c)"
     "r = (sv, d, True) \<and> qb_ok d \<and> cl_multibulklen d = 0 \<and> cl_bulklen d = - 1 \<and>
        cl_reqtype d \<in> {PROTO_REQ_INLINE, PROTO_REQ_MULTIBULK} \<and> unparsed_len d < unparsed_len c \<or>
      r = (sv, d, False) \<and> in_inv d \<or>
      (\<exists>sv'' c'' e. r = (sv'', c'', False) \<and> in_inv d \<and> refused cfg 0 d e sv'' c'')"
      using r(2) unfolding parse_ok_def by blast
    have dp: "plain d" "ready cfg 3 sv d" using inv(2,3) same_rest_output(3) [OF d(1)] same_rest_fields(2) [OF d(1)]
      by (simp_all add: plain_def)
    from d(3) consider (request) "r = (sv, d, True)" "qb_ok d" "unparsed_len d < unparsed_len c"
      | (wait) "r = (sv, d, False)" "in_inv d" | (refuse) sv'' c'' e where "r = (sv'', c'', False)" "in_inv d" "refused cfg 0 d e sv'' c''"
      by blast
    then show ?thesis
    proof cases
      case wait
      then have "input_loop usable fill run w sv c = Some (w, sv, Live d)" using go r(1) by (subst input_loop.simps) simp
      moreover have "conn_ok cfg sv d" using wait(2) dp by (simp add: conn_ok_def in_inv_qb)
      ultimately show ?thesis using d(2) by blast
    next
      case refuse
      then have "input_loop usable fill run w sv c = Some (w, sv'', Live c'')" using go r(1) by (subst input_loop.simps) simp
      moreover have "conn_ok cfg sv'' c''" using refused_conn [OF refuse(3) _ dp(1)] refuse(2) by (simp add: in_inv_def)
      moreover have "cl_querybuf c'' = cl_querybuf d" using refuse(3) by (simp add: refused_def inputs_def)
      ultimately show ?thesis using d(2) by auto
    next
      case request
      show ?thesis
      proof (cases "cl_argv d = []")
        case True
        then have e: "input_loop usable fill run w sv c = input_loop usable fill run w sv (resetClient d)"
          using go r(1) request(1) by (subst input_loop.simps) simp
        have "unparsed_len (resetClient d) < unparsed_len c" using request(3) by (simp add: resetClient_keeps)
        from less.hyps [OF this resetClient_conn [OF request(2) dp], of w] show ?thesis
          unfolding e resetClient_keeps(4) using d(2) order_trans by blast
      next
        case False
        from run [unfolded well_behaved_def, rule_format, OF False dp(2,1), of w]
        obtain w' sv' c' ok where x: "run w sv d = (w', sv', Live c', ok)" "cl_querybuf c' = cl_querybuf d" "cl_qb_pos c' = cl_qb_pos d"
          "ready cfg 3 sv' c'" "plain c'" "\<not> (has_flag c' CLIENT_BLOCKED \<and> cl_btype c' = BLOCKED_MODULE)"
          "\<not> ok \<longrightarrow> has_flag c' CLIENT_CLOSE_AFTER_REPLY" by blast
        have qc: "qb_ok c'" "unparsed_len c' = unparsed_len d" using request(2) x(2,3) by (simp_all add: qb_ok_def unparsed_len_def)
        define n where "n = (if ok then resetClient c' else c')"
        have e: "input_loop usable fill run w sv c = input_loop usable fill run w' sv' n"
          using go r(1) request(1) False x(1) after_command_plain [OF x(5,6)] by (subst input_loop.simps) (simp add: n_def)
        have nl: "unparsed_len n < unparsed_len c" "cl_querybuf n = cl_querybuf d"
          using request(3) qc(2) x(2) by (simp_all add: n_def resetClient_keeps)
        have "ready cfg 0 sv' c'" by (rule ready_mono [OF x(4)]) simp
        then have "conn_ok cfg sv' n" using resetClient_conn [OF qc(1) x(5,4)] x(5,7) qc(1) by (auto simp: n_def conn_ok_def)
        from less.hyps [OF nl(1) this, of w'] show ?thesis unfolding e nl(2) using d(2) order_trans by blast
      qed
    qed
  qed
qed

lemma conn_ok_cong:
  assumes c: "conn_ok cfg sv c" and ok: "qb_ok c'" and u: "unparsed c' = unparsed c @ bs"
    and f: "cl_reqtype c' = cl_reqtype c" "cl_multibulklen c' = cl_multibulklen c" "cl_bulklen c' = cl_bulklen c" "cl_argv c' = cl_argv c"
      "cl_argv_cap c' = cl_argv_cap c" "cl_flags c' = cl_flags c" "\<And>k. ready cfg k sv' c' = ready cfg k sv c"
  shows "conn_ok cfg sv' c'"
proof -
  have q: "qb_ok c" using c by (simp add: conn_ok_def)
  have "in_inv c'" if i: "in_inv c"
  proof -
    have "0 < unparsed_len c' \<and> unparsed c' ! 0 = CHR ''*''" if "0 < unparsed_len c" "unparsed c ! 0 = CHR ''*''"
      using that u qb_ok_len(2) [OF q] qb_ok_len(2) [OF ok] by (simp add: nth_append)
    then show ?thesis using i ok f by (auto simp: in_inv_def)
  qed
  then show ?thesis using c ok f by (auto simp: conn_ok_def plain_def has_flag_def)
qed

lemma processInputBuffer_safe:
  assumes al: "allocator usable" and small: "sv_proto_max_bulk_len cfg < 2 ^ 60" and run: "well_behaved cfg run"
    and c: "conn_ok cfg sv c"
  obtains w' sv' c' where "processInputBuffer usable fill run w sv c = Some (w', sv', c')" and "conn_ok cfg sv' c'"
proof -
  obtain w1 sv1 c1 where l: "input_loop usable fill run w sv c = Some (w1, sv1, Live c1)" "conn_ok cfg sv1 c1"
    using input_loop_safe [OF al small run c] by blast
  show ?thesis
  proof (cases "cl_qb_pos c1 = 0")
    case True
    then show ?thesis using that l by (simp add: processInputBuffer_def)
  next
    case False
    have ok: "qb_ok c1" using l(2) by (simp add: conn_ok_def)
    obtain q where q: "sdsrange (cl_querybuf c1) (int (cl_qb_pos c1)) (- 1) = Some q"
      "qb_ok (c1\<lparr>cl_querybuf := q, cl_qb_pos := 0\<rparr>)" "unparsed (c1\<lparr>cl_querybuf := q, cl_qb_pos := 0\<rparr>) = unparsed c1"
      using qb_trim [OF ok] by blast
    have "processInputBuffer usable fill run w sv c = Some (w1, sv1, c1\<lparr>cl_querybuf := q, cl_qb_pos := 0\<rparr>)"
      using l(1) False q(1) by (simp add: processInputBuffer_def)
    moreover have "ready cfg k sv1 (c1\<lparr>cl_querybuf := q, cl_qb_pos := 0\<rparr>) = ready cfg k sv1 c1" for k
      by (rule ready_cong) simp_all
    then have "conn_ok cfg sv1 (c1\<lparr>cl_querybuf := q, cl_qb_pos := 0\<rparr>)"
      using q(3) by (intro conn_ok_cong [OF l(2) q(2), of "[]"]) simp_all
    ultimately show ?thesis by (rule that)
  qed
qed

text \<open>The result of \<open>read(2)\<close> when it is asked for \<open>n\<close> bytes.\<close>

definition honest :: "(nat \<Rightarrow> read_result) \<Rightarrow> bool" where
  "honest read \<longleftrightarrow> (\<forall>n bs. read n = Read_Data bs \<longrightarrow> 0 < length bs \<and> length bs \<le> n)"

lemma query_readlen_bounds: "0 < query_readlen c" "query_readlen c \<le> PROTO_IOBUF_LEN"
  by (auto simp: query_readlen_def Let_def PROTO_IOBUF_LEN_def)

text \<open>Bytes read behind the end of the buffer belong to it afterwards.\<close>

lemma qb_receive:
  assumes inv: "sds_inv q" and small: "sdslen q < 2 ^ 61" and n: "n \<le> PROTO_IOBUF_LEN" and bs: "0 < length bs" "length bs \<le> n"
  obtains q1 b q2 where "sdsMakeRoomFor fill q n = Some q1" and "sds_inv q1" and "contents q1 = contents q" and "sdslen q1 = sdslen q"
    and "mem_write (sds_buf q1) (sdslen q) bs = Some b" and "sdsIncrLen (q1\<lparr>sds_buf := b\<rparr>) (int (length bs)) = Some q2"
    and "sds_inv q2" and "contents q2 = contents q @ bs"
proof -
  have "sdslen q + n < 2 ^ 62" using small n by (simp add: PROTO_IOBUF_LEN_def)
  then obtain q1 where q1: "sdsMakeRoomFor fill q n = Some q1" "sds_inv q1" "contents q1 = contents q" "sdslen q1 = sdslen q"
    "sdslen q + n \<le> sdsalloc q1" using make_room [OF inv] by blast
  have wf: "sds_wf q1" using q1(2) by (simp add: sds_inv_def)
  then have fit: "sdslen q + length bs \<le> length (sds_buf q1)" using q1(5) bs(2) by (simp add: sds_wf_def)
  define b where "b = take (sdslen q) (sds_buf q1) @ bs @ drop (sdslen q + length bs) (sds_buf q1)"
  have w: "mem_write (sds_buf q1) (sdslen q) bs = Some b" using mem_write_Some [OF fit] by (simp add: b_def)
  have lb: "length b = length (sds_buf q1)" by (rule mem_write_length [OF w])
  have wf': "sds_wf (q1\<lparr>sds_buf := b\<rparr>)" using wf lb by (simp add: sds_wf_def)
  have av: "length bs \<le> sdsavail (q1\<lparr>sds_buf := b\<rparr>)" using wf' q1(4,5) bs(2) by (simp add: sdsavail_eq)
  have "length bs < 2 ^ 31" using bs(2) n by (simp add: PROTO_IOBUF_LEN_def)
  then obtain q2 where q2: "sdsIncrLen (q1\<lparr>sds_buf := b\<rparr>) (int (length bs)) = Some q2" "sds_inv q2"
    "contents q2 = take (sdslen (q1\<lparr>sds_buf := b\<rparr>) + length bs) (sds_buf (q1\<lparr>sds_buf := b\<rparr>))"
    using sdsIncrLen_correct [OF wf' bs(1) av] by blast
  have "length (take (sdslen q) (sds_buf q1)) = sdslen q" using fit by simp
  then have "contents q2 = contents q @ bs" using q2(3) q1(3,4) by (simp add: b_def contents_def)
  then show ?thesis using that q1 w q2 by blast
qed

lemma readQueryFromClient_safe:
  assumes al: "allocator usable" and small: "sv_proto_max_bulk_len cfg < 2 ^ 60" "sv_client_max_querybuf_len cfg < 2 ^ 61"
    and run: "well_behaved cfg run" and c: "conn_ok cfg sv c" and rd: "honest read"
  shows "\<exists>w' sv' st. readQueryFromClient usable fill run feed read w sv c = Some (w', sv', st) \<and> (\<forall>c'. st = Live c' \<longrightarrow> conn_ok cfg sv' c')"
proof -
  define c0 where "c0 = (if cl_querybuf_peak c < sdslen (cl_querybuf c) then c\<lparr>cl_querybuf_peak := sdslen (cl_querybuf c)\<rparr> else c)"
  have c0: "cl_querybuf c0 = cl_querybuf c" "cl_qb_pos c0 = cl_qb_pos c" by (simp_all add: c0_def)
  have ok: "qb_ok c" using c by (simp add: conn_ok_def)
  then have q: "sds_inv (cl_querybuf c)" "sdslen (cl_querybuf c) < 2 ^ 61" by (simp_all add: qb_ok_def)
  have nm: "cl_flags c0 AND CLIENT_MASTER = 0" using c by (simp add: c0_def conn_ok_def plain_def has_flag_def)
  have "sdslen (cl_querybuf c) + query_readlen c < 2 ^ 62" using q(2) query_readlen_bounds(2) [of c] by (simp add: PROTO_IOBUF_LEN_def)
  then obtain q1 where q1: "sdsMakeRoomFor fill (cl_querybuf c) (query_readlen c) = Some q1" "sds_inv q1"
    "contents q1 = contents (cl_querybuf c)" "sdslen q1 = sdslen (cl_querybuf c)" using make_room [OF q(1)] by blast
  have cfg: "sv_config sv = cfg" using c by (auto simp: conn_ok_def ready_def limits_ok_def)
  show ?thesis
  proof (cases "read (query_readlen c)")
    case Read_EAGAIN
    have "qb_ok (c0\<lparr>cl_querybuf := q1\<rparr>)" "unparsed (c0\<lparr>cl_querybuf := q1\<rparr>) = unparsed c @ []"
      using ok q1 c0 by (simp_all add: qb_ok_def unparsed_def)
    moreover have "ready cfg k sv (c0\<lparr>cl_querybuf := q1\<rparr>) = ready cfg k sv c" for k by (rule ready_cong) (simp_all add: c0_def)
    ultimately have "conn_ok cfg sv (c0\<lparr>cl_querybuf := q1\<rparr>)" by (intro conn_ok_cong [OF c]) (simp_all add: c0_def)
    then show ?thesis using q1(1) Read_EAGAIN by (simp add: readQueryFromClient_def Let_def c0_def [symmetric] c0)
  next
    case (Read_Data bs)
    then have bs: "0 < length bs" "length bs \<le> query_readlen c" using rd by (auto simp: honest_def)
    obtain q1' b q2 where r: "sdsMakeRoomFor fill (cl_querybuf c) (query_readlen c) = Some q1'" "sds_inv q1'" "sdslen q1' = sdslen (cl_querybuf c)"
      "mem_write (sds_buf q1') (sdslen (cl_querybuf c)) bs = Some b"
      "sdsIncrLen (q1'\<lparr>sds_buf := b\<rparr>) (int (length bs)) = Some q2" "sds_inv q2" "contents q2 = contents (cl_querybuf c) @ bs"
      using qb_receive [OF q query_readlen_bounds(2) bs] by blast
    define d where "d = c0\<lparr>cl_querybuf := q2, cl_lastinteraction := sv_unixtime sv\<rparr>"
    define sv1 where "sv1 = sv\<lparr>sv_stat_net_input_bytes := sv_stat_net_input_bytes sv + int (length bs)\<rparr>"
    have e: "readQueryFromClient usable fill run feed read w sv c =
        (if sdslen q2 > sv_client_max_querybuf_len sv1 then Some (w, sv1, Freed)
         else do { (w, sv, c) \<leftarrow> processInputBuffer usable fill run w sv1 d; Some (w, sv, Live c) })"
      using nm r Read_Data
      by (simp add: readQueryFromClient_def Let_def c0_def [symmetric] c0 processInputBufferAndReplicate_def sv1_def [symmetric] d_def has_flag_def)
    show ?thesis
    proof (cases "sdslen q2 > sv_client_max_querybuf_len sv1")
      case True
      then show ?thesis using e by simp
    next
      case False
      have "sv_client_max_querybuf_len sv1 < 2 ^ 61" using small(2) cfg by (auto simp: sv_config_def sv1_def)
      then have "sdslen q2 < 2 ^ 61" using False by linarith
      moreover have "sdslen q2 = sdslen (cl_querybuf c) + length bs"
        using arg_cong [OF r(7), of length] length_contents [of q2] length_contents [of "cl_querybuf c"] r(6) q(1) by (simp add: sds_inv_def)
      ultimately have dok: "qb_ok d" "unparsed d = unparsed c @ bs"
        using ok r(6,7) c0 qb_ok_len(1) [OF ok] by (simp_all add: qb_ok_def d_def unparsed_def)
      have "limits_ok cfg sv1 = limits_ok cfg sv" by (simp add: limits_ok_def sv_config_def sv1_def)
      then have "ready cfg k sv1 d = ready cfg k sv d" for k by (simp add: ready_def)
      moreover have "ready cfg k sv d = ready cfg k sv c" for k by (rule ready_cong) (simp_all add: d_def c0_def)
      ultimately have "conn_ok cfg sv1 d" by (intro conn_ok_cong [OF c dok]) (simp_all add: d_def c0_def)
      then obtain w' sv' c' where "processInputBuffer usable fill run w sv1 d = Some (w', sv', c')" "conn_ok cfg sv' c'"
        using processInputBuffer_safe [OF al small(1) run] by blast
      then show ?thesis using e False by simp
    qed
  qed (use q1(1) in \<open>simp_all add: readQueryFromClient_def Let_def c0_def [symmetric] c0\<close>)
qed

section \<open>The properties of the input side\<close>

text \<open>A connection over a sequence of events.\<close>

fun read_events ::
  "(nat \<Rightarrow> nat) \<Rightarrow> (nat \<Rightarrow> char) \<Rightarrow> 'w run \<Rightarrow> ('w \<Rightarrow> string \<Rightarrow> 'w) \<Rightarrow> (nat \<Rightarrow> read_result) list \<Rightarrow> 'w \<Rightarrow> redisServer \<Rightarrow>
     client_state \<Rightarrow> ('w \<times> redisServer \<times> client_state) option" where
  "read_events usable fill run feed [] w sv st = Some (w, sv, st)"
| "read_events usable fill run feed (rd # rds) w sv Freed = Some (w, sv, Freed)"
| "read_events usable fill run feed (rd # rds) w sv (Live c) =
     do { (w, sv, st) \<leftarrow> readQueryFromClient usable fill run feed rd w sv c;
          read_events usable fill run feed rds w sv st }"

lemma read_events_safe:
  assumes "allocator usable" and "sv_proto_max_bulk_len cfg < 2 ^ 60" and "sv_client_max_querybuf_len cfg < 2 ^ 61"
    and "well_behaved cfg run" and "\<forall>rd \<in> set rds. honest rd" and "\<forall>c. st = Live c \<longrightarrow> conn_ok cfg sv c"
  shows "\<exists>w' sv' st'. read_events usable fill run feed rds w sv st = Some (w', sv', st') \<and> (\<forall>c'. st' = Live c' \<longrightarrow> conn_ok cfg sv' c')"
  using assms(5,6)
proof (induction rds arbitrary: w sv st)
  case (Cons rd rds)
  show ?case
  proof (cases st)
    case (Live c)
    obtain w1 sv1 st1 where r: "readQueryFromClient usable fill run feed rd w sv c = Some (w1, sv1, st1)"
      "\<forall>c'. st1 = Live c' \<longrightarrow> conn_ok cfg sv1 c'"
      using readQueryFromClient_safe [OF assms(1-4), of sv c rd fill feed w] Cons.prems Live by auto
    then show ?thesis using Cons.IH [OF _ r(2), of w1] Cons.prems(1) Live by auto
  qed simp
qed simp

text \<open>A command that only changes the world, and a new connection.\<close>

lemma demo_run_well_behaved: "well_behaved cfg (\<lambda>w sv c. (f w c, sv, Live (c\<lparr>cl_btype := BLOCKED_NONE\<rparr>), True))"
  unfolding well_behaved_def
proof (intro allI impI)
  fix w sv c assume "cl_argv c \<noteq> []" "ready cfg 3 sv c" "plain c"
  moreover have "ready cfg 3 sv (c\<lparr>cl_btype := BLOCKED_NONE\<rparr>) = ready cfg 3 sv c" by (rule ready_cong) simp_all
  ultimately show "\<exists>w' sv' c' ok. (f w c, sv, Live (c\<lparr>cl_btype := BLOCKED_NONE\<rparr>), True) = (w', sv', Live c', ok) \<and>
      cl_querybuf c' = cl_querybuf c \<and> cl_qb_pos c' = cl_qb_pos c \<and> ready cfg 3 sv' c' \<and> plain c' \<and>
      \<not> (has_flag c' CLIENT_BLOCKED \<and> cl_btype c' = BLOCKED_MODULE) \<and> (\<not> ok \<longrightarrow> has_flag c' CLIENT_CLOSE_AFTER_REPLY)"
    by (intro exI [of _ "f w c"] exI [of _ sv] exI [of _ "c\<lparr>cl_btype := BLOCKED_NONE\<rparr>"] exI [of _ True])
      (simp add: plain_def has_flag_def BLOCKED_NONE_def BLOCKED_MODULE_def)
qed

lemma demo_conn_ok: "conn_ok (sv_config demo_server) demo_server demo_client"
proof -
  obtain c where c: "createClient (\<lambda>_. CHR ''?'') 7 0 5 = Some c" using createClient_Some by blast
  then have d: "demo_client = c" by (simp add: demo_client_def)
  obtain q where q: "sdsempty (\<lambda>_. CHR ''?'') = Some q" "sds_inv q" "contents q = []"
    using sdsnewlen_correct [of 0 "[]" "\<lambda>_. CHR ''?''"] unfolding sdsempty_def by auto
  have "sdslen q = 0" using q(2,3) length_contents [of q] by (simp add: sds_inv_def)
  then have "in_inv c" "qb_ok c" using c q by (auto simp: createClient_def in_inv_def qb_ok_def PROTO_REQ_MULTIBULK_def)
  moreover have "ready (sv_config demo_server) 3 demo_server demo_client"
    using demo_client_fresh(1,5) by (simp add: ready_def sendable_def limits_ok_def) (simp add: demo_server_def)
  ultimately show ?thesis using d demo_client_fresh(3) by (simp add: conn_ok_def plain_def has_flag_def)
qed

text \<open>C2: Whatever bytes arrive, in whatever pieces, parsing them stays inside the query buffer and the argument
  vector, no assertion fails, every loop ends, and the invariant of the connection holds after each event: for
  every sequence of results of \<open>read(2)\<close>, with commands that keep the client alive.\<close>

theorem any_input_is_safe:
  assumes "allocator usable" and "sv_proto_max_bulk_len cfg < 2 ^ 60" and "sv_client_max_querybuf_len cfg < 2 ^ 61"
    and "well_behaved cfg run" and "\<forall>rd \<in> set rds. honest rd" and "conn_ok cfg sv c"
  shows "\<exists>w' sv' st. read_events usable fill run feed rds w sv (Live c) = Some (w', sv', st) \<and>
    (\<forall>c'. st = Live c' \<longrightarrow> conn_ok cfg sv' c')"
  using read_events_safe [OF assms(1-5), of "Live c" sv fill feed w] assms(6) by simp

theorem any_input_is_safe_witness:
  "\<exists>w' sv' st. read_events (\<lambda>n. n) (\<lambda>_. CHR ''?'') (\<lambda>w sv c. (cl_argv c # w, sv, Live (c\<lparr>cl_btype := BLOCKED_NONE\<rparr>), True)) (\<lambda>w bs. w)
      [\<lambda>n. if 3 \<le> n then Read_Data [CHR 0x22, CHR 0x00, CHR 0x0A] else Read_EAGAIN] [] demo_server (Live demo_client) =
      Some (w', sv', st) \<and> (\<forall>c'. st = Live c' \<longrightarrow> conn_ok (sv_config demo_server) sv' c')"
proof -
  have "allocator (\<lambda>n. n)" by (simp add: allocator_def)
  moreover have "sv_proto_max_bulk_len (sv_config demo_server) < 2 ^ 60" "sv_client_max_querybuf_len (sv_config demo_server) < 2 ^ 61"
    by (simp_all add: sv_config_def demo_server_def)
  moreover have "\<forall>rd \<in> set [\<lambda>n. if 3 \<le> n then Read_Data [CHR 0x22, CHR 0x00, CHR 0x0A] else Read_EAGAIN]. honest rd"
    by (auto simp: honest_def split: if_splits)
  ultimately show ?thesis
    using any_input_is_safe [OF _ _ _ demo_run_well_behaved [of "sv_config demo_server" "\<lambda>w c. cl_argv c # w"] _ demo_conn_ok] by blast
qed

end
