(* ===== verification/Client_Pipeline.thy ===== *)
theory Client_Pipeline
  imports Client_Input
begin

text \<open>
  The requests a client sends are the requests the server executes. A command is encoded as an
  array of bulk strings; a stream of commands arrives in pieces of any size. The theory follows
  the parser of \<open>Client_Input\<close> over such a stream: at every moment the bytes not yet parsed
  and those still under way complete the commands not yet executed.
\<close>

section \<open>The encoding of requests\<close>

definition resp :: "string list \<Rightarrow> string" where
  "resp cmd = ''*'' @ sdec (int (length cmd)) @ CRLF @ concat (map bulk cmd)"

definition encode :: "string list list \<Rightarrow> string" where
  "encode cmds = concat (map resp cmds)"

definition command_ok :: "redisServer \<Rightarrow> string list \<Rightarrow> bool" where
  "command_ok cfg cmd \<longleftrightarrow> cmd \<noteq> [] \<and> length cmd \<le> 1024 * 1024 \<and> (\<forall>a \<in> set cmd. int (length a) \<le> sv_proto_max_bulk_len cfg)"

lemma encode_simps [simp]: "encode [] = []" "encode (cmd # cmds) = resp cmd @ encode cmds"
  by (simp_all add: encode_def)

text \<open>A line of the protocol at the start of the stream has arrived, or part of it.\<close>

lemma sdec_chars: "\<forall>x \<in> set (sdec v). x \<noteq> CHR 0x0D \<and> x \<noteq> CHR 0x00"
proof -
  have d: "d < 10 \<Longrightarrow> digit_char d \<noteq> CHR 0x0D \<and> digit_char d \<noteq> CHR 0x00" for d
  proof -
    have "list_all (\<lambda>d. digit_char d \<noteq> CHR 0x0D \<and> digit_char d \<noteq> CHR 0x00) [0..<10]" by code_simp
    then show "d < 10 \<Longrightarrow> digit_char d \<noteq> CHR 0x0D \<and> digit_char d \<noteq> CHR 0x00" by (simp add: list_all_iff)
  qed
  have "\<forall>x \<in> set (dec n). x \<noteq> CHR 0x0D \<and> x \<noteq> CHR 0x00" for n
    by (induction n rule: dec.induct) (subst dec.simps, auto simp: d)
  then show ?thesis by (auto simp: sdec_def)
qed

lemma line_cases:
  assumes u: "u @ net = x # line @ CRLF @ rest" and x: "x \<noteq> CHR 0x0D" "x \<noteq> CHR 0x00"
    and line: "\<forall>x \<in> set line. x \<noteq> CHR 0x0D \<and> x \<noteq> CHR 0x00"
  obtains (whole) v where "u = x # line @ CRLF @ v" and "v @ net = rest"
  | (cr) "u = x # line @ [CHR 0x0D]" and "net \<noteq> []"
  | (part) "\<forall>y \<in> set u. y \<noteq> CHR 0x0D \<and> y \<noteq> CHR 0x00" and "length u \<le> Suc (length line)" and "net \<noteq> []"
proof -
  define tok where "tok = x # line"
  have t: "u @ net = tok @ CHR 0x0D # CHR 0x0A # rest" using u by (simp add: tok_def CRLF_def)
  have tc: "\<forall>y \<in> set tok. y \<noteq> CHR 0x0D \<and> y \<noteq> CHR 0x00" using x line by (simp add: tok_def)
  from t [unfolded append_eq_append_conv2] obtain us where
    us: "u = tok @ us \<and> us @ net = CHR 0x0D # CHR 0x0A # rest \<or> u @ us = tok \<and> net = us @ CHR 0x0D # CHR 0x0A # rest" by blast
  then show ?thesis
  proof (elim disjE conjE)
    assume a: "u @ us = tok" "net = us @ CHR 0x0D # CHR 0x0A # rest"
    have "set u \<subseteq> set tok" "length u \<le> length tok" using a(1) by (metis set_append Un_upper1, metis length_append le_add1)
    then show ?thesis using part tc a(2) by (auto simp: tok_def)
  next
    assume a: "u = tok @ us" "us @ net = CHR 0x0D # CHR 0x0A # rest"
    then show ?thesis
    proof (cases us)
      case Nil
      then show ?thesis using part a tc by (simp add: tok_def)
    next
      case (Cons y ys)
      then have y: "y = CHR 0x0D" "ys @ net = CHR 0x0A # rest" using a(2) by simp_all
      show ?thesis
      proof (cases ys)
        case Nil
        then show ?thesis using cr a(1) Cons y by (simp add: tok_def)
      next
        case (Cons z zs)
        then show ?thesis using whole [of zs] a(1) \<open>us = y # ys\<close> y by (simp add: tok_def CRLF_def)
      qed
    qed
  qed
qed

section \<open>The parser on a stream\<close>

lemma qb_strchr_at:
  assumes "qb_ok c" and "unparsed c = xs @ CHR 0x0D # ys" and "\<forall>x \<in> set xs. x \<noteq> CHR 0x0D \<and> x \<noteq> CHR 0x00"
  shows "strchr (sds_buf (cl_querybuf c)) (cl_qb_pos c) (CHR 0x0D) = Some (Some (cl_qb_pos c + length xs))"
proof -
  obtain pre t where s: "sds_buf (cl_querybuf c) = pre @ unparsed c @ CHR 0x00 # t" "length pre = cl_qb_pos c"
    using qb_split [OF assms(1)] by blast
  show ?thesis using strchr_found [OF assms(3) s(2) [symmetric], of "ys @ CHR 0x00 # t"] s assms(2) by simp
qed

lemma qb_strchr_none:
  assumes "qb_ok c" and "\<forall>x \<in> set (unparsed c). x \<noteq> CHR 0x0D \<and> x \<noteq> CHR 0x00"
  shows "strchr (sds_buf (cl_querybuf c)) (cl_qb_pos c) (CHR 0x0D) = Some None"
proof -
  obtain pre t where s: "sds_buf (cl_querybuf c) = pre @ unparsed c @ CHR 0x00 # t" "length pre = cl_qb_pos c"
    using qb_split [OF assms(1)] by blast
  show ?thesis using strchr_nul [OF assms(2) s(2) [symmetric], of t] s by simp
qed

lemma mb_bulklen_stream:
  assumes ok: "qb_ok c" and unknown: "cl_bulklen c = - 1" and small: "sv_proto_max_bulk_len sv < 2 ^ 60"
    and len: "int (length a) \<le> sv_proto_max_bulk_len sv" and s: "unparsed c @ net = bulk a @ rest"
  obtains (go) c' where "mb_bulklen usable fill sv c = Some (sv, c', Mb_Go)" and "qb_ok c'" and "unparsed c' @ net = a @ CRLF @ rest"
      and "c' = c\<lparr>cl_querybuf := cl_querybuf c', cl_qb_pos := cl_qb_pos c', cl_bulklen := int (length a)\<rparr>"
  | (break) "mb_bulklen usable fill sv c = Some (sv, c, Mb_Break)" and "net \<noteq> []"
proof -
  define line where "line = sdec (int (length a))"
  have s': "unparsed c @ net = CHR ''$'' # line @ CRLF @ (a @ CRLF @ rest)" using s by (simp add: bulk_def line_def)
  have fs: "fits_signed 8 (int (length a))" using len small by (simp add: fits_signed_def)
  have lc: "\<forall>x \<in> set line. x \<noteq> CHR 0x0D \<and> x \<noteq> CHR 0x00" unfolding line_def by (rule sdec_chars)
  have dc: "\<forall>x \<in> set (CHR ''$'' # line). x \<noteq> CHR 0x0D \<and> x \<noteq> CHR 0x00" using lc by simp
  note ul = qb_ok_len(2) [OF ok]
  show ?thesis
  proof (rule line_cases [OF s' _ _ lc])
    fix v assume u: "unparsed c = CHR ''$'' # line @ CRLF @ v" and v: "v @ net = a @ CRLF @ rest"
    have u': "unparsed c = (CHR ''$'' # line) @ CHR 0x0D # CHR 0x0A # v" using u by (simp add: CRLF_def)
    have f: "strchr (sds_buf (cl_querybuf c)) (cl_qb_pos c) (CHR 0x0D) = Some (Some (cl_qb_pos c + Suc (length line)))"
      using qb_strchr_at [OF ok u' dc] by simp
    have n: "Suc (length line) + 2 \<le> unparsed_len c" using ul u by simp
    have num: "string2ll (take (Suc (length line) - 1) (drop 1 (unparsed c))) = Some (int (length a))"
      using string2ll_sdec [OF fs] u by (simp add: line_def)
    have d: "unparsed c ! 0 = CHR ''$''" "0 < Suc (length line)" "0 \<le> int (length a)" using u by simp_all
    obtain c' where "mb_bulklen usable fill sv c = Some (sv, c', Mb_Go)" "qb_ok c'"
      "unparsed c' = drop (Suc (length line) + 2) (unparsed c)"
      "c' = c\<lparr>cl_querybuf := cl_querybuf c', cl_qb_pos := cl_qb_pos c', cl_bulklen := int (length a)\<rparr>"
      using mb_bulklen_line [OF ok unknown f n d(1,2) num d(3) len small] by blast
    then show ?thesis using go u v by simp
  next
    assume u: "unparsed c = CHR ''$'' # line @ [CHR 0x0D]" and "net \<noteq> []"
    have f: "strchr (sds_buf (cl_querybuf c)) (cl_qb_pos c) (CHR 0x0D) = Some (Some (cl_qb_pos c + Suc (length line)))"
      using qb_strchr_at [OF ok, of "CHR ''$'' # line" "[]"] u dc by simp
    have "mb_bulklen usable fill sv c = Some (sv, c, Mb_Break)" using f unknown ul u by (simp add: mb_bulklen_def Let_def)
    then show ?thesis using break \<open>net \<noteq> []\<close> by blast
  next
    assume u: "\<forall>y \<in> set (unparsed c). y \<noteq> CHR 0x0D \<and> y \<noteq> CHR 0x00" "length (unparsed c) \<le> Suc (length line)" and "net \<noteq> []"
    have "length line \<le> 20" unfolding line_def by (rule length_sdec_bound [OF fs])
    then have "\<not> unparsed_len c > PROTO_INLINE_MAX_SIZE" using u(2) ul by (simp add: PROTO_INLINE_MAX_SIZE_def)
    then have "mb_bulklen usable fill sv c = Some (sv, c, Mb_Break)"
      using qb_strchr_none [OF ok u(1)] unknown by (simp add: mb_bulklen_def)
    then show ?thesis using break \<open>net \<noteq> []\<close> by blast
  qed simp_all
qed

lemma mb_argument_stream:
  assumes ok: "qb_ok c" and bl: "cl_bulklen c = int (length a)" "cl_bulklen c < 2 ^ 60" and room: "length (cl_argv c) < cl_argv_cap c"
    and s: "unparsed c @ net = a @ CRLF @ rest"
  obtains (wait) "mb_argument fill c = Some (c, False)" and "net \<noteq> []"
  | (take) c' where "mb_argument fill c = Some (c', True)" and "qb_ok c'" and "unparsed c' @ net = rest"
      and "c' = c\<lparr>cl_querybuf := cl_querybuf c', cl_qb_pos := cl_qb_pos c', cl_bulklen := - 1, cl_multibulklen := cl_multibulklen c - 1,
             cl_argv := cl_argv c @ [a]\<rparr>"
proof -
  have b: "nat (cl_bulklen c) = length a" "0 \<le> cl_bulklen c" using bl by simp_all
  show ?thesis
  proof (rule mb_argument_cases [OF ok b(2) bl(2) room, of fill])
    assume w: "mb_argument fill c = Some (c, False)" "unparsed_len c < nat (cl_bulklen c) + 2"
    have "net \<noteq> []"
    proof
      assume "net = []"
      then have "length (unparsed c) = length (a @ CRLF @ rest)" using s by simp
      then show False using w(2) b(1) qb_ok_len(2) [OF ok] by simp
    qed
    then show ?thesis using wait w(1) by blast
  next
    fix c' assume t: "mb_argument fill c = Some (c', True)" "qb_ok c'" "nat (cl_bulklen c) + 2 \<le> unparsed_len c"
      "unparsed c' = drop (nat (cl_bulklen c) + 2) (unparsed c)"
      "c' = c\<lparr>cl_querybuf := cl_querybuf c', cl_qb_pos := cl_qb_pos c', cl_bulklen := - 1, cl_multibulklen := cl_multibulklen c - 1,
             cl_argv := cl_argv c @ [take (nat (cl_bulklen c)) (unparsed c)]\<rparr>"
    have le: "length a + 2 \<le> length (unparsed c)" using t(3) b(1) qb_ok_len(2) [OF ok] by simp
    have "take (length a) (unparsed c) = a" using arg_cong [OF s, of "take (length a)"] le by simp
    moreover have "drop (length a + 2) (unparsed c) @ net = rest" using arg_cong [OF s, of "drop (length a + 2)"] le by simp
    ultimately show ?thesis using take [OF t(1,2)] t(4,5) b(1) by simp
  qed
qed

text \<open>In the middle of a command: the arguments \<open>args\<close> are left.\<close>

definition mid :: "client \<Rightarrow> string list \<Rightarrow> string \<Rightarrow> string \<Rightarrow> bool" where
  "mid c args net rest \<longleftrightarrow> qb_ok c \<and> cl_reqtype c = PROTO_REQ_MULTIBULK \<and> cl_multibulklen c = length args \<and>
     length (cl_argv c) + length args = cl_argv_cap c \<and>
     (cl_bulklen c = - 1 \<and> unparsed c @ net = concat (map bulk args) @ rest \<or>
      (\<exists>a as. args = a # as \<and> cl_bulklen c = int (length a) \<and> unparsed c @ net = a @ CRLF @ concat (map bulk as) @ rest))"

lemma mid_line:
  assumes "mid c (a # as) net rest" and "sv_proto_max_bulk_len sv < 2 ^ 60" and "int (length a) \<le> sv_proto_max_bulk_len sv"
  obtains (go) c' where "mb_bulklen usable fill sv c = Some (sv, c', Mb_Go)" and "mid c' (a # as) net rest"
      and "cl_bulklen c' = int (length a)" and "cl_argv c' = cl_argv c" and "cl_flags c' = cl_flags c"
  | (break) "mb_bulklen usable fill sv c = Some (sv, c, Mb_Break)" and "net \<noteq> []"
proof (cases "cl_bulklen c = - 1")
  case True
  then have s: "unparsed c @ net = bulk a @ (concat (map bulk as) @ rest)" and ok: "qb_ok c" using assms(1) by (auto simp: mid_def)
  show ?thesis
  proof (rule mb_bulklen_stream [OF ok True assms(2,3) s, of usable fill])
    fix c' assume c': "mb_bulklen usable fill sv c = Some (sv, c', Mb_Go)" "qb_ok c'" "unparsed c' @ net = a @ CRLF @ concat (map bulk as) @ rest"
      "c' = c\<lparr>cl_querybuf := cl_querybuf c', cl_qb_pos := cl_qb_pos c', cl_bulklen := int (length a)\<rparr>"
    have f: "cl_reqtype c' = cl_reqtype c" "cl_multibulklen c' = cl_multibulklen c" "cl_argv c' = cl_argv c" "cl_argv_cap c' = cl_argv_cap c"
      "cl_bulklen c' = int (length a)" "cl_flags c' = cl_flags c"
      using arg_cong [OF c'(4), of cl_flags] arg_cong [OF c'(4), of cl_reqtype] arg_cong [OF c'(4), of cl_multibulklen] arg_cong [OF c'(4), of cl_argv]
        arg_cong [OF c'(4), of cl_argv_cap] arg_cong [OF c'(4), of cl_bulklen] by simp_all
    have "mid c' (a # as) net rest" using assms(1) f c'(2,3) by (simp add: mid_def)
    then show ?thesis using go c'(1) f by blast
  next
    assume "mb_bulklen usable fill sv c = Some (sv, c, Mb_Break)" "net \<noteq> []"
    then show ?thesis using break by blast
  qed
next
  case False
  then have "cl_bulklen c = int (length a)" using assms(1) by (auto simp: mid_def)
  moreover have "mb_bulklen usable fill sv c = Some (sv, c, Mb_Go)" using False by (simp add: mb_bulklen_def)
  ultimately show ?thesis using go assms(1) by blast
qed

lemma mb_loop_stream:
  assumes small: "sv_proto_max_bulk_len sv < 2 ^ 60" and "mid c args net rest" and "\<forall>a \<in> set args. int (length a) \<le> sv_proto_max_bulk_len sv"
  shows "(\<exists>c'. mb_loop usable fill (length args) sv c = Some (sv, c', True) \<and> cl_argv c' = cl_argv c @ args \<and> mid c' [] net rest \<and>
       cl_flags c' = cl_flags c) \<or>
    (\<exists>c' got left. mb_loop usable fill (length args) sv c = Some (sv, c', False) \<and> args = got @ left \<and> left \<noteq> [] \<and>
       cl_argv c' = cl_argv c @ got \<and> mid c' left net rest \<and> net \<noteq> [] \<and> cl_flags c' = cl_flags c)"
  using assms(2,3)
proof (induction args arbitrary: c)
  case Nil
  then show ?case by simp
next
  case (Cons a as)
  have la: "int (length a) \<le> sv_proto_max_bulk_len sv" using Cons.prems(2) by simp
  have stop: ?case if "mb_loop usable fill (length (a # as)) sv c = Some (sv, d, False)" "cl_argv d = cl_argv c" "mid d (a # as) net rest" "net \<noteq> []"
      "cl_flags d = cl_flags c" for d
    using that by (intro disjI2 exI [of _ d] exI [of _ "[]"] exI [of _ "a # as"]) simp
  show ?case
  proof (rule mid_line [OF Cons.prems(1) small la, of usable fill])
    assume "mb_bulklen usable fill sv c = Some (sv, c, Mb_Break)" "net \<noteq> []"
    then show ?thesis using Cons.prems(1) by (intro stop [of c]) simp_all
  next
    fix c1 assume c1: "mb_bulklen usable fill sv c = Some (sv, c1, Mb_Go)" "mid c1 (a # as) net rest"
      "cl_bulklen c1 = int (length a)" "cl_argv c1 = cl_argv c" "cl_flags c1 = cl_flags c"
    have m: "qb_ok c1" "length (cl_argv c1) < cl_argv_cap c1" "unparsed c1 @ net = a @ CRLF @ (concat (map bulk as) @ rest)"
      "cl_bulklen c1 < 2 ^ 60" using c1(2,3) la small by (auto simp: mid_def)
    show ?thesis
    proof (rule mb_argument_stream [OF m(1) c1(3) m(4,2,3), of fill])
      assume "mb_argument fill c1 = Some (c1, False)" "net \<noteq> []"
      then show ?thesis using c1 by (intro stop [of c1]) simp_all
    next
      fix d assume d: "mb_argument fill c1 = Some (d, True)" "qb_ok d" "unparsed d @ net = concat (map bulk as) @ rest"
        "d = c1\<lparr>cl_querybuf := cl_querybuf d, cl_qb_pos := cl_qb_pos d, cl_bulklen := - 1, cl_multibulklen := cl_multibulklen c1 - 1,
             cl_argv := cl_argv c1 @ [a]\<rparr>"
      have f: "cl_reqtype d = cl_reqtype c1" "cl_multibulklen d = cl_multibulklen c1 - 1" "cl_argv d = cl_argv c @ [a]"
        "cl_argv_cap d = cl_argv_cap c1" "cl_bulklen d = - 1" "cl_flags d = cl_flags c"
        using arg_cong [OF d(4), of cl_flags] c1(5) arg_cong [OF d(4), of cl_reqtype] arg_cong [OF d(4), of cl_multibulklen] arg_cong [OF d(4), of cl_argv]
          arg_cong [OF d(4), of cl_argv_cap] arg_cong [OF d(4), of cl_bulklen] c1(4) by simp_all
      have dm: "mid d as net rest" using c1(2,4) f d(2,3) by (simp add: mid_def)
      have e: "mb_loop usable fill (length (a # as)) sv c = mb_loop usable fill (length as) sv d" using c1(1) d(1) by simp
      have "\<forall>a \<in> set as. int (length a) \<le> sv_proto_max_bulk_len sv" using Cons.prems(2) by simp
      from Cons.IH [OF dm this] show ?thesis
      proof (elim disjE exE conjE)
        fix c' assume "mb_loop usable fill (length as) sv d = Some (sv, c', True)" "cl_argv c' = cl_argv d @ as" "mid c' [] net rest"
          "cl_flags c' = cl_flags d"
        then show ?thesis unfolding e using f(3,6) by (intro disjI1 exI [of _ c']) simp
      next
        fix c' got left assume "mb_loop usable fill (length as) sv d = Some (sv, c', False)" "as = got @ left" "left \<noteq> []"
          "cl_argv c' = cl_argv d @ got" "mid c' left net rest" "net \<noteq> []" "cl_flags c' = cl_flags d"
        then show ?thesis unfolding e using f(3,6) by (intro disjI2 exI [of _ c'] exI [of _ "a # got"] exI [of _ left]) simp
      qed
    qed
  qed
qed

text \<open>The state of the parser when \<open>cmds\<close> are left and \<open>net\<close> is still to arrive.\<close>

definition expects :: "client \<Rightarrow> string list list \<Rightarrow> string \<Rightarrow> bool" where
  "expects c cmds net \<longleftrightarrow>
     qb_ok c \<and> cl_multibulklen c = 0 \<and> cl_bulklen c = - 1 \<and> cl_argv c = [] \<and> cl_reqtype c \<in> {0, PROTO_REQ_MULTIBULK} \<and>
       unparsed c @ net = encode cmds \<or>
     (\<exists>args cs. args \<noteq> [] \<and> cmds = (cl_argv c @ args) # cs \<and> mid c args net (encode cs))"

lemma mb_header_stream:
  assumes ok: "qb_ok c" and av: "cl_argv c = []" and n: "n \<le> 1024 * 1024" "0 < n"
    and s: "unparsed c @ net = ''*'' @ sdec (int n) @ CRLF @ rest"
  obtains (go) p where "mb_header usable fill sv c = Some (sv, c\<lparr>cl_qb_pos := p, cl_multibulklen := n, cl_argv_cap := n\<rparr>, True)"
      and "qb_ok (c\<lparr>cl_qb_pos := p\<rparr>)" and "unparsed (c\<lparr>cl_qb_pos := p\<rparr>) @ net = rest"
  | (wait) "mb_header usable fill sv c = Some (sv, c, False)" and "net \<noteq> []"
proof -
  define line where "line = sdec (int n)"
  have s': "unparsed c @ net = CHR ''*'' # line @ CRLF @ rest" using s by (simp add: line_def)
  have fs: "fits_signed 8 (int n)" using n by (simp add: fits_signed_def)
  have lc: "\<forall>x \<in> set line. x \<noteq> CHR 0x0D \<and> x \<noteq> CHR 0x00" unfolding line_def by (rule sdec_chars)
  have dc: "\<forall>x \<in> set (CHR ''*'' # line). x \<noteq> CHR 0x0D \<and> x \<noteq> CHR 0x00" using lc by simp
  note ul = qb_ok_len(2) [OF ok]
  show ?thesis
  proof (rule line_cases [OF s' _ _ lc])
    fix v assume u: "unparsed c = CHR ''*'' # line @ CRLF @ v" and v: "v @ net = rest"
    have u': "unparsed c = (CHR ''*'' # line) @ CHR 0x0D # CHR 0x0A # v" using u by (simp add: CRLF_def)
    have f: "strchr (sds_buf (cl_querybuf c)) (cl_qb_pos c) (CHR 0x0D) = Some (Some (cl_qb_pos c + Suc (length line)))"
      using qb_strchr_at [OF ok u' dc] by simp
    have le: "Suc (length line) + 2 \<le> unparsed_len c" using ul u by simp
    have nl: "\<not> int (cl_qb_pos c + Suc (length line) - cl_qb_pos c) > int (unparsed_len c) - 2" using le by simp
    have ch: "sds_buf (cl_querybuf c) ! cl_qb_pos c = CHR ''*''" using qb_char [OF ok, of 0] le u by simp
    have rd: "mem_read (sds_buf (cl_querybuf c)) (cl_qb_pos c + 1) (cl_qb_pos c + Suc (length line) - (cl_qb_pos c + 1)) = Some line"
      using qb_read [OF ok, of 1 "length line"] le u by simp
    have num: "string2ll line = Some (int n)" unfolding line_def by (rule string2ll_sdec [OF fs])
    have "mb_header usable fill sv c =
        Some (sv, c\<lparr>cl_qb_pos := cl_qb_pos c + Suc (length line) + 2, cl_multibulklen := n, cl_argv_cap := n\<rparr>, True)"
      unfolding mb_header_def Let_def f bind.bind_lunit option.case if_not_P [OF nl] rd num using av ch n by simp
    moreover have "qb_ok (c\<lparr>cl_qb_pos := cl_qb_pos c + (Suc (length line) + 2)\<rparr>)"
      "unparsed (c\<lparr>cl_qb_pos := cl_qb_pos c + (Suc (length line) + 2)\<rparr>) = drop (Suc (length line) + 2) (unparsed c)"
      by (rule qb_advance [OF ok le])+
    ultimately show ?thesis using go [of "cl_qb_pos c + Suc (length line) + 2"] u v by (simp add: add.assoc)
  next
    assume u: "unparsed c = CHR ''*'' # line @ [CHR 0x0D]" and "net \<noteq> []"
    have f: "strchr (sds_buf (cl_querybuf c)) (cl_qb_pos c) (CHR 0x0D) = Some (Some (cl_qb_pos c + Suc (length line)))"
      using qb_strchr_at [OF ok, of "CHR ''*'' # line" "[]"] u dc by simp
    have "mb_header usable fill sv c = Some (sv, c, False)" using f av ul u by (simp add: mb_header_def Let_def)
    then show ?thesis using wait \<open>net \<noteq> []\<close> by blast
  next
    assume u: "\<forall>y \<in> set (unparsed c). y \<noteq> CHR 0x0D \<and> y \<noteq> CHR 0x00" "length (unparsed c) \<le> Suc (length line)" and "net \<noteq> []"
    have "length line \<le> 20" unfolding line_def by (rule length_sdec_bound [OF fs])
    then have "\<not> unparsed_len c > PROTO_INLINE_MAX_SIZE" using u(2) ul by (simp add: PROTO_INLINE_MAX_SIZE_def)
    then have "mb_header usable fill sv c = Some (sv, c, False)"
      using qb_strchr_none [OF ok u(1)] av by (simp add: mb_header_def)
    then show ?thesis using wait \<open>net \<noteq> []\<close> by blast
  qed simp_all
qed

text \<open>The outcome of a parser on a stream of commands: the next command, or a wait when bytes are missing.\<close>

definition stream_ok :: "redisServer \<Rightarrow> client \<Rightarrow> string list list \<Rightarrow> string \<Rightarrow> redisServer \<times> client \<times> bool \<Rightarrow> bool" where
  "stream_ok sv c cmds net r \<longleftrightarrow>
     (\<exists>c' cmd cs. r = (sv, c', True) \<and> cmds = cmd # cs \<and> cl_argv c' = cmd \<and> unparsed c' @ net = encode cs) \<or>
     (\<exists>c'. r = (sv, c', False) \<and> expects c' cmds net \<and> net \<noteq> [] \<and> cl_flags c' = cl_flags c)"

lemma mid_stream:
  assumes small: "sv_proto_max_bulk_len sv < 2 ^ 60" and m: "mid c args net (encode cs)" and ne: "args \<noteq> []"
    and a: "\<forall>a \<in> set args. int (length a) \<le> sv_proto_max_bulk_len sv"
  shows "\<exists>r. mb_loop usable fill (length args) sv c = Some r \<and> stream_ok sv c ((cl_argv c @ args) # cs) net r"
  using mb_loop_stream [OF small m a, of usable fill]
proof (elim disjE exE conjE)
  fix c' assume "mb_loop usable fill (length args) sv c = Some (sv, c', True)" "cl_argv c' = cl_argv c @ args" "mid c' [] net (encode cs)"
  then show ?thesis by (auto simp: stream_ok_def mid_def)
next
  fix c' got left assume l: "mb_loop usable fill (length args) sv c = Some (sv, c', False)" "args = got @ left" "left \<noteq> []"
    "cl_argv c' = cl_argv c @ got" "mid c' left net (encode cs)" "net \<noteq> []" "cl_flags c' = cl_flags c"
  have "expects c' ((cl_argv c @ args) # cs) net"
    unfolding expects_def using l(2-5) by (intro disjI2 exI [of _ left] exI [of _ cs]) simp
  then show ?thesis using l(1,6,7) by (auto simp: stream_ok_def)
qed

lemma parse_request_stream:
  assumes small: "sv_proto_max_bulk_len sv < 2 ^ 60" and e: "expects c cmds net" and some: "unparsed c \<noteq> []"
    and ok: "\<forall>cmd \<in> set cmds. command_ok sv cmd"
  shows "\<exists>r. parse_request usable fill sv c = Some r \<and> stream_ok sv c cmds net r"
proof (cases "\<exists>args cs. args \<noteq> [] \<and> cmds = (cl_argv c @ args) # cs \<and> mid c args net (encode cs)")
  case True
  then obtain args cs where m: "args \<noteq> []" "cmds = (cl_argv c @ args) # cs" "mid c args net (encode cs)" by blast
  have "cl_reqtype c = PROTO_REQ_MULTIBULK" "cl_multibulklen c = length args" using m(3) by (simp_all add: mid_def)
  then have p: "parse_request usable fill sv c = mb_loop usable fill (length args) sv c"
    using m(1) by (simp add: parse_request_def processMultibulkBuffer_def PROTO_REQ_MULTIBULK_def PROTO_REQ_INLINE_def)
  have "\<forall>a \<in> set args. int (length a) \<le> sv_proto_max_bulk_len sv" using ok m(2) by (simp add: command_ok_def)
  from mid_stream [OF small m(3,1) this] show ?thesis unfolding p m(2) .
next
  case False
  then have i: "qb_ok c" "cl_multibulklen c = 0" "cl_bulklen c = - 1" "cl_argv c = []" "cl_reqtype c \<in> {0, PROTO_REQ_MULTIBULK}"
    "unparsed c @ net = encode cmds" using e by (auto simp: expects_def)
  obtain cmd cs where cmds: "cmds = cmd # cs" using i(6) some by (cases cmds) auto
  have cmd: "cmd \<noteq> []" "length cmd \<le> 1024 * 1024" "\<forall>a \<in> set cmd. int (length a) \<le> sv_proto_max_bulk_len sv"
    using ok cmds by (simp_all add: command_ok_def)
  have s: "unparsed c @ net = ''*'' @ sdec (int (length cmd)) @ CRLF @ (concat (map bulk cmd) @ encode cs)"
    using i(6) cmds by (simp add: resp_def)
  then have "unparsed c ! 0 = CHR ''*''" using some by (cases "unparsed c") auto
  moreover have "0 < unparsed_len c" using some qb_ok_len(2) [OF i(1)] by (metis length_greater_0_conv)
  ultimately have ch: "sds_buf (cl_querybuf c) ! cl_qb_pos c = CHR ''*''" using qb_char [OF i(1), of 0] by simp
  define d where "d = c\<lparr>cl_reqtype := PROTO_REQ_MULTIBULK\<rparr>"
  have d: "qb_ok d" "cl_argv d = []" "cl_multibulklen d = 0" "cl_bulklen d = - 1" "cl_reqtype d = PROTO_REQ_MULTIBULK" "unparsed d = unparsed c"
    "cl_flags d = cl_flags c" using i by (simp_all add: d_def qb_ok_def unparsed_def)
  have cd: "(if cl_reqtype c = 0
               then (if sds_buf (cl_querybuf c) ! cl_qb_pos c = CHR ''*'' then c\<lparr>cl_reqtype := PROTO_REQ_MULTIBULK\<rparr>
                     else c\<lparr>cl_reqtype := PROTO_REQ_INLINE\<rparr>)
               else c) = d" using i(5) ch by (auto simp: d_def)
  have p: "parse_request usable fill sv c = do { (sv, c, ok) \<leftarrow> mb_header usable fill sv d;
      if ok \<and> cl_multibulklen c > 0 then mb_loop usable fill (cl_multibulklen c) sv c else Some (sv, c, ok) }"
    unfolding parse_request_def Let_def cd using d(3,5) by (simp add: processMultibulkBuffer_def PROTO_REQ_MULTIBULK_def PROTO_REQ_INLINE_def)
  have n: "0 < length cmd" using cmd(1) by simp
  show ?thesis
  proof (rule mb_header_stream [OF d(1,2) cmd(2) n s [folded d(6)], of usable fill sv])
    assume w: "mb_header usable fill sv d = Some (sv, d, False)" "net \<noteq> []"
    have "expects d cmds net" unfolding expects_def using d i(6) by simp
    then show ?thesis unfolding p w(1) using w(2) d(7) by (auto simp: stream_ok_def)
  next
    fix q assume h: "mb_header usable fill sv d = Some (sv, d\<lparr>cl_qb_pos := q, cl_multibulklen := length cmd, cl_argv_cap := length cmd\<rparr>, True)"
      "qb_ok (d\<lparr>cl_qb_pos := q\<rparr>)" "unparsed (d\<lparr>cl_qb_pos := q\<rparr>) @ net = concat (map bulk cmd) @ encode cs"
    define b where "b = d\<lparr>cl_qb_pos := q, cl_multibulklen := length cmd, cl_argv_cap := length cmd\<rparr>"
    have "mid b cmd net (encode cs)" using h(2,3) d by (simp add: mid_def b_def qb_ok_def unparsed_def)
    from mid_stream [OF small this cmd(1,3), of usable fill]
    show ?thesis unfolding p h(1) using n d(2,7) cmds by (simp add: b_def stream_ok_def)
  qed
qed

section \<open>The loop over the stream\<close>

text \<open>A connection that takes requests, and a command that is executed on it: the world of the commands
  has a log of the argument vectors, and the connection takes further requests afterwards.\<close>

definition open_conn :: "redisServer \<Rightarrow> client \<Rightarrow> bool" where
  "open_conn sv c \<longleftrightarrow> \<not> sv_clients_paused sv \<and> \<not> has_flag c CLIENT_BLOCKED \<and> \<not> has_flag c CLIENT_CLOSE_AFTER_REPLY \<and>
     \<not> has_flag c CLIENT_CLOSE_ASAP"

definition executes :: "redisServer \<Rightarrow> ('w \<Rightarrow> string list list) \<Rightarrow> 'w run \<Rightarrow> bool" where
  "executes cfg log run \<longleftrightarrow> (\<forall>w sv c. cl_argv c \<noteq> [] \<longrightarrow> ready cfg 3 sv c \<longrightarrow> plain c \<longrightarrow> open_conn sv c \<longrightarrow>
     (\<exists>w' sv' c'. run w sv c = (w', sv', Live c', True) \<and> cl_querybuf c' = cl_querybuf c \<and> cl_qb_pos c' = cl_qb_pos c \<and>
        ready cfg 3 sv' c' \<and> plain c' \<and> open_conn sv' c' \<and> log w' = log w @ [cl_argv c]))"

definition talking :: "redisServer \<Rightarrow> redisServer \<Rightarrow> client \<Rightarrow> string list list \<Rightarrow> string \<Rightarrow> bool" where
  "talking cfg sv c cmds net \<longleftrightarrow> in_inv c \<and> ready cfg 3 sv c \<and> plain c \<and> open_conn sv c \<and> expects c cmds net"

lemma resetClient_open: "open_conn sv (resetClient c) = open_conn sv c"
proof -
  have "has_flag (resetClient c) CLIENT_BLOCKED = has_flag c CLIENT_BLOCKED"
    "has_flag (resetClient c) CLIENT_CLOSE_AFTER_REPLY = has_flag c CLIENT_CLOSE_AFTER_REPLY"
    "has_flag (resetClient c) CLIENT_CLOSE_ASAP = has_flag c CLIENT_CLOSE_ASAP"
    by (rule resetClient_flags, simp add: client_flag_defs)+
  then show ?thesis by (simp add: open_conn_def)
qed

lemma resetClient_expects:
  assumes "qb_ok c" and "unparsed c @ net = encode cs"
  shows "expects (resetClient c) cs net"
proof -
  obtain fl where r: "resetClient c = c\<lparr>cl_argv := [], cl_cmd := None, cl_reqtype := 0, cl_multibulklen := 0, cl_bulklen := - 1, cl_flags := fl\<rparr>"
    using resetClient_shape by blast
  show ?thesis unfolding expects_def r using assms by (simp add: qb_ok_def unparsed_def)
qed

lemma expects_all_parsed:
  assumes "expects c cmds []" and "unparsed c = []"
  shows "cmds = []"
proof -
  have "bulk a \<noteq> []" for a by (simp add: bulk_def)
  then have "\<not> mid c args [] rest" if "args \<noteq> []" for args rest
    using that assms(2) by (cases args) (auto simp: mid_def CRLF_def)
  then have "encode cmds = []" using assms by (auto simp: expects_def)
  then show ?thesis by (cases cmds) (simp_all add: resp_def)
qed

lemma open_stopped:
  assumes "plain c" and "open_conn sv c" and "qb_ok c"
  shows "input_stopped sv c \<longleftrightarrow> unparsed c = []"
proof -
  have "unparsed c = [] \<longleftrightarrow> \<not> cl_qb_pos c < sdslen (cl_querybuf c)"
    using qb_ok_len(2,3) [OF assms(3)] by (metis length_0_conv less_nat_zero_code not_less_iff_gr_or_eq zero_less_diff zero_less_iff_neq_zero)
  then show ?thesis using assms by (simp add: input_stopped_def open_conn_def plain_def has_flag_or)
qed

lemma input_loop_stream:
  assumes al: "allocator usable" and small: "sv_proto_max_bulk_len cfg < 2 ^ 60" and run: "executes cfg log run"
    and "talking cfg sv c cmds net" and "\<forall>cmd \<in> set cmds. command_ok cfg cmd"
  shows "\<exists>w' sv' c' fin left. input_loop usable fill run w sv c = Some (w', sv', Live c') \<and> cmds = fin @ left \<and> log w' = log w @ fin \<and>
    talking cfg sv' c' left net \<and> (net = [] \<longrightarrow> left = []) \<and> sdslen (cl_querybuf c') \<le> sdslen (cl_querybuf c)"
  using assms(4,5)
proof (induction "unparsed_len c" arbitrary: w sv c cmds rule: less_induct)
  case less
  have t: "in_inv c" "ready cfg 3 sv c" "plain c" "open_conn sv c" "expects c cmds net" using less.prems(1) by (simp_all add: talking_def)
  have ok: "qb_ok c" by (rule in_inv_qb [OF t(1)])
  show ?case
  proof (cases "unparsed c = []")
    case True
    then have "input_loop usable fill run w sv c = Some (w, sv, Live c)" using open_stopped [OF t(3,4) ok] by (subst input_loop.simps) simp
    moreover have "net = [] \<longrightarrow> cmds = []" using expects_all_parsed t(5) True by blast
    ultimately show ?thesis using less.prems(1)
      by (intro exI [of _ w] exI [of _ sv] exI [of _ c] exI [of _ "[]"] exI [of _ cmds]) simp
  next
    case some: False
    then have go: "\<not> input_stopped sv c" using open_stopped [OF t(3,4) ok] by simp
    have pos: "0 < unparsed_len c" using some qb_ok_len(2) [OF ok] by (metis length_greater_0_conv)
    have cfg: "sv_config sv = cfg" using t(2) by (simp add: ready_def limits_ok_def)
    then have sm: "sv_proto_max_bulk_len sv < 2 ^ 60" and cm: "\<forall>cmd \<in> set cmds. command_ok sv cmd"
      using small less.prems(2) by (auto simp: sv_config_def command_ok_def)
    have "calm c" using t(3,4) by (simp add: calm_def plain_def open_conn_def)
    moreover have "ready cfg (0 + 3) sv c" using t(2) by simp
    ultimately obtain r where r: "parse_request usable fill sv c = Some r" "parse_ok cfg 0 sv c r"
      using parse_request_safe [OF al sm t(1) pos] by blast
    have st: "stream_ok sv c cmds net r" using parse_request_stream [OF sm t(5) some cm, of usable fill] r(1) by simp
    obtain d where d: "same_rest c d" "sdslen (cl_querybuf d) \<le> sdslen (cl_querybuf c)"
     "r = (sv, d, True) \<and> qb_ok d \<and> unparsed_len d < unparsed_len c \<or> r = (sv, d, False) \<and> in_inv d \<or>
      (\<exists>sv'' c'' e. r = (sv'', c'', False) \<and> in_inv d \<and> refused cfg 0 d e sv'' c'')"
      using r(2) unfolding parse_ok_def by blast
    have dp: "plain d" "ready cfg 3 sv d" "open_conn sv d"
      using t(2-4) same_rest_output(3) [OF d(1)] same_rest_fields(2) [OF d(1)] by (simp_all add: plain_def open_conn_def)
    from st [unfolded stream_ok_def] show ?thesis
    proof (elim disjE exE conjE)
      fix c' assume w: "r = (sv, c', False)" "expects c' cmds net" "net \<noteq> []" "cl_flags c' = cl_flags c"
      have l: "input_loop usable fill run w sv c = Some (w, sv, Live c')" using go r(1) w(1) by (subst input_loop.simps) simp
      have "\<not> has_flag c' CLIENT_CLOSE_AFTER_REPLY" using t(4) w(4) by (simp add: open_conn_def has_flag_def)
      then have "c' = d \<and> in_inv d" using d(3) w(1) by (auto simp: refused_def)
      then show ?thesis using l w dp d(2)
        by (intro exI [of _ w] exI [of _ sv] exI [of _ c'] exI [of _ "[]"] exI [of _ cmds]) (simp add: talking_def)
    next
      fix c' cmd cs assume q: "r = (sv, c', True)" "cmds = cmd # cs" "cl_argv c' = cmd" "unparsed c' @ net = encode cs"
      have cd: "c' = d" "qb_ok d" "unparsed_len d < unparsed_len c" using d(3) q(1) by auto
      have av: "cl_argv d \<noteq> []" using cm q(2,3) cd(1) by (simp add: command_ok_def)
      from run [unfolded executes_def, rule_format, OF av dp(2,1,3), of w]
      obtain w1 sv1 c1 where x: "run w sv d = (w1, sv1, Live c1, True)" "cl_querybuf c1 = cl_querybuf d" "cl_qb_pos c1 = cl_qb_pos d"
        "ready cfg 3 sv1 c1" "plain c1" "open_conn sv1 c1" "log w1 = log w @ [cmd]" using q(3) cd(1) by blast
      have qc: "qb_ok c1" "unparsed_len c1 = unparsed_len d" "unparsed c1 = unparsed d"
        using cd(2) x(2,3) by (simp_all add: qb_ok_def unparsed_len_def unparsed_def)
      have "after_command c1 = resetClient c1" using after_command_plain [OF x(5)] x(6) by (simp add: open_conn_def)
      then have e: "input_loop usable fill run w sv c = input_loop usable fill run w1 sv1 (resetClient c1)"
        using go r(1) q(1) av cd(1) x(1) by (subst input_loop.simps) simp
      have "expects (resetClient c1) cs net" using resetClient_expects [OF qc(1)] q(4) qc(3) cd(1) by simp
      then have tk: "talking cfg sv1 (resetClient c1) cs net"
        using x(4-6) qc(1) by (simp add: talking_def resetClient_keeps resetClient_open resetClient_plain)
      have nl: "unparsed_len (resetClient c1) < unparsed_len c" using cd(3) qc(2) by (simp add: resetClient_keeps)
      have "\<forall>cmd \<in> set cs. command_ok cfg cmd" using less.prems(2) q(2) by simp
      from less.hyps [OF nl tk this, of w1] obtain w' sv' c'' fin left where
        i: "input_loop usable fill run w1 sv1 (resetClient c1) = Some (w', sv', Live c'')" "cs = fin @ left" "log w' = log w1 @ fin"
          "talking cfg sv' c'' left net" "net = [] \<longrightarrow> left = []" "sdslen (cl_querybuf c'') \<le> sdslen (cl_querybuf d)"
        unfolding resetClient_keeps(4) x(2) by blast
      then show ?thesis using e q(2) x(7) d(2)
        by (intro exI [of _ w'] exI [of _ sv'] exI [of _ c''] exI [of _ "cmd # fin"] exI [of _ left]) simp
    qed
  qed
qed

section \<open>The connection over the stream\<close>

lemma expects_cong:
  assumes "expects c cmds net" and "qb_ok c'" and "unparsed c' @ net' = unparsed c @ net"
    and "cl_reqtype c' = cl_reqtype c" "cl_multibulklen c' = cl_multibulklen c" "cl_bulklen c' = cl_bulklen c" "cl_argv c' = cl_argv c"
      "cl_argv_cap c' = cl_argv_cap c"
  shows "expects c' cmds net'"
proof -
  have "mid c' args net' rest" if "mid c args net rest" for args rest using that assms(2-) by (simp add: mid_def)
  then show ?thesis using assms(1) unfolding expects_def assms(3-) using assms(2) by blast
qed

lemma talking_cong:
  assumes c: "talking cfg sv c cmds (bs @ net)" and ok: "qb_ok c'" and u: "unparsed c' = unparsed c @ bs"
    and f: "cl_reqtype c' = cl_reqtype c" "cl_multibulklen c' = cl_multibulklen c" "cl_bulklen c' = cl_bulklen c" "cl_argv c' = cl_argv c"
      "cl_argv_cap c' = cl_argv_cap c" "cl_flags c' = cl_flags c" "ready cfg 3 sv' c'" "sv_clients_paused sv' = sv_clients_paused sv"
  shows "talking cfg sv' c' cmds net"
proof -
  have i: "in_inv c" "plain c" "open_conn sv c" "expects c cmds (bs @ net)" using c by (simp_all add: talking_def)
  have q: "qb_ok c" by (rule in_inv_qb [OF i(1)])
  have "0 < unparsed_len c' \<and> unparsed c' ! 0 = CHR ''*''" if "0 < unparsed_len c" "unparsed c ! 0 = CHR ''*''"
    using that u qb_ok_len(2) [OF q] qb_ok_len(2) [OF ok] by (simp add: nth_append)
  then have "in_inv c'" using i(1) ok f by (auto simp: in_inv_def)
  moreover have "expects c' cmds net" by (rule expects_cong [OF i(4) ok]) (use u f in simp_all)
  ultimately show ?thesis using i f by (simp add: talking_def plain_def open_conn_def has_flag_def)
qed

lemma processInputBuffer_stream:
  assumes "allocator usable" and "sv_proto_max_bulk_len cfg < 2 ^ 60" and "executes cfg log run"
    and "talking cfg sv c cmds net" and "\<forall>cmd \<in> set cmds. command_ok cfg cmd"
  shows "\<exists>w' sv' c' fin left. processInputBuffer usable fill run w sv c = Some (w', sv', c') \<and> cmds = fin @ left \<and> log w' = log w @ fin \<and>
    talking cfg sv' c' left net \<and> (net = [] \<longrightarrow> left = []) \<and> sdslen (cl_querybuf c') \<le> sdslen (cl_querybuf c)"
proof -
  obtain w' sv' c' fin left where l: "input_loop usable fill run w sv c = Some (w', sv', Live c')" "cmds = fin @ left" "log w' = log w @ fin"
    "talking cfg sv' c' left net" "net = [] \<longrightarrow> left = []" "sdslen (cl_querybuf c') \<le> sdslen (cl_querybuf c)"
    using input_loop_stream [OF assms, of fill w] by blast
  have ok: "qb_ok c'" using l(4) by (simp add: talking_def in_inv_qb)
  show ?thesis
  proof (cases "cl_qb_pos c' = 0")
    case True
    then have "processInputBuffer usable fill run w sv c = Some (w', sv', c')" using l(1) by (simp add: processInputBuffer_def)
    then show ?thesis using l(2-6) by blast
  next
    case False
    obtain q where q: "sdsrange (cl_querybuf c') (int (cl_qb_pos c')) (- 1) = Some q"
      "qb_ok (c'\<lparr>cl_querybuf := q, cl_qb_pos := 0\<rparr>)" "unparsed (c'\<lparr>cl_querybuf := q, cl_qb_pos := 0\<rparr>) = unparsed c'"
      using qb_trim [OF ok] by blast
    define d where "d = c'\<lparr>cl_querybuf := q, cl_qb_pos := 0\<rparr>"
    have p: "processInputBuffer usable fill run w sv c = Some (w', sv', d)" using l(1) False q(1) by (simp add: processInputBuffer_def d_def)
    have "ready cfg 3 sv' d = ready cfg 3 sv' c'" by (rule ready_cong) (simp_all add: d_def)
    then have rd: "ready cfg 3 sv' d" using l(4) by (simp add: talking_def)
    have t: "talking cfg sv' c' left ([] @ net)" using l(4) by simp
    have "talking cfg sv' d left net" by (rule talking_cong [OF t]) (use q(2,3) rd in \<open>simp_all add: d_def\<close>)
    moreover have "sdslen (cl_querybuf d) \<le> sdslen (cl_querybuf c')"
      using qb_ok_len(2,3) [OF q(2)] qb_ok_len(2,3) [OF ok] q(3) by (simp add: d_def)
    then have "sdslen (cl_querybuf d) \<le> sdslen (cl_querybuf c)" using l(6) by (rule order_trans)
    ultimately show ?thesis using p l(2,3,5) by blast
  qed
qed

lemma readQueryFromClient_stream:
  assumes al: "allocator usable" and small: "sv_proto_max_bulk_len cfg < 2 ^ 60" "sv_client_max_querybuf_len cfg < 2 ^ 61"
    and run: "executes cfg log run" and c: "talking cfg sv c cmds (bs @ net)" and cmds: "\<forall>cmd \<in> set cmds. command_ok cfg cmd"
    and rd: "read (query_readlen c) = Read_Data bs" "0 < length bs" "length bs \<le> query_readlen c"
    and room: "sdslen (cl_querybuf c) + length bs \<le> sv_client_max_querybuf_len cfg"
  shows "\<exists>w' sv' c' fin left. readQueryFromClient usable fill run feed read w sv c = Some (w', sv', Live c') \<and> cmds = fin @ left \<and>
    log w' = log w @ fin \<and> talking cfg sv' c' left net \<and> (net = [] \<longrightarrow> left = []) \<and>
    sdslen (cl_querybuf c') \<le> sdslen (cl_querybuf c) + length bs"
proof -
  define c0 where "c0 = (if cl_querybuf_peak c < sdslen (cl_querybuf c) then c\<lparr>cl_querybuf_peak := sdslen (cl_querybuf c)\<rparr> else c)"
  have c0: "cl_querybuf c0 = cl_querybuf c" "cl_qb_pos c0 = cl_qb_pos c" by (simp_all add: c0_def)
  have ok: "qb_ok c" using c by (simp add: talking_def in_inv_qb)
  then have q: "sds_inv (cl_querybuf c)" "sdslen (cl_querybuf c) < 2 ^ 61" by (simp_all add: qb_ok_def)
  have nm: "cl_flags c0 AND CLIENT_MASTER = 0" using c by (simp add: c0_def talking_def plain_def has_flag_def)
  obtain q1 b q2 where r: "sdsMakeRoomFor fill (cl_querybuf c) (query_readlen c) = Some q1" "sds_inv q1" "sdslen q1 = sdslen (cl_querybuf c)"
    "mem_write (sds_buf q1) (sdslen (cl_querybuf c)) bs = Some b"
    "sdsIncrLen (q1\<lparr>sds_buf := b\<rparr>) (int (length bs)) = Some q2" "sds_inv q2" "contents q2 = contents (cl_querybuf c) @ bs"
    using qb_receive [OF q query_readlen_bounds(2) rd(2,3)] by blast
  define d where "d = c0\<lparr>cl_querybuf := q2, cl_lastinteraction := sv_unixtime sv\<rparr>"
  define sv1 where "sv1 = sv\<lparr>sv_stat_net_input_bytes := sv_stat_net_input_bytes sv + int (length bs)\<rparr>"
  have len: "sdslen q2 = sdslen (cl_querybuf c) + length bs"
    using arg_cong [OF r(7), of length] length_contents [of q2] length_contents [of "cl_querybuf c"] r(6) q(1) by (simp add: sds_inv_def)
  have cfg: "sv_config sv = cfg" "ready cfg 3 sv c" using c by (auto simp: talking_def ready_def limits_ok_def)
  then have "\<not> sdslen q2 > sv_client_max_querybuf_len sv1" using room len by (auto simp: sv_config_def sv1_def)
  then have e: "readQueryFromClient usable fill run feed read w sv c =
      do { (w, sv, c) \<leftarrow> processInputBuffer usable fill run w sv1 d; Some (w, sv, Live c) }"
    using nm r rd(1)
    by (simp add: readQueryFromClient_def Let_def c0_def [symmetric] c0 processInputBufferAndReplicate_def sv1_def [symmetric] d_def has_flag_def)
  have "sdslen q2 < 2 ^ 61" using room len small(2) by linarith
  then have dok: "qb_ok d" "unparsed d = unparsed c @ bs"
    using ok r(6,7) c0 qb_ok_len(1) [OF ok] len by (simp_all add: qb_ok_def d_def unparsed_def)
  have "limits_ok cfg sv1 = limits_ok cfg sv" by (simp add: limits_ok_def sv_config_def sv1_def)
  then have "ready cfg 3 sv1 d = ready cfg 3 sv d" by (simp add: ready_def)
  moreover have "ready cfg 3 sv d = ready cfg 3 sv c" by (rule ready_cong) (simp_all add: d_def c0_def)
  ultimately have "talking cfg sv1 d cmds net" using cfg(2) by (intro talking_cong [OF c dok]) (simp_all add: d_def c0_def sv1_def)
  from processInputBuffer_stream [OF al small(1) run this cmds, of fill w] obtain w' sv' c' fin left where
    "processInputBuffer usable fill run w sv1 d = Some (w', sv', c')" "cmds = fin @ left" "log w' = log w @ fin"
    "talking cfg sv' c' left net" "net = [] \<longrightarrow> left = []" "sdslen (cl_querybuf c') \<le> sdslen (cl_querybuf d)" by blast
  then show ?thesis unfolding e using len
    by (intro exI [of _ w'] exI [of _ sv'] exI [of _ c'] exI [of _ fin] exI [of _ left]) (simp add: d_def)
qed

text \<open>A stream \<open>s\<close> in the socket: an event with the number \<open>z\<close> finds \<open>z + 1\<close> more bytes of it, or the rest.\<close>

fun serve ::
  "(nat \<Rightarrow> nat) \<Rightarrow> (nat \<Rightarrow> char) \<Rightarrow> 'w run \<Rightarrow> ('w \<Rightarrow> string \<Rightarrow> 'w) \<Rightarrow> nat list \<Rightarrow> string \<Rightarrow> 'w \<Rightarrow> redisServer \<Rightarrow> client_state \<Rightarrow>
     ('w \<times> redisServer \<times> client_state \<times> string) option" where
  "serve usable fill run feed (z # zs) s w sv (Live c) =
     (if s = [] then Some (w, sv, Live c, s)
      else do { (w, sv, st) \<leftarrow> readQueryFromClient usable fill run feed (\<lambda>n. Read_Data (take (min (Suc z) n) s)) w sv c;
                serve usable fill run feed zs (drop (min (Suc z) (query_readlen c)) s) w sv st })"
| "serve usable fill run feed zs s w sv st = Some (w, sv, st, s)"

lemma serve_stream:
  assumes al: "allocator usable" and small: "sv_proto_max_bulk_len cfg < 2 ^ 60" "sv_client_max_querybuf_len cfg < 2 ^ 61"
    and run: "executes cfg log run" and "talking cfg sv c cmds s" and "\<forall>cmd \<in> set cmds. command_ok cfg cmd" and "s = [] \<longrightarrow> cmds = []"
    and "sdslen (cl_querybuf c) + length s \<le> sv_client_max_querybuf_len cfg" and "length s \<le> length zs"
  shows "\<exists>w' sv' c'. serve usable fill run feed zs s w sv (Live c) = Some (w', sv', Live c', []) \<and> log w' = log w @ cmds \<and>
    talking cfg sv' c' [] []"
  using assms(5-)
proof (induction zs arbitrary: s w sv c cmds)
  case (Cons z zs)
  show ?case
  proof (cases "s = []")
    case True
    then show ?thesis using Cons.prems by simp
  next
    case False
    define n where "n = min (Suc z) (query_readlen c)"
    have n: "0 < n" "n \<le> query_readlen c" using query_readlen_bounds(1) [of c] by (simp_all add: n_def)
    have bs: "0 < length (take n s)" "length (take n s) \<le> query_readlen c" using n False by simp_all
    have t: "talking cfg sv c cmds (take n s @ drop n s)" using Cons.prems(1) by simp
    define rd where "rd = (\<lambda>n. Read_Data (take (min (Suc z) n) s))"
    have rdn: "rd (query_readlen c) = Read_Data (take n s)" by (simp add: n_def rd_def)
    have room: "sdslen (cl_querybuf c) + length (take n s) \<le> sv_client_max_querybuf_len cfg" using Cons.prems(4) by simp
    obtain w1 sv1 c1 fin left where r:
      "readQueryFromClient usable fill run feed rd w sv c = Some (w1, sv1, Live c1)"
      "cmds = fin @ left" "log w1 = log w @ fin" "talking cfg sv1 c1 left (drop n s)" "drop n s = [] \<longrightarrow> left = []"
      "sdslen (cl_querybuf c1) \<le> sdslen (cl_querybuf c) + length (take n s)"
      using readQueryFromClient_stream [where read = rd, OF al small run t Cons.prems(2) rdn bs room, of fill feed w] by blast
    have e: "serve usable fill run feed (z # zs) s w sv (Live c) = serve usable fill run feed zs (drop n s) w1 sv1 (Live c1)"
      using False r(1) by (simp add: n_def rd_def)
    have l: "length (take n s) + length (drop n s) = length s" by (metis append_take_drop_id length_append)
    have h: "\<forall>cmd \<in> set left. command_ok cfg cmd" using Cons.prems(2) r(2) by simp
    have h2: "sdslen (cl_querybuf c1) + length (drop n s) \<le> sv_client_max_querybuf_len cfg" using Cons.prems(4) r(6) l by linarith
    have h3: "length (drop n s) \<le> length zs" using Cons.prems(5) l bs(1) unfolding list.size by linarith
    from Cons.IH [OF r(4) h r(5) h2 h3, of w1] obtain w' sv' c' where
      "serve usable fill run feed zs (drop n s) w1 sv1 (Live c1) = Some (w', sv', Live c', [])" "log w' = log w1 @ left"
      "talking cfg sv' c' [] []" by blast
    moreover from this(2) have "log w' = log w @ cmds" unfolding r(2,3) by simp
    ultimately show ?thesis unfolding e by blast
  qed
next
  case Nil
  have s: "s = []" using Nil.prems(5) by simp
  have cmds: "cmds = []" using Nil.prems(3) s by blast
  have "serve usable fill run feed [] [] w sv (Live c) = Some (w, sv, Live c, [])" by (rule serve.simps)
  moreover have "talking cfg sv c [] []" using Nil.prems(1) unfolding s cmds .
  ultimately show ?case unfolding s cmds append_Nil2 by blast
qed

section \<open>The properties of the connection\<close>

text \<open>C1: Every request is executed exactly once and in the order sent: a stream of well-formed commands, cut into
  pieces of any size by the network, leaves the log of the commands as sent, reads the stream to its end and
  keeps the connection open for further requests.\<close>

theorem requests_are_executed:
  assumes "allocator usable" and "sv_proto_max_bulk_len cfg < 2 ^ 60" and "sv_client_max_querybuf_len cfg < 2 ^ 61"
    and "executes cfg log run" and "\<forall>cmd \<in> set cmds. command_ok cfg cmd" and "talking cfg sv c [] []"
    and "sdslen (cl_querybuf c) + length (encode cmds) \<le> sv_client_max_querybuf_len cfg" and "length (encode cmds) \<le> length zs"
  shows "\<exists>w' sv' c'. serve usable fill run feed zs (encode cmds) w sv (Live c) = Some (w', sv', Live c', []) \<and>
    log w' = log w @ cmds \<and> talking cfg sv' c' [] []"
proof -
  have "\<not> mid c args [] (encode cs)" if "[] = (cl_argv c @ args) # cs" for args cs using that by simp
  then have i: "qb_ok c" "cl_multibulklen c = 0" "cl_bulklen c = - 1" "cl_argv c = []" "cl_reqtype c \<in> {0, PROTO_REQ_MULTIBULK}" "unparsed c = []"
    using assms(6) by (auto simp: talking_def expects_def)
  then have "expects c cmds (encode cmds)" by (simp add: expects_def)
  then have t: "talking cfg sv c cmds (encode cmds)" using assms(6) by (simp add: talking_def)
  have "encode cmds = [] \<longrightarrow> cmds = []" by (cases cmds) (simp_all add: resp_def)
  from serve_stream [OF assms(1-4) t assms(5) this assms(7,8), of fill feed w] show ?thesis .
qed

lemma demo_executes:
  "executes cfg (\<lambda>w. w) (\<lambda>w sv c. (w @ [cl_argv c], sv, Live (c\<lparr>cl_btype := BLOCKED_NONE\<rparr>), True))"
  unfolding executes_def
proof (intro allI impI)
  fix w :: "string list list" and sv c assume "cl_argv c \<noteq> []" "ready cfg 3 sv c" "plain c" "open_conn sv c"
  moreover have "ready cfg 3 sv (c\<lparr>cl_btype := BLOCKED_NONE\<rparr>) = ready cfg 3 sv c" by (rule ready_cong) simp_all
  ultimately show "\<exists>w' sv' c'. (w @ [cl_argv c], sv, Live (c\<lparr>cl_btype := BLOCKED_NONE\<rparr>), True) = (w', sv', Live c', True) \<and>
      cl_querybuf c' = cl_querybuf c \<and> cl_qb_pos c' = cl_qb_pos c \<and> ready cfg 3 sv' c' \<and> plain c' \<and> open_conn sv' c' \<and> w' = w @ [cl_argv c]"
    by (intro exI [of _ "w @ [cl_argv c]"] exI [of _ sv] exI [of _ "c\<lparr>cl_btype := BLOCKED_NONE\<rparr>"])
      (simp add: plain_def open_conn_def has_flag_def)
qed

lemma demo_shape: "cl_argv demo_client = []" "cl_multibulklen demo_client = 0" "cl_bulklen demo_client = - 1" "cl_reqtype demo_client = 0"
  "contents (cl_querybuf demo_client) = []" "sdslen (cl_querybuf demo_client) = 0" "cl_qb_pos demo_client = 0" "cl_flags demo_client = 0"
proof -
  obtain c where c: "createClient (\<lambda>_. CHR ''?'') 7 0 5 = Some c" using createClient_Some by blast
  obtain q where q: "sdsempty (\<lambda>_. CHR ''?'') = Some q" "sds_inv q" "contents q = []"
    using sdsnewlen_correct [of 0 "[]" "\<lambda>_. CHR ''?''"] unfolding sdsempty_def by auto
  have l: "sdslen q = 0" using q(2,3) length_contents [of q] by (simp add: sds_inv_def)
  have d: "demo_client = c" using c by (simp add: demo_client_def)
  show "cl_argv demo_client = []" "cl_multibulklen demo_client = 0" "cl_bulklen demo_client = - 1" "cl_reqtype demo_client = 0"
    "contents (cl_querybuf demo_client) = []" "sdslen (cl_querybuf demo_client) = 0" "cl_qb_pos demo_client = 0" "cl_flags demo_client = 0"
    unfolding d using c q l by (auto simp: createClient_def)
qed

lemma demo_talking: "talking (sv_config demo_server) demo_server demo_client [] []"
proof -
  have c: "in_inv demo_client" "ready (sv_config demo_server) 3 demo_server demo_client" "plain demo_client"
    using demo_conn_ok demo_shape by (auto simp: conn_ok_def has_flag_def)
  moreover have "open_conn demo_server demo_client" using demo_shape(8) by (simp add: open_conn_def has_flag_def) (simp add: demo_server_def)
  moreover have "expects demo_client [] []" using demo_shape in_inv_qb [OF c(1)] by (simp add: expects_def unparsed_def)
  ultimately show ?thesis by (simp add: talking_def)
qed

theorem requests_are_executed_witness:
  "\<exists>w' sv' c'. serve (\<lambda>n. n) (\<lambda>_. CHR ''?'') (\<lambda>w sv c. (w @ [cl_argv c], sv, Live (c\<lparr>cl_btype := BLOCKED_NONE\<rparr>), True)) (\<lambda>w bs. w)
      (replicate 40 2) (encode [[''GET'', ''k''], [''DEL'']]) [] demo_server (Live demo_client) = Some (w', sv', Live c', []) \<and>
    w' = [] @ [[''GET'', ''k''], [''DEL'']] \<and> talking (sv_config demo_server) sv' c' [] []"
proof -
  have a: "allocator (\<lambda>n. n)" by (simp add: allocator_def)
  have s: "sv_proto_max_bulk_len (sv_config demo_server) < 2 ^ 60" "sv_client_max_querybuf_len (sv_config demo_server) < 2 ^ 61"
    by (simp_all add: sv_config_def demo_server_def)
  have c: "\<forall>cmd \<in> set [[''GET'', ''k''], [''DEL'']]. command_ok (sv_config demo_server) cmd"
    by (simp add: command_ok_def sv_config_def demo_server_def)
  have "length (encode [[''GET'', ''k''], [''DEL'']]) = 33" by code_simp
  then have l: "sdslen (cl_querybuf demo_client) + length (encode [[''GET'', ''k''], [''DEL'']]) \<le> sv_client_max_querybuf_len (sv_config demo_server)"
    "length (encode [[''GET'', ''k''], [''DEL'']]) \<le> length (replicate 40 (2 :: nat))"
    using demo_shape(6) by (simp_all add: sv_config_def demo_server_def)
  show ?thesis by (rule requests_are_executed [where log = "\<lambda>w. w", OF a s demo_executes c demo_talking l])
qed

text \<open>A new connection that has received the text \<open>s\<close>.\<close>

definition demo_received :: "string \<Rightarrow> client" where
  "demo_received s = demo_client\<lparr>cl_querybuf := the (sdsnewlen (\<lambda>_. CHR ''?'') (INIT s) (length s))\<rparr>"

lemma demo_received_facts:
  assumes "length s < 100"
  shows "in_inv (demo_received s)" and "unparsed (demo_received s) = s" and "cl_reqtype (demo_received s) = 0"
    and "ready (sv_config demo_server) 3 demo_server (demo_received s)" and "plain (demo_received s)"
    and "open_conn demo_server (demo_received s)" and "expects (demo_received s) cmds net = (s @ net = encode cmds)"
proof -
  obtain q where q: "sdsnewlen (\<lambda>_. CHR ''?'') (INIT s) (length s) = Some q" "sds_inv q" "contents q = s"
    using sdsnewlen_correct [of "length s" s "\<lambda>_. CHR ''?''"] assms by auto
  have l: "sdslen q = length s" using q(2,3) length_contents [of q] by (simp add: sds_inv_def)
  have d: "demo_received s = demo_client\<lparr>cl_querybuf := q\<rparr>" using q(1) by (simp add: demo_received_def)
  have t: "ready (sv_config demo_server) 3 demo_server demo_client" "plain demo_client" "open_conn demo_server demo_client"
    using demo_talking by (simp_all add: talking_def)
  have ok: "qb_ok (demo_received s)" unfolding d using q(2) l assms demo_shape(7) by (simp add: qb_ok_def)
  then show "in_inv (demo_received s)" unfolding d using demo_shape by (simp add: in_inv_def PROTO_REQ_MULTIBULK_def)
  show u: "unparsed (demo_received s) = s" unfolding d using q(3) demo_shape(7) by (simp add: unparsed_def)
  show "cl_reqtype (demo_received s) = 0" "plain (demo_received s)" "open_conn demo_server (demo_received s)"
    unfolding d using demo_shape(4) t(2,3) by (simp_all add: plain_def open_conn_def has_flag_def)
  have "ready (sv_config demo_server) 3 demo_server (demo_received s) = ready (sv_config demo_server) 3 demo_server demo_client"
    unfolding d by (rule ready_cong) simp_all
  then show "ready (sv_config demo_server) 3 demo_server (demo_received s)" using t(1) by simp
  have "\<not> mid (demo_received s) args net rest" if "args \<noteq> []" for args rest
    unfolding d using that demo_shape(2) by (simp add: mid_def)
  then show "expects (demo_received s) cmds net = (s @ net = encode cmds)"
    using ok u demo_shape(1-4) unfolding expects_def by (auto simp: d)
qed

text \<open>C17: A header with a bad argument count ends the connection: nothing is executed, the client is told why,
  it is marked to be closed after its replies, and none of its further bytes is looked at.\<close>

theorem bad_header_is_refused:
  assumes al: "allocator usable" and "in_inv c" and "cl_reqtype c = 0" and "ready cfg 3 sv c" and "plain c" and "open_conn sv c"
    and u: "unparsed c = CHR ''*'' # line @ CRLF @ tail" and line: "\<forall>x \<in> set line. x \<noteq> CHR 0x0D \<and> x \<noteq> CHR 0x00"
    and bad: "case string2ll line of None \<Rightarrow> True | Some ll \<Rightarrow> ll > 1024 * 1024"
  shows "\<exists>sv' c'. processInputBuffer usable fill run w sv c = Some (w, sv', c') \<and> has_flag c' CLIENT_CLOSE_AFTER_REPLY \<and>
    pending c' = pending c @ (if may_queue c then ''-ERR Protocol error: invalid multibulk length'' @ CRLF else []) \<and>
    (\<forall>sv. input_stopped sv c')"
proof -
  have ok: "qb_ok c" by (rule in_inv_qb [OF assms(2)])
  have idle: "cl_multibulklen c = 0" "cl_argv c = []" using assms(2,3) by (auto simp: in_inv_def PROTO_REQ_MULTIBULK_def split: if_splits)
  define d where "d = c\<lparr>cl_reqtype := PROTO_REQ_MULTIBULK\<rparr>"
  have d: "qb_ok d" "cl_argv d = []" "cl_multibulklen d = 0" "unparsed d = unparsed c" "unparsed_len d = unparsed_len c"
    "cl_querybuf d = cl_querybuf c" "cl_qb_pos d = cl_qb_pos c"
    using ok idle by (simp_all add: d_def qb_ok_def unparsed_def unparsed_len_def)
  have sr: "same_rest c d" by (simp add: d_def same_rest_def)
  have le: "Suc (length line) + 2 \<le> unparsed_len c" using qb_ok_len(2) [OF ok] u by simp
  have ch: "sds_buf (cl_querybuf c) ! cl_qb_pos c = CHR ''*''" using qb_char [OF ok, of 0] le u by simp
  have "unparsed d = (CHR ''*'' # line) @ CHR 0x0D # CHR 0x0A # tail" using u d(4) by (simp add: CRLF_def)
  then have f: "strchr (sds_buf (cl_querybuf d)) (cl_qb_pos d) (CHR 0x0D) = Some (Some (cl_qb_pos d + Suc (length line)))"
    using qb_strchr_at [OF d(1), of "CHR ''*'' # line"] line by simp
  have nl: "\<not> int (cl_qb_pos d + Suc (length line) - cl_qb_pos d) > int (unparsed_len d) - 2" using le d(5) by simp
  have rd: "mem_read (sds_buf (cl_querybuf d)) (cl_qb_pos d + 1) (cl_qb_pos d + Suc (length line) - (cl_qb_pos d + 1)) = Some line"
    using qb_read [OF d(1), of 1 "length line"] le u d(4,5) by simp
  define e where "e = ''Protocol error: invalid multibulk length''"
  have h: "mb_header usable fill sv d = do { (sv, c) \<leftarrow> protocol_error usable fill sv d e; Some (sv, c, False) }"
    unfolding mb_header_def Let_def f bind.bind_lunit option.case if_not_P [OF nl] rd e_def
    using d(2,6,7) ch bad by (cases "string2ll line") simp_all
  have "ready cfg (0 + 3) sv d" "calm d"
    using assms(4-6) same_rest_output [OF sr] by (simp_all add: calm_def plain_def open_conn_def)
  moreover have "length e < 2 ^ 30" by (simp add: e_def)
  ultimately obtain sv' c' where p: "protocol_error usable fill sv d e = Some (sv', c')" "refused cfg 0 d e sv' c'"
    using protocol_error_correct [OF al] by blast
  have "parse_request usable fill sv c = Some (sv', c', False)"
    using assms(3) ch h p(1) d(3)
    by (simp add: parse_request_def processMultibulkBuffer_def d_def PROTO_REQ_MULTIBULK_def PROTO_REQ_INLINE_def)
  moreover have "\<not> input_stopped sv c" using open_stopped [OF assms(5,6) ok] u by simp
  ultimately have l: "input_loop usable fill run w sv c = Some (w, sv', Live c')" by (subst input_loop.simps) simp
  have r: "has_flag c' CLIENT_CLOSE_AFTER_REPLY" "pending c' = pending c @ (if may_queue c then ''-ERR '' @ e @ CRLF else [])"
    "cl_querybuf c' = cl_querybuf c" "cl_qb_pos c' = cl_qb_pos c"
    using p(2) same_rest_output [OF sr] d(6,7) by (simp_all add: refused_def inputs_def error_line_def e_def)
  have stop: "input_stopped sv x" if "has_flag x CLIENT_CLOSE_AFTER_REPLY" for sv x using that by (simp add: input_stopped_def has_flag_or)
  have ok': "qb_ok c'" using ok r(3,4) by (simp add: qb_ok_def)
  obtain q where q: "sdsrange (cl_querybuf c') (int (cl_qb_pos c')) (- 1) = Some q" using qb_trim [OF ok'] by blast
  define c'' where "c'' = (if cl_qb_pos c' \<noteq> 0 then c'\<lparr>cl_querybuf := q, cl_qb_pos := 0\<rparr> else c')"
  have "processInputBuffer usable fill run w sv c = Some (w, sv', c'')" using l q by (simp add: processInputBuffer_def c''_def)
  moreover have "has_flag c'' CLIENT_CLOSE_AFTER_REPLY" "pending c'' = pending c'"
    using r(1) by (simp_all add: c''_def has_flag_def pending_def outtext_def)
  ultimately show ?thesis using r(2) stop [of c''] by (simp add: e_def)
qed

theorem bad_header_is_refused_witness:
  "\<exists>sv' c'. processInputBuffer (\<lambda>n. n) (\<lambda>_. CHR ''?'') (\<lambda>w sv c. (Suc w, sv, Live c, True)) 0 demo_server (demo_received (''*x'' @ CRLF)) =
      Some (0, sv', c') \<and> has_flag c' CLIENT_CLOSE_AFTER_REPLY \<and>
    pending c' = pending (demo_received (''*x'' @ CRLF)) @
      (if may_queue (demo_received (''*x'' @ CRLF)) then ''-ERR Protocol error: invalid multibulk length'' @ CRLF else []) \<and>
    (\<forall>sv. input_stopped sv c')"
proof -
  have l: "length (''*x'' @ CRLF) < 100" by (simp add: CRLF_def)
  note f = demo_received_facts [OF l]
  have a: "allocator (\<lambda>n. n)" by (simp add: allocator_def)
  have u: "unparsed (demo_received (''*x'' @ CRLF)) = CHR ''*'' # ''x'' @ CRLF @ []" using f(2) by simp
  have n: "string2ll ''x'' = None" by code_simp
  show ?thesis by (rule bad_header_is_refused [OF a f(1,3-6) u]) (simp_all add: n)
qed




end
