(* ===== verification/T_Set.thy ===== *)
theory T_Set
  imports Intset Util Sds Dict_Scan
begin

text \<open>
  The set objects of \<open>t_set.c\<close>: a set of strings is an integer set while all its members are
  integers and there are few of them, and a hash table otherwise. The model composes the integer
  sets of \<open>Intset\<close>, the hash tables of \<open>Dict\<close>, the number conversion of \<open>Util\<close> and the strings of \<open>Sds\<close>.

  An object is the value of its \<open>ptr\<close> tagged with its \<open>encoding\<close>; the branches for an unknown encoding
  cannot be reached. Use of the wrong member of the iterator is the value \<open>None\<close>. A string is its contents.
\<close>

section \<open>The code\<close>

text \<open>What the operations read of the server: \<open>dict_can_resize\<close>, the seed of the hash function,
  \<open>set_max_intset_entries\<close>, and the contents of fresh memory.\<close>

record setenv =
  se_can :: bool
  se_seed :: "8 word list"
  se_max :: nat
  se_fill8 :: "nat \<Rightarrow> byte"
  se_fill :: "nat \<Rightarrow> char"

datatype set_obj = OBJ_ENCODING_INTSET intset | OBJ_ENCODING_HT "(string, unit) dict"

datatype setTypeIterator = SI_HT "(string, unit) dictIterator" | SI_INTSET nat

definition isSdsRepresentableAsLongLong :: "string \<Rightarrow> int option" where
  "isSdsRepresentableAsLongLong s = string2ll s"

definition HASHTABLE_MIN_FILL :: nat where "HASHTABLE_MIN_FILL = 10"

definition htNeedsResize :: "(string, unit) dict \<Rightarrow> bool" where
  "htNeedsResize d =
     (dictSlots d > DICT_HT_INITIAL_SIZE \<and> dictSize d * 100 div dictSlots d < HASHTABLE_MIN_FILL)"

definition createSetObject :: set_obj where
  "createSetObject = OBJ_ENCODING_HT dictCreate"

definition createIntsetObject :: set_obj where
  "createIntsetObject = OBJ_ENCODING_INTSET intsetNew"

definition setTypeCreate :: "string \<Rightarrow> set_obj" where
  "setTypeCreate v = (if isSdsRepresentableAsLongLong v \<noteq> None then createIntsetObject else createSetObject)"

definition setTypeInitIterator :: "set_obj \<Rightarrow> setTypeIterator" where
  "setTypeInitIterator s =
     (case s of
        OBJ_ENCODING_HT d \<Rightarrow> SI_HT dictGetIterator
      | OBJ_ENCODING_INTSET is \<Rightarrow> SI_INTSET 0)"

text \<open>The result is \<open>None\<close> for \<open>-1\<close>, and otherwise what \<open>sdsele\<close> (\<open>NULL\<close> is \<open>None\<close>) and \<open>llele\<close> are set to.\<close>

definition setTypeNext ::
  "set_obj \<Rightarrow> setTypeIterator \<Rightarrow> (set_obj \<times> setTypeIterator \<times> (string option \<times> int) option) option" where
  "setTypeNext s si =
     (case si of
        SI_HT di \<Rightarrow>
          (case s of
             OBJ_ENCODING_HT d \<Rightarrow>
               do { (d, di, de) \<leftarrow> dictNext d di;
                    Some (OBJ_ENCODING_HT d, SI_HT di, map_option (\<lambda>e. (Some (fst e), - 123456789)) de) }
           | OBJ_ENCODING_INTSET _ \<Rightarrow> None)
      | SI_INTSET ii \<Rightarrow>
          (case s of
             OBJ_ENCODING_INTSET is \<Rightarrow>
               do { v \<leftarrow> intsetGet is ii; Some (s, SI_INTSET (ii + 1), map_option (\<lambda>v. (None, v)) v) }
           | OBJ_ENCODING_HT _ \<Rightarrow> None))"

definition setTypeNextObject ::
  "setenv \<Rightarrow> set_obj \<Rightarrow> setTypeIterator \<Rightarrow> (set_obj \<times> setTypeIterator \<times> string option) option" where
  "setTypeNextObject E s si =
     do { (s, si, r) \<leftarrow> setTypeNext s si;
          case r of
            None \<Rightarrow> Some (s, si, None)
          | Some (sdsele, intele) \<Rightarrow>
              (case si of
                 SI_INTSET _ \<Rightarrow> do { t \<leftarrow> sdsfromlonglong (se_fill E) intele; Some (s, si, Some (Sds.contents t)) }
               | SI_HT _ \<Rightarrow> do { t \<leftarrow> sdsele; Some (s, si, Some t) }) }"

definition setTypeSize :: "set_obj \<Rightarrow> nat" where
  "setTypeSize s = (case s of OBJ_ENCODING_HT d \<Rightarrow> dictSize d | OBJ_ENCODING_INTSET is \<Rightarrow> intsetLen is)"

text \<open>The conversion to a hash table; a failed assertion is \<open>None\<close>.\<close>

partial_function (option) convert_loop ::
  "setenv \<Rightarrow> set_obj \<Rightarrow> setTypeIterator \<Rightarrow> (string, unit) dict \<Rightarrow> (string, unit) dict option" where
  "convert_loop E s si d =
     do { (s, si, r) \<leftarrow> setTypeNext s si;
          case r of
            None \<Rightarrow> Some d
          | Some (element, intele) \<Rightarrow>
              do { element \<leftarrow> sdsfromlonglong (se_fill E) intele;
                   (d, ok) \<leftarrow> dictAdd (se_can E) (dictSdsHash (se_seed E)) dictSdsKeyCompare () d (Sds.contents element) ();
                   if ok then convert_loop E s si d else None } }"

definition setTypeConvert :: "setenv \<Rightarrow> set_obj \<Rightarrow> set_obj option" where
  "setTypeConvert E s =
     (case s of
        OBJ_ENCODING_INTSET is \<Rightarrow>
          do { let d = fst (dictExpand dictCreate (intsetLen is));
               d \<leftarrow> convert_loop E s (setTypeInitIterator s) d;
               Some (OBJ_ENCODING_HT d) }
      | OBJ_ENCODING_HT _ \<Rightarrow> None)"

definition setTypeAdd :: "setenv \<Rightarrow> set_obj \<Rightarrow> string \<Rightarrow> (set_obj \<times> bool) option" where
  "setTypeAdd E s value =
     (case s of
        OBJ_ENCODING_HT d \<Rightarrow>
          do { (d, de, _) \<leftarrow> dictAddRaw (se_can E) (dictSdsHash (se_seed E)) dictSdsKeyCompare () d value;
               case de of
                 None \<Rightarrow> Some (OBJ_ENCODING_HT d, False)
               | Some r \<Rightarrow> do { d \<leftarrow> dictSetVal d r (); Some (OBJ_ENCODING_HT d, True) } }
      | OBJ_ENCODING_INTSET is \<Rightarrow>
          (case isSdsRepresentableAsLongLong value of
             Some llval \<Rightarrow>
               do { (is, success) \<leftarrow> intsetAdd (se_fill8 E) is llval;
                    if \<not> success then Some (OBJ_ENCODING_INTSET is, False)
                    else if intsetLen is > se_max E
                    then do { s \<leftarrow> setTypeConvert E (OBJ_ENCODING_INTSET is); Some (s, True) }
                    else Some (OBJ_ENCODING_INTSET is, True) }
           | None \<Rightarrow>
               do { s \<leftarrow> setTypeConvert E s;
                    case s of
                      OBJ_ENCODING_HT d \<Rightarrow>
                        do { (d, ok) \<leftarrow> dictAdd (se_can E) (dictSdsHash (se_seed E)) dictSdsKeyCompare () d value ();
                             if ok then Some (OBJ_ENCODING_HT d, True) else None }
                    | OBJ_ENCODING_INTSET _ \<Rightarrow> None }))"

definition setTypeRemove :: "setenv \<Rightarrow> set_obj \<Rightarrow> string \<Rightarrow> (set_obj \<times> bool) option" where
  "setTypeRemove E s value =
     (case s of
        OBJ_ENCODING_HT d \<Rightarrow>
          do { (d, ok) \<leftarrow> dictDelete (dictSdsHash (se_seed E)) dictSdsKeyCompare d value;
               Some (OBJ_ENCODING_HT (if ok \<and> htNeedsResize d then fst (dictResize (se_can E) d) else d), ok) }
      | OBJ_ENCODING_INTSET is \<Rightarrow>
          (case isSdsRepresentableAsLongLong value of
             Some llval \<Rightarrow> do { (is, success) \<leftarrow> intsetRemove (se_fill8 E) is llval; Some (OBJ_ENCODING_INTSET is, success) }
           | None \<Rightarrow> Some (s, False)))"

definition setTypeIsMember :: "setenv \<Rightarrow> set_obj \<Rightarrow> string \<Rightarrow> (set_obj \<times> bool) option" where
  "setTypeIsMember E s value =
     (case s of
        OBJ_ENCODING_HT d \<Rightarrow>
          do { (d, r) \<leftarrow> dictFind (dictSdsHash (se_seed E)) dictSdsKeyCompare d value; Some (OBJ_ENCODING_HT d, r \<noteq> None) }
      | OBJ_ENCODING_INTSET is \<Rightarrow>
          (case isSdsRepresentableAsLongLong value of
             Some llval \<Rightarrow> do { b \<leftarrow> intsetFind is llval; Some (s, b) }
           | None \<Rightarrow> Some (s, False)))"

section \<open>The invariant\<close>

text \<open>The members, as strings.\<close>

definition set_elems :: "set_obj \<Rightarrow> string set" where
  "set_elems s =
     (case s of
        OBJ_ENCODING_INTSET is \<Rightarrow> sdec ` set (intset_values is)
      | OBJ_ENCODING_HT d \<Rightarrow> dom (key_map d))"

text \<open>A value for which the operations are defined: shorter than 2 GB, and not the least integer, which
  \<open>sdsfromlonglong\<close> negates.\<close>

definition member_ok :: "string \<Rightarrow> bool" where
  "member_ok v \<longleftrightarrow> sds_key v \<and> v \<noteq> sdec LLONG_MIN"

definition set_inv :: "setenv \<Rightarrow> set_obj \<Rightarrow> bool" where
  "set_inv E s \<longleftrightarrow>
     (case s of
        OBJ_ENCODING_INTSET is \<Rightarrow>
          intset_inv is \<and> is_length is \<le> se_max E \<and> se_max E + 1 < 2 ^ 29 \<and> LLONG_MIN \<notin> set (intset_values is)
      | OBJ_ENCODING_HT d \<Rightarrow> sds_inv_dict (se_seed E) d)"

section \<open>The operations on both encodings\<close>

lemma sdec_inject:
  assumes "fits_signed 8 a" "fits_signed 8 b" "sdec a = sdec b"
  shows "a = b"
proof -
  have "Some a = Some b"
    using string2ll_sdec [OF assms(1), symmetric] string2ll_sdec [OF assms(2)] unfolding assms(3) by (rule trans)
  then show ?thesis by (simp only: option.inject)
qed

lemma sds_key_sdec:
  assumes "fits_signed 8 v"
  shows "sds_key (sdec v)"
  unfolding sds_key_def by (rule le_less_trans [OF length_sdec_bound [OF assms]]) simp

lemma sdsfromlonglong_ok:
  assumes "fits_signed 8 v" "v \<noteq> LLONG_MIN"
  obtains t where "sdsfromlonglong fill v = Some t" "Sds.contents t = sdec v"
proof -
  define buf where "buf = map fill [0..<SDS_LLSTR_SIZE]"
  define n where "n = length (sdec v)"
  define txt' where "txt' = sdec v @ [CHR 0x00] @ drop (Suc n) buf"
  have n: "n < length buf" "n < 2 ^ 62"
    using length_sdec_bound [OF assms(1)] unfolding n_def buf_def SDS_LLSTR_SIZE_def by simp_all
  have t: "n \<le> length txt'" "take n txt' = sdec v" unfolding txt'_def n_def by simp_all
  obtain t where c: "sdsnewlen fill (INIT txt') n = Some t" "Sds.contents t = take n txt'"
    by (rule sdsnewlen_correct [OF n(2) t(1)])
  have "sdsll2str buf v = Some (txt', n)"
    unfolding txt'_def n_def by (rule sdsll2str_correct [OF assms(2) n(1) [unfolded n_def]])
  then have "sdsfromlonglong fill v = Some t"
    unfolding sdsfromlonglong_def buf_def [symmetric] by (simp only: bind.bind_lunit prod.case c(1))
  then show thesis using that c(2) t(2) by simp
qed

lemma intset_values_fit:
  assumes "intset_inv is" "v \<in> set (intset_values is)"
  shows "fits_signed 8 v"
proof -
  have "fits_signed (encoding is) v" "encoding is \<in> {2, 4, 8}"
    using intset_inv_rep [OF assms(1)] assms(2) unfolding intset_rep_def by simp_all
  then show ?thesis unfolding fits_signed_def by auto
qed

lemma intsetGet_value:
  assumes "intset_inv is"
  shows "intsetGet is i = Some (if i < length (intset_values is) then Some (intset_values is ! i) else None)"
  using intset_inv_rep [OF assms] intsetGet_at_rep [of "is" "intset_values is" i]
  unfolding intsetGet_def intset_rep_def by simp

lemma dom_add:
  assumes "sds_inv_dict seed d" "dictSize d < 2 ^ 59" "sds_key k"
  obtains d' where "dictAdd can (dictSdsHash seed) dictSdsKeyCompare () d k () = Some (d', k \<notin> dom (key_map d))"
    "sds_inv_dict seed d'" "dom (key_map d') = insert k (dom (key_map d))"
  using run_op_update(1) [OF assms, of can "()" "()"] by (auto simp: domIff insert_absorb split: if_splits)

lemma convert_loop_ok:
  assumes "intset_inv is" "LLONG_MIN \<notin> set (intset_values is)" "sds_inv_dict (se_seed E) d"
    "dom (key_map d) = sdec ` set (take i (intset_values is))"
  shows "\<exists>d'. convert_loop E (OBJ_ENCODING_INTSET is) (SI_INTSET i) d = Some d' \<and> sds_inv_dict (se_seed E) d' \<and>
    dom (key_map d') = sdec ` set (intset_values is)"
  using assms(3,4)
proof (induction "length (intset_values is) - i" arbitrary: i d rule: less_induct)
  case less
  let ?xs = "intset_values is"
  note u = convert_loop.simps [of E "OBJ_ENCODING_INTSET is" "SI_INTSET i" d]
  show ?case
  proof (cases "i < length ?xs")
    case True
    have v: "fits_signed 8 (?xs ! i)" "?xs ! i \<noteq> LLONG_MIN"
      using intset_values_fit [OF assms(1)] assms(2) True by (auto simp: in_set_conv_nth)
    obtain t where t: "sdsfromlonglong (se_fill E) (?xs ! i) = Some t" "Sds.contents t = sdec (?xs ! i)"
      by (rule sdsfromlonglong_ok [OF v])
    have "distinct ?xs" "length ?xs < 2 ^ 29"
      using assms(1) strict_sorted_iff [of ?xs] unfolding intset_inv_def by simp_all
    have "dictSize d = card (sdec ` set (take i ?xs))" using dictSize_key_map [OF less.prems(1)] less.prems(2) by simp
    also have "\<dots> \<le> length (take i ?xs)" using card_image_le [of "set (take i ?xs)" sdec] card_length [of "take i ?xs"] by simp
    finally have "dictSize d < 2 ^ 59" using \<open>length ?xs < 2 ^ 29\<close> by simp
    from dom_add [OF less.prems(1) this sds_key_sdec [OF v(1)], of "se_can E"]
    obtain d1 where d1: "dictAdd (se_can E) (dictSdsHash (se_seed E)) dictSdsKeyCompare () d (sdec (?xs ! i)) ()
          = Some (d1, sdec (?xs ! i) \<notin> dom (key_map d))"
        "sds_inv_dict (se_seed E) d1" "dom (key_map d1) = insert (sdec (?xs ! i)) (dom (key_map d))" by blast
    have new: "sdec (?xs ! i) \<notin> dom (key_map d)"
    proof
      assume "sdec (?xs ! i) \<in> dom (key_map d)"
      then obtain k where k: "k < i" "sdec (?xs ! i) = sdec (?xs ! k)" using less.prems(2) True by (auto simp: in_set_conv_nth)
      then have "?xs ! i = ?xs ! k" using sdec_inject [OF v(1)] intset_values_fit [OF assms(1)] True by simp
      then show False using \<open>distinct ?xs\<close> k(1) True by (simp add: nth_eq_iff_index_eq)
    qed
    have "dom (key_map d1) = sdec ` set (take (i + 1) ?xs)"
      using d1(3) less.prems(2) True by (simp add: take_Suc_conv_app_nth)
    then show ?thesis using less.hyps [of "i + 1" d1] True d1(1,2) t new
      unfolding u setTypeNext_def by (simp add: intsetGet_value [OF assms(1)])
  next
    case False
    then show ?thesis using less.prems unfolding u setTypeNext_def by (simp add: intsetGet_value [OF assms(1)])
  qed
qed

lemma setTypeConvert_ok:
  assumes "intset_inv is" "LLONG_MIN \<notin> set (intset_values is)"
  obtains d where "setTypeConvert E (OBJ_ENCODING_INTSET is) = Some (OBJ_ENCODING_HT d)" "sds_inv_dict (se_seed E) d"
    "dom (key_map d) = sdec ` set (intset_values is)"
proof -
  define d0 :: "(string, unit) dict" where "d0 = fst (dictExpand dictCreate (intsetLen is))"
  have l: "intsetLen is \<le> 2 ^ 60" using assms(1) unfolding intset_inv_def intsetLen_def by simp
  have "same_entries (dictSdsHash (se_seed E)) dictCreate d0"
    unfolding d0_def by (rule dictExpand_correct(1) [OF sds_ok [OF sds_create] l])
  from key_map_same [OF sds_create this] have d0: "sds_inv_dict (se_seed E) d0" "dom (key_map d0) = sdec ` set (take 0 (intset_values is))"
    by (simp_all add: key_map_create)
  from convert_loop_ok [OF assms d0]
  obtain d where d: "convert_loop E (OBJ_ENCODING_INTSET is) (SI_INTSET 0) d0 = Some d" "sds_inv_dict (se_seed E) d"
      "dom (key_map d) = sdec ` set (intset_values is)" by blast
  have "setTypeConvert E (OBJ_ENCODING_INTSET is) = Some (OBJ_ENCODING_HT d)"
    unfolding setTypeConvert_def setTypeInitIterator_def set_obj.case d0_def [symmetric] Let_def d(1) by simp
  then show thesis using that d(2,3) by blast
qed

lemma member_ok_cases:
  assumes "member_ok v"
  obtains "isSdsRepresentableAsLongLong v = None" "\<And>x. fits_signed 8 x \<Longrightarrow> v \<noteq> sdec x"
  | x where "isSdsRepresentableAsLongLong v = Some x" "fits_signed 8 x" "v = sdec x" "x \<noteq> LLONG_MIN"
proof (cases "string2ll v")
  case None
  have "v \<noteq> sdec x" if "fits_signed 8 x" for x using string2ll_sdec [OF that] None by (auto simp only: option.distinct)
  then show thesis using that(1) None unfolding isSdsRepresentableAsLongLong_def by blast
next
  case (Some x)
  have "fits_signed 8 x" "v = sdec x" using string2ll_inverse [OF Some] by blast+
  moreover have "x \<noteq> LLONG_MIN" using assms calculation(2) unfolding member_ok_def by blast
  ultimately show thesis using that(2) Some unfolding isSdsRepresentableAsLongLong_def by blast
qed

lemma sdec_mem_image:
  assumes "intset_inv is" "fits_signed 8 x"
  shows "sdec x \<in> sdec ` set (intset_values is) \<longleftrightarrow> x \<in> set (intset_values is)"
  using sdec_inject [OF assms(2)] intset_values_fit [OF assms(1)] by blast

lemma sdec_image_Diff:
  assumes "intset_inv is" "fits_signed 8 x"
  shows "sdec ` (set (intset_values is) - {x}) = sdec ` set (intset_values is) - {sdec x}"
  using sdec_inject [OF assms(2)] intset_values_fit [OF assms(1)] by blast

lemma setTypeAdd_ht:
  "setTypeAdd E (OBJ_ENCODING_HT d) v =
     map_option (\<lambda>(d, b). (OBJ_ENCODING_HT d, b)) (dictAdd (se_can E) (dictSdsHash (se_seed E)) dictSdsKeyCompare () d v ())"
  unfolding setTypeAdd_def dictAdd_def set_obj.case
  by (auto simp: bind_eq_Some_conv map_option_case split: option.split prod.split bind_split)

text \<open>Finite, and the law of each operation.\<close>

lemma set_elems_finite: "set_inv E s \<Longrightarrow> finite (set_elems s)"
  unfolding set_elems_def by (cases s) (simp_all add: key_map_def finite_dom_map_of)

lemma setTypeAdd_integer:
  assumes i: "intset_inv ms" "is_length ms \<le> se_max E" "se_max E + 1 < 2 ^ 29" "LLONG_MIN \<notin> set (intset_values ms)"
    and x: "fits_signed 8 x" "x \<noteq> LLONG_MIN"
  shows "\<exists>s'. setTypeAdd E (OBJ_ENCODING_INTSET ms) (sdec x) = Some (s', sdec x \<notin> set_elems (OBJ_ENCODING_INTSET ms)) \<and>
    set_inv E s' \<and> set_elems s' = insert (sdec x) (set_elems (OBJ_ENCODING_INTSET ms))"
proof -
  have r: "isSdsRepresentableAsLongLong (sdec x) = Some x" unfolding isSdsRepresentableAsLongLong_def by (rule string2ll_sdec [OF x(1)])
  note e = set_elems_def [of "OBJ_ENCODING_INTSET ms", unfolded set_obj.case]
  have "Suc (is_length ms) < 2 ^ 29" using i(2,3) by simp
  from intsetAdd_correct [OF i(1) x(1) this, of "se_fill8 E"]
  obtain ms' where a: "intsetAdd (se_fill8 E) ms x = Some (ms', x \<notin> set (intset_values ms))" "intset_inv ms'"
      "set (intset_values ms') = insert x (set (intset_values ms))" by blast
  have m: "LLONG_MIN \<notin> set (intset_values ms')" using a(3) i(4) x(2) by simp
  show ?thesis
  proof (cases "x \<notin> set (intset_values ms) \<and> se_max E < intsetLen ms'")
    case True
    obtain d where "setTypeConvert E (OBJ_ENCODING_INTSET ms') = Some (OBJ_ENCODING_HT d)" "sds_inv_dict (se_seed E) d"
        "dom (key_map d) = sdec ` set (intset_values ms')" by (rule setTypeConvert_ok [OF a(2) m])
    then show ?thesis using True a(1,3) sdec_mem_image [OF i(1) x(1)]
      unfolding setTypeAdd_def e set_obj.case r option.case
      by (simp add: set_inv_def set_elems_def)
  next
    case False
    have "is_length ms' \<le> se_max E"
      using False i(2) intset_card [OF i(1)] intset_card [OF a(2)] a(3) unfolding intsetLen_def
      by (cases "x \<in> set (intset_values ms)") (simp_all add: insert_absorb)
    then show ?thesis using False a m i(3) sdec_mem_image [OF i(1) x(1)]
      unfolding setTypeAdd_def e set_obj.case r option.case
      by (auto simp: set_inv_def set_elems_def not_less)
  qed
qed

lemma setTypeAdd_law:
  assumes inv: "set_inv E s" and v: "member_ok v" and small: "Suc (card (set_elems s)) < 2 ^ 59"
  shows "\<exists>s'. setTypeAdd E s v = Some (s', v \<notin> set_elems s) \<and> set_inv E s' \<and> set_elems s' = insert v (set_elems s)"
proof (cases s)
  case (OBJ_ENCODING_HT d)
  have "sds_inv_dict (se_seed E) d" "dictSize d < 2 ^ 59"
    using inv small dictSize_key_map [of "se_seed E" d] unfolding OBJ_ENCODING_HT set_inv_def set_elems_def by simp_all
  from dom_add [OF this conjunct1 [OF v [unfolded member_ok_def]], of "se_can E"]
  obtain d' where "dictAdd (se_can E) (dictSdsHash (se_seed E)) dictSdsKeyCompare () d v () = Some (d', v \<notin> dom (key_map d))"
      "sds_inv_dict (se_seed E) d'" "dom (key_map d') = insert v (dom (key_map d))" by blast
  then show ?thesis unfolding OBJ_ENCODING_HT setTypeAdd_ht set_inv_def set_elems_def by simp
next
  case (OBJ_ENCODING_INTSET ms)
  have i: "intset_inv ms" "is_length ms \<le> se_max E" "se_max E + 1 < 2 ^ 29" "LLONG_MIN \<notin> set (intset_values ms)"
    using inv unfolding OBJ_ENCODING_INTSET set_inv_def by simp_all
  note e = set_elems_def [of "OBJ_ENCODING_INTSET ms", unfolded set_obj.case]
  from v show ?thesis
  proof (cases rule: member_ok_cases)
    case 1
    obtain d where d: "setTypeConvert E (OBJ_ENCODING_INTSET ms) = Some (OBJ_ENCODING_HT d)" "sds_inv_dict (se_seed E) d"
        "dom (key_map d) = sdec ` set (intset_values ms)" by (rule setTypeConvert_ok [OF i(1,4)])
    have n: "v \<notin> dom (key_map d)" using 1(2) intset_values_fit [OF i(1)] unfolding d(3) by blast
    have "dictSize d < 2 ^ 59" using small unfolding dictSize_key_map [OF d(2)] d(3) OBJ_ENCODING_INTSET e by simp
    from dom_add [OF d(2) this conjunct1 [OF v [unfolded member_ok_def]], of "se_can E"]
    obtain d' where "dictAdd (se_can E) (dictSdsHash (se_seed E)) dictSdsKeyCompare () d v () = Some (d', v \<notin> dom (key_map d))"
        "sds_inv_dict (se_seed E) d'" "dom (key_map d') = insert v (dom (key_map d))" by blast
    then show ?thesis using n d unfolding OBJ_ENCODING_INTSET setTypeAdd_def e set_obj.case 1(1) option.case
      by (simp add: set_inv_def set_elems_def)
  next
    case (2 x)
    then show ?thesis using setTypeAdd_integer [OF i 2(2,4)] unfolding OBJ_ENCODING_INTSET by simp
  qed
qed

lemma dict_delete:
  assumes inv: "sds_inv_dict seed d" and key: "sds_key k"
  shows "\<exists>d'. dictDelete (dictSdsHash seed) dictSdsKeyCompare d k = Some (d', key_map d k \<noteq> None) \<and>
    sds_inv_dict seed d' \<and> key_map d' = (key_map d)(k := None)"
  using sds_keys.dictDelete_correct [OF inv [unfolded sds_inv_dict_def] key] key_map_ext [OF inv _ key]
  unfolding key_map_eq [OF inv key] sds_inv_dict_def by blast

lemma setTypeRemove_law:
  assumes inv: "set_inv E s" and v: "member_ok v"
  shows "\<exists>s'. setTypeRemove E s v = Some (s', v \<in> set_elems s) \<and> set_inv E s' \<and> set_elems s' = set_elems s - {v}"
proof (cases s)
  case (OBJ_ENCODING_HT d)
  have d: "sds_inv_dict (se_seed E) d" using inv unfolding OBJ_ENCODING_HT set_inv_def by simp
  have k: "sds_key v" using v unfolding member_ok_def by simp
  obtain d' where a: "dictDelete (dictSdsHash (se_seed E)) dictSdsKeyCompare d v = Some (d', key_map d v \<noteq> None)"
      "sds_inv_dict (se_seed E) d'" "key_map d' = (key_map d)(v := None)"
    using dict_delete [OF d k] by blast
  note r = key_map_same [OF a(2) dictResize_correct [OF sds_ok [OF a(2)]], of "se_can E"]
  show ?thesis using a r unfolding OBJ_ENCODING_HT setTypeRemove_def set_inv_def set_elems_def
    by (auto simp: domIff)
next
  case (OBJ_ENCODING_INTSET ms)
  have i: "intset_inv ms" "is_length ms \<le> se_max E" "se_max E + 1 < 2 ^ 29" "LLONG_MIN \<notin> set (intset_values ms)"
    using inv unfolding OBJ_ENCODING_INTSET set_inv_def by simp_all
  note e = set_elems_def [of "OBJ_ENCODING_INTSET ms", unfolded set_obj.case]
  from v show ?thesis
  proof (cases rule: member_ok_cases)
    case 1
    then have "v \<notin> sdec ` set (intset_values ms)" using intset_values_fit [OF i(1)] by blast
    then show ?thesis using inv 1(1) unfolding OBJ_ENCODING_INTSET setTypeRemove_def e set_obj.case
      by (simp add: set_elems_def)
  next
    case (2 x)
    from iset.remove_law [OF i(1) 2(2), of "se_fill8 E"]
    obtain ms' where a: "intsetRemove (se_fill8 E) ms x = Some (ms', x \<in> set (intset_values ms))" "intset_inv ms'"
        "set (intset_values ms') = set (intset_values ms) - {x}" by blast
    have "is_length ms' \<le> is_length ms"
      using intset_card [OF i(1)] intset_card [OF a(2)] a(3) card_Diff1_le [of "set (intset_values ms)" x] by simp
    then show ?thesis using i a sdec_mem_image [OF i(1) 2(2)] sdec_image_Diff [OF i(1) 2(2)] 2(1)
      unfolding OBJ_ENCODING_INTSET setTypeRemove_def e set_obj.case 2(3)
      by (simp add: set_inv_def set_elems_def)
  qed
qed

lemma setTypeIsMember_law:
  assumes inv: "set_inv E s" and v: "member_ok v"
  shows "\<exists>s'. setTypeIsMember E s v = Some (s', v \<in> set_elems s) \<and> set_inv E s' \<and> set_elems s' = set_elems s"
proof (cases s)
  case (OBJ_ENCODING_HT d)
  have d: "sds_inv_dict (se_seed E) d" using inv unfolding OBJ_ENCODING_HT set_inv_def by simp
  have k: "sds_key v" using v unfolding member_ok_def by simp
  obtain d' r where f: "dictFind (dictSdsHash (se_seed E)) dictSdsKeyCompare d v = Some (d', r)"
      "same_entries (dictSdsHash (se_seed E)) d d'" "found dictSdsKeyCompare d' v r"
    using sds_keys.dictFind_correct [OF d [unfolded sds_inv_dict_def] k] by blast
  note m = key_map_same [OF d f(2)]
  have "r = None \<longleftrightarrow> key_map d' v = None"
    using sds_keys.found_map [OF m(1) [unfolded sds_inv_dict_def] k f(3)] unfolding key_map_eq [OF m(1) k]
    by (cases r) auto
  then show ?thesis using f(1) m unfolding OBJ_ENCODING_HT setTypeIsMember_def set_inv_def set_elems_def by auto
next
  case (OBJ_ENCODING_INTSET ms)
  have i: "intset_inv ms" using inv unfolding OBJ_ENCODING_INTSET set_inv_def by simp
  note e = set_elems_def [of "OBJ_ENCODING_INTSET ms", unfolded set_obj.case]
  from v show ?thesis
  proof (cases rule: member_ok_cases)
    case 1
    then have "v \<notin> sdec ` set (intset_values ms)" using intset_values_fit [OF i] by blast
    then show ?thesis using inv 1(1) unfolding OBJ_ENCODING_INTSET setTypeIsMember_def e set_obj.case
      by (simp add: set_elems_def)
  next
    case (2 x)
    then show ?thesis using inv iset.is_member_law [OF i 2(2)] sdec_mem_image [OF i 2(2)]
      unfolding OBJ_ENCODING_INTSET setTypeIsMember_def e set_obj.case 2(1) option.case 2(3)
      by (simp add: set_elems_def)
  qed
qed

interpretation tset: set_impl "set_inv E" set_elems member_ok "2 ^ 59" "setTypeAdd E" "setTypeRemove E"
  "\<lambda>s v. map_option snd (setTypeIsMember E s v)"
  for E
proof unfold_locales
  fix s v
  assume "set_inv E s" "member_ok v"
  from setTypeIsMember_law [OF this] show "map_option snd (setTypeIsMember E s v) = Some (v \<in> set_elems s)" by auto
qed (auto intro: set_elems_finite setTypeAdd_law setTypeRemove_law)

lemma setTypeCreate_inv:
  assumes "se_max E + 1 < 2 ^ 29"
  shows "set_inv E (setTypeCreate v)" "set_elems (setTypeCreate v) = {}"
proof -
  have n: "intset_values intsetNew = []" unfolding intset_values_def intsetNew_def by simp
  have "intset_inv intsetNew" unfolding intset_inv_def n by (simp add: intsetNew_def INTSET_ENC_INT16_def)
  moreover have "sds_inv_dict (se_seed E) (dictCreate :: (string, unit) dict)" by (rule sds_create)
  ultimately show "set_inv E (setTypeCreate v)" "set_elems (setTypeCreate v) = {}"
    using assms n
    unfolding setTypeCreate_def createIntsetObject_def createSetObject_def set_inv_def set_elems_def
    by (simp_all add: key_map_create) (simp add: intsetNew_def)
qed

text \<open>The loop of \<open>saddCommand\<close> replies with the number of values that were not members before.\<close>

lemma sadd_counts:
  assumes "set_inv E s" "\<forall>v \<in> set vs. member_ok v" "card (set_elems s) + length vs < 2 ^ 59"
  shows "\<exists>s'. count_each (setTypeAdd E) s vs = Some (s', card (set vs - set_elems s)) \<and> set_inv E s' \<and>
    set_elems s' = set_elems s \<union> set vs"
  using assms by (rule tset.add_each)

lemma setTypeSize_card:
  assumes "set_inv E s"
  shows "setTypeSize s = card (set_elems s)"
proof (cases s)
  case (OBJ_ENCODING_HT d)
  then show ?thesis using assms dictSize_key_map [of "se_seed E" d]
    unfolding setTypeSize_def set_elems_def set_inv_def by simp
next
  case (OBJ_ENCODING_INTSET ms)
  have "inj_on sdec (set (intset_values ms))" "intset_inv ms"
    using assms intset_values_fit [of ms] sdec_inject unfolding OBJ_ENCODING_INTSET set_inv_def inj_on_def by simp_all
  then show ?thesis using intset_card [of ms] card_image [of sdec "set (intset_values ms)"]
    unfolding OBJ_ENCODING_INTSET setTypeSize_def set_elems_def intsetLen_def by simp
qed

section \<open>Histories of operations\<close>

datatype set_op = SAdd string | SRem string | SIsMember string | SCard

definition run_set_op :: "setenv \<Rightarrow> set_op \<Rightarrow> set_obj \<Rightarrow> (set_obj \<times> nat) option" where
  "run_set_op E op s =
     (case op of
        SAdd v \<Rightarrow> map_option (\<lambda>(s, b). (s, of_bool b)) (setTypeAdd E s v)
      | SRem v \<Rightarrow> map_option (\<lambda>(s, b). (s, of_bool b)) (setTypeRemove E s v)
      | SIsMember v \<Rightarrow> map_option (\<lambda>(s, b). (s, of_bool b)) (setTypeIsMember E s v)
      | SCard \<Rightarrow> Some (s, setTypeSize s))"

fun spec_set_op :: "set_op \<Rightarrow> string set \<Rightarrow> string set \<times> nat" where
  "spec_set_op (SAdd v) m = (insert v m, of_bool (v \<notin> m))"
| "spec_set_op (SRem v) m = (m - {v}, of_bool (v \<in> m))"
| "spec_set_op (SIsMember v) m = (m, of_bool (v \<in> m))"
| "spec_set_op SCard m = (m, card m)"

fun set_op_ok :: "set_op \<Rightarrow> bool" where
  "set_op_ok (SAdd v) = member_ok v"
| "set_op_ok (SRem v) = member_ok v"
| "set_op_ok (SIsMember v) = member_ok v"
| "set_op_ok SCard = True"

primrec run_set_ops :: "setenv \<Rightarrow> set_op list \<Rightarrow> set_obj \<Rightarrow> (set_obj \<times> nat list) option" where
  "run_set_ops E [] s = Some (s, [])"
| "run_set_ops E (op # ops) s =
     do { (s, r) \<leftarrow> run_set_op E op s; (s, rs) \<leftarrow> run_set_ops E ops s; Some (s, r # rs) }"

primrec spec_set_ops :: "set_op list \<Rightarrow> string set \<Rightarrow> string set \<times> nat list" where
  "spec_set_ops [] m = (m, [])"
| "spec_set_ops (op # ops) m =
     (let (m, r) = spec_set_op op m; (m, rs) = spec_set_ops ops m in (m, r # rs))"

lemma run_set_op_correct:
  assumes inv: "set_inv E s" and small: "Suc (card (set_elems s)) < 2 ^ 59" and ok: "set_op_ok op"
  obtains s' r where "run_set_op E op s = Some (s', r)" "set_inv E s'" "spec_set_op op (set_elems s) = (set_elems s', r)"
proof (cases op)
  case (SAdd v)
  then show thesis using tset.add_law [OF inv _ small, of v] ok that unfolding run_set_op_def by auto
next
  case (SRem v)
  then show thesis using tset.remove_law [OF inv, of v] ok that unfolding run_set_op_def by auto
next
  case (SIsMember v)
  then show thesis using setTypeIsMember_law [OF inv, of v] ok that unfolding run_set_op_def by auto
next
  case SCard
  then show thesis using setTypeSize_card [OF inv] inv that unfolding run_set_op_def by simp
qed

lemma spec_set_op_card:
  assumes "finite m"
  shows "card (fst (spec_set_op op m)) \<le> Suc (card m)"
  using assms card_Diff1_le [of m] by (cases op) (auto simp: card_insert_if intro: le_SucI)

lemma run_set_ops_correct:
  assumes "set_inv E s" "list_all set_op_ok ops" "card (set_elems s) + length ops < 2 ^ 59"
  shows "\<exists>s'. run_set_ops E ops s = Some (s', snd (spec_set_ops ops (set_elems s))) \<and> set_inv E s' \<and>
    set_elems s' = fst (spec_set_ops ops (set_elems s))"
  using assms
proof (induction ops arbitrary: s)
  case (Cons op ops)
  have "Suc (card (set_elems s)) < 2 ^ 59" "set_op_ok op" using Cons.prems(2,3) by simp_all
  then obtain s1 r where s1: "run_set_op E op s = Some (s1, r)" "set_inv E s1"
      "spec_set_op op (set_elems s) = (set_elems s1, r)" using run_set_op_correct [OF Cons.prems(1)] by blast
  have "card (set_elems s1) \<le> Suc (card (set_elems s))"
    using spec_set_op_card [OF tset.finite_elems [OF Cons.prems(1)], of op] unfolding s1(3) by simp
  then show ?case using Cons.IH [OF s1(2)] Cons.prems(2,3) s1 by (auto simp: case_prod_beta)
qed simp

section \<open>Iteration\<close>

text \<open>The loop over a set that the commands write around \<open>setTypeNextObject\<close>.\<close>

partial_function (option) set_iterate :: "setenv \<Rightarrow> set_obj \<Rightarrow> setTypeIterator \<Rightarrow> string list option" where
  "set_iterate E s si =
     do { (s, si, e) \<leftarrow> setTypeNextObject E s si;
          case e of
            None \<Rightarrow> Some []
          | Some v \<Rightarrow> do { vs \<leftarrow> set_iterate E s si; Some (v # vs) } }"

lemma set_iterate_integers:
  assumes "intset_inv ms" "LLONG_MIN \<notin> set (intset_values ms)"
  shows "set_iterate E (OBJ_ENCODING_INTSET ms) (SI_INTSET i) = Some (map sdec (drop i (intset_values ms)))"
proof (induction "length (intset_values ms) - i" arbitrary: i rule: less_induct)
  case less
  let ?xs = "intset_values ms"
  note u = set_iterate.simps [of E "OBJ_ENCODING_INTSET ms" "SI_INTSET i"]
  show ?case
  proof (cases "i < length ?xs")
    case True
    have v: "fits_signed 8 (?xs ! i)" "?xs ! i \<noteq> LLONG_MIN"
      using intset_values_fit [OF assms(1)] assms(2) True by (auto simp: in_set_conv_nth)
    obtain t where t: "sdsfromlonglong (se_fill E) (?xs ! i) = Some t" "Sds.contents t = sdec (?xs ! i)"
      by (rule sdsfromlonglong_ok [OF v])
    have "setTypeNextObject E (OBJ_ENCODING_INTSET ms) (SI_INTSET i)
        = Some (OBJ_ENCODING_INTSET ms, SI_INTSET (i + 1), Some (sdec (?xs ! i)))"
      using True t unfolding setTypeNextObject_def setTypeNext_def by (simp add: intsetGet_value [OF assms(1)])
    then show ?thesis using less.hyps [of "i + 1"] True Cons_nth_drop_Suc [OF True, symmetric] unfolding u by simp
  next
    case False
    then have "setTypeNextObject E (OBJ_ENCODING_INTSET ms) (SI_INTSET i)
        = Some (OBJ_ENCODING_INTSET ms, SI_INTSET (i + 1), None)"
      unfolding setTypeNextObject_def setTypeNext_def by (simp add: intsetGet_value [OF assms(1)])
    then show ?thesis using False unfolding u by simp
  qed
qed

lemma set_iterate_ht:
  assumes "dict_ok hash d" "it_ok d it"
  shows "set_iterate E (OBJ_ENCODING_HT d) (SI_HT it) = Some (map fst (it_left d it))"
  using assms
proof (induction "it_left d it" arbitrary: d it)
  case Nil
  obtain d' it' e where n: "dictNext d it = Some (d', it', e)"
    "case e of None \<Rightarrow> it_left d it = [] | Some x \<Rightarrow> it_left d it = x # it_left d' it' \<and> it_ok d' it'"
    using dictNext_correct [OF Nil.prems] unfolding next_spec_def by blast
  then have "dictNext d it = Some (d', it', None)" using Nil.hyps by (cases e) auto
  then show ?case using Nil.hyps
    by (subst set_iterate.simps) (simp add: setTypeNextObject_def setTypeNext_def)
next
  case (Cons x es)
  obtain d' it' e where n: "dictNext d it = Some (d', it', e)" "same_tables d d'"
    "case e of None \<Rightarrow> it_left d it = [] | Some x \<Rightarrow> it_left d it = x # it_left d' it' \<and> it_ok d' it'"
    using dictNext_correct [OF Cons.prems] unfolding next_spec_def by blast
  then obtain y where y: "e = Some y" "it_left d it = y # it_left d' it'" "it_ok d' it'" using Cons.hyps(2) by (cases e) auto
  have "set_iterate E (OBJ_ENCODING_HT d') (SI_HT it') = Some (map fst (it_left d' it'))"
    using Cons.hyps(1) [of d' it'] Cons.hyps(2) y Cons.prems(1) same_tables_facts(6) [OF n(2)] by simp
  then show ?case using n(1) y by (subst set_iterate.simps) (simp add: setTypeNextObject_def setTypeNext_def)
qed

section \<open>The properties\<close>

text \<open>The least integer is a member that cannot be converted: \<open>sdsll2str\<close> negates it.\<close>

lemma least_integer_conversion:
  assumes "intset_inv ms" "intset_values ms = [LLONG_MIN]"
  shows "setTypeConvert E (OBJ_ENCODING_INTSET ms) = None"
proof -
  have "sdsfromlonglong (se_fill E) LLONG_MIN = None" unfolding sdsfromlonglong_def sdsll2str_def by simp
  then have "convert_loop E (OBJ_ENCODING_INTSET ms) (SI_INTSET 0) d = None" for d
    by (subst convert_loop.simps) (simp add: setTypeNext_def intsetGet_value [OF assms(1)] assms(2))
  then show ?thesis unfolding setTypeConvert_def setTypeInitIterator_def by simp
qed

text \<open>C5: a set object is a set of strings. Any history of \<open>setTypeAdd\<close>, \<open>setTypeRemove\<close>, \<open>setTypeIsMember\<close> and
  \<open>setTypeSize\<close> on a set of \<open>setTypeCreate\<close> returns what it returns on a mathematical set, through every change
  of the encoding and every rehashing, with no failed assertion and no access outside the memory of the set. The
  values are shorter than 2 GB, and none is the least 64 bit integer.\<close>

theorem set_object_refines_set:
  assumes "list_all set_op_ok ops" "length ops < 2 ^ 59" "se_max E + 1 < 2 ^ 29"
  shows "\<exists>s. run_set_ops E ops (setTypeCreate v) = Some (s, snd (spec_set_ops ops {})) \<and>
    set_elems s = fst (spec_set_ops ops {})"
  using run_set_ops_correct [OF setTypeCreate_inv(1) [OF assms(3)] assms(1), of v] assms(2)
  unfolding setTypeCreate_inv(2) [OF assms(3)] by auto

definition example_env :: setenv where
  "example_env = \<lparr>se_can = True, se_seed = replicate 16 7, se_max = 2, se_fill8 = (\<lambda>_. 0), se_fill = (\<lambda>_. CHR ''x'')\<rparr>"

lemma example_ok: "length v < 10 \<Longrightarrow> member_ok v"
  unfolding member_ok_def sds_key_def LLONG_MIN_def sdec_def by (auto simp: dec.simps)

theorem set_object_refines_set_witness:
  "\<exists>s. run_set_ops example_env
     [SAdd ''12'', SAdd ''-7'', SAdd ''12'', SAdd ''012'', SCard, SIsMember ''-7'', SRem ''12'', SIsMember ''12''] (setTypeCreate ''12'')
     = Some (s, [1, 1, 0, 1, 3, 1, 1, 0])"
proof -
  define ops where
    "ops = [SAdd ''12'', SAdd ''-7'', SAdd ''12'', SAdd ''012'', SCard, SIsMember ''-7'', SRem ''12'', SIsMember ''12'']"
  have "snd (spec_set_ops ops {}) = [1, 1, 0, 1, 3, 1, 1, 0]" unfolding ops_def by (simp add: card_insert_if)
  moreover have "list_all set_op_ok ops" "length ops < 2 ^ 59" "se_max example_env + 1 < 2 ^ 29"
    unfolding ops_def by (simp_all add: example_ok example_env_def)
  ultimately show ?thesis using set_object_refines_set [of ops example_env "''12''"] unfolding ops_def [symmetric] by auto
qed

text \<open>C21: the encoding tells the type of the members. Whatever the history, the object is an integer set only while
  all members are decimal forms of 64 bit integers and there are at most \<open>set_max_intset_entries\<close> of them, its array is
  sorted at one width, and otherwise it is a hash table that satisfies the invariant of the tables.\<close>

theorem set_object_well_typed:
  assumes "list_all set_op_ok ops" "length ops < 2 ^ 59" "se_max E + 1 < 2 ^ 29"
  shows "case run_set_ops E ops (setTypeCreate v) of
      None \<Rightarrow> False
    | Some (OBJ_ENCODING_INTSET ms, _) \<Rightarrow> intset_inv ms \<and> card (set_elems (OBJ_ENCODING_INTSET ms)) \<le> se_max E \<and>
        (\<forall>m \<in> set_elems (OBJ_ENCODING_INTSET ms). isSdsRepresentableAsLongLong m \<noteq> None)
    | Some (OBJ_ENCODING_HT d, _) \<Rightarrow> sds_inv_dict (se_seed E) d"
proof -
  obtain s rs where s: "run_set_ops E ops (setTypeCreate v) = Some (s, rs)" "set_inv E s"
    using run_set_ops_correct [OF setTypeCreate_inv(1) [OF assms(3)] assms(1), of v] assms(2)
    unfolding setTypeCreate_inv(2) [OF assms(3)] by auto
  show ?thesis
  proof (cases s)
    case (OBJ_ENCODING_HT d)
    then show ?thesis using s unfolding set_inv_def by simp
  next
    case (OBJ_ENCODING_INTSET ms)
    then have i: "intset_inv ms" "is_length ms \<le> se_max E" using s(2) unfolding set_inv_def by simp_all
    have "isSdsRepresentableAsLongLong m \<noteq> None" if "m \<in> set_elems (OBJ_ENCODING_INTSET ms)" for m
      using that string2ll_sdec intset_values_fit [OF i(1)]
      unfolding isSdsRepresentableAsLongLong_def set_elems_def by auto
    then show ?thesis using s i setTypeSize_card [of E s] unfolding OBJ_ENCODING_INTSET
      by (simp add: setTypeSize_def intsetLen_def)
  qed
qed

theorem set_object_well_typed_witness:
  "case run_set_ops example_env [SAdd ''12'', SAdd ''x''] (setTypeCreate ''12'') of
      None \<Rightarrow> False
    | Some (OBJ_ENCODING_INTSET ms, _) \<Rightarrow> intset_inv ms \<and> card (set_elems (OBJ_ENCODING_INTSET ms)) \<le> 2 \<and>
        (\<forall>m \<in> set_elems (OBJ_ENCODING_INTSET ms). isSdsRepresentableAsLongLong m \<noteq> None)
    | Some (OBJ_ENCODING_HT d, _) \<Rightarrow> sds_inv_dict (replicate 16 7) d"
proof -
  have e: "se_max example_env = 2" "se_seed example_env = replicate 16 7" unfolding example_env_def by simp_all
  have "list_all set_op_ok [SAdd ''12'', SAdd ''x'']" "length [SAdd ''12'', SAdd ''x''] < 2 ^ 59" "se_max example_env + 1 < 2 ^ 29"
    by (simp_all add: example_ok e)
  from set_object_well_typed [OF this, of "''12''"] show ?thesis unfolding e .
qed

text \<open>C22: iteration over a set of either encoding returns every member exactly once.\<close>

theorem setTypeNext_enumerates:
  assumes "set_inv E s"
  shows "\<exists>vs. set_iterate E s (setTypeInitIterator s) = Some vs \<and> distinct vs \<and> set vs = set_elems s"
proof (cases s)
  case (OBJ_ENCODING_HT d)
  have d: "sds_inv_dict (se_seed E) d" using assms unfolding OBJ_ENCODING_HT set_inv_def by simp
  show ?thesis
    using set_iterate_ht [OF sds_ok [OF d] it_start(1) [OF sds_ok [OF d]]] sds_entries(2) [OF d]
    unfolding OBJ_ENCODING_HT setTypeInitIterator_def set_elems_def it_start(3) [OF sds_ok [OF d]]
    by (simp add: key_map_def dom_map_of_conv_image_fst)
next
  case (OBJ_ENCODING_INTSET ms)
  have i: "intset_inv ms" "LLONG_MIN \<notin> set (intset_values ms)"
    using assms unfolding OBJ_ENCODING_INTSET set_inv_def by simp_all
  have "distinct (map sdec (intset_values ms))"
    using i(1) strict_sorted_iff [of "intset_values ms"] intset_values_fit [OF i(1)] sdec_inject
    unfolding intset_inv_def distinct_map inj_on_def by blast
  then show ?thesis using set_iterate_integers [OF i, of E 0]
    unfolding OBJ_ENCODING_INTSET setTypeInitIterator_def set_elems_def by simp
qed

theorem setTypeNext_enumerates_witness:
  "\<exists>vs. set_iterate example_env (OBJ_ENCODING_INTSET \<lparr>encoding = 2, is_length = 2, contents = [255, 255, 5, 0]\<rparr>) (SI_INTSET 0)
      = Some vs \<and> distinct vs \<and> set vs = {''-1'', ''5''}"
proof -
  let ?m = "\<lparr>encoding = 2, is_length = 2, contents = [255, 255, 5, 0]\<rparr>"
  have v: "intset_values ?m = [-1, 5]" by (simp add: intset_values_def of_le_signed_def upt_rec)
  then have "set_inv example_env (OBJ_ENCODING_INTSET ?m)"
    by (simp add: set_inv_def intset_inv_def example_env_def LLONG_MIN_def)
  moreover have "sdec (- 1) = ''-1''" "sdec 5 = ''5''" by code_simp+
  ultimately show ?thesis
    using setTypeNext_enumerates [of example_env "OBJ_ENCODING_INTSET ?m"]
    unfolding setTypeInitIterator_def set_elems_def set_obj.case v by simp
qed

end
