(* ===== verification/Crc.thy ===== *)
theory Crc
  imports Util
begin

text \<open>
  The checksums of \<open>crc16.c\<close> and \<open>crc64.c\<close> and the slot of a key in a cluster (\<open>keyHashSlot\<close> of
  \<open>cluster.c\<close>). The tables are those of the source. A reference definition divides bit by bit; the
  lemmas show that every entry of the tables and both routines agree with it.
\<close>

unbundle bit_operations_syntax

section \<open>The source\<close>

definition crc16tab :: "16 word list" where
  "crc16tab = [
    0x0000, 0x1021, 0x2042, 0x3063, 0x4084, 0x50a5, 0x60c6, 0x70e7,
    0x8108, 0x9129, 0xa14a, 0xb16b, 0xc18c, 0xd1ad, 0xe1ce, 0xf1ef,
    0x1231, 0x0210, 0x3273, 0x2252, 0x52b5, 0x4294, 0x72f7, 0x62d6,
    0x9339, 0x8318, 0xb37b, 0xa35a, 0xd3bd, 0xc39c, 0xf3ff, 0xe3de,
    0x2462, 0x3443, 0x0420, 0x1401, 0x64e6, 0x74c7, 0x44a4, 0x5485,
    0xa56a, 0xb54b, 0x8528, 0x9509, 0xe5ee, 0xf5cf, 0xc5ac, 0xd58d,
    0x3653, 0x2672, 0x1611, 0x0630, 0x76d7, 0x66f6, 0x5695, 0x46b4,
    0xb75b, 0xa77a, 0x9719, 0x8738, 0xf7df, 0xe7fe, 0xd79d, 0xc7bc,
    0x48c4, 0x58e5, 0x6886, 0x78a7, 0x0840, 0x1861, 0x2802, 0x3823,
    0xc9cc, 0xd9ed, 0xe98e, 0xf9af, 0x8948, 0x9969, 0xa90a, 0xb92b,
    0x5af5, 0x4ad4, 0x7ab7, 0x6a96, 0x1a71, 0x0a50, 0x3a33, 0x2a12,
    0xdbfd, 0xcbdc, 0xfbbf, 0xeb9e, 0x9b79, 0x8b58, 0xbb3b, 0xab1a,
    0x6ca6, 0x7c87, 0x4ce4, 0x5cc5, 0x2c22, 0x3c03, 0x0c60, 0x1c41,
    0xedae, 0xfd8f, 0xcdec, 0xddcd, 0xad2a, 0xbd0b, 0x8d68, 0x9d49,
    0x7e97, 0x6eb6, 0x5ed5, 0x4ef4, 0x3e13, 0x2e32, 0x1e51, 0x0e70,
    0xff9f, 0xefbe, 0xdfdd, 0xcffc, 0xbf1b, 0xaf3a, 0x9f59, 0x8f78,
    0x9188, 0x81a9, 0xb1ca, 0xa1eb, 0xd10c, 0xc12d, 0xf14e, 0xe16f,
    0x1080, 0x00a1, 0x30c2, 0x20e3, 0x5004, 0x4025, 0x7046, 0x6067,
    0x83b9, 0x9398, 0xa3fb, 0xb3da, 0xc33d, 0xd31c, 0xe37f, 0xf35e,
    0x02b1, 0x1290, 0x22f3, 0x32d2, 0x4235, 0x5214, 0x6277, 0x7256,
    0xb5ea, 0xa5cb, 0x95a8, 0x8589, 0xf56e, 0xe54f, 0xd52c, 0xc50d,
    0x34e2, 0x24c3, 0x14a0, 0x0481, 0x7466, 0x6447, 0x5424, 0x4405,
    0xa7db, 0xb7fa, 0x8799, 0x97b8, 0xe75f, 0xf77e, 0xc71d, 0xd73c,
    0x26d3, 0x36f2, 0x0691, 0x16b0, 0x6657, 0x7676, 0x4615, 0x5634,
    0xd94c, 0xc96d, 0xf90e, 0xe92f, 0x99c8, 0x89e9, 0xb98a, 0xa9ab,
    0x5844, 0x4865, 0x7806, 0x6827, 0x18c0, 0x08e1, 0x3882, 0x28a3,
    0xcb7d, 0xdb5c, 0xeb3f, 0xfb1e, 0x8bf9, 0x9bd8, 0xabbb, 0xbb9a,
    0x4a75, 0x5a54, 0x6a37, 0x7a16, 0x0af1, 0x1ad0, 0x2ab3, 0x3a92,
    0xfd2e, 0xed0f, 0xdd6c, 0xcd4d, 0xbdaa, 0xad8b, 0x9de8, 0x8dc9,
    0x7c26, 0x6c07, 0x5c64, 0x4c45, 0x3ca2, 0x2c83, 0x1ce0, 0x0cc1,
    0xef1f, 0xff3e, 0xcf5d, 0xdf7c, 0xaf9b, 0xbfba, 0x8fd9, 0x9ff8,
    0x6e17, 0x7e36, 0x4e55, 0x5e74, 0x2e93, 0x3eb2, 0x0ed1, 0x1ef0]"

definition crc64_tab :: "64 word list" where
  "crc64_tab = [
    0x0000000000000000, 0x7ad870c830358979, 0xf5b0e190606b12f2, 0x8f689158505e9b8b,
    0xc038e5739841b68f, 0xbae095bba8743ff6, 0x358804e3f82aa47d, 0x4f50742bc81f2d04,
    0xab28ecb46814fe75, 0xd1f09c7c5821770c, 0x5e980d24087fec87, 0x24407dec384a65fe,
    0x6b1009c7f05548fa, 0x11c8790fc060c183, 0x9ea0e857903e5a08, 0xe478989fa00bd371,
    0x7d08ff3b88be6f81, 0x07d08ff3b88be6f8, 0x88b81eabe8d57d73, 0xf2606e63d8e0f40a,
    0xbd301a4810ffd90e, 0xc7e86a8020ca5077, 0x4880fbd87094cbfc, 0x32588b1040a14285,
    0xd620138fe0aa91f4, 0xacf86347d09f188d, 0x2390f21f80c18306, 0x594882d7b0f40a7f,
    0x1618f6fc78eb277b, 0x6cc0863448deae02, 0xe3a8176c18803589, 0x997067a428b5bcf0,
    0xfa11fe77117cdf02, 0x80c98ebf2149567b, 0x0fa11fe77117cdf0, 0x75796f2f41224489,
    0x3a291b04893d698d, 0x40f16bccb908e0f4, 0xcf99fa94e9567b7f, 0xb5418a5cd963f206,
    0x513912c379682177, 0x2be1620b495da80e, 0xa489f35319033385, 0xde51839b2936bafc,
    0x9101f7b0e12997f8, 0xebd98778d11c1e81, 0x64b116208142850a, 0x1e6966e8b1770c73,
    0x8719014c99c2b083, 0xfdc17184a9f739fa, 0x72a9e0dcf9a9a271, 0x08719014c99c2b08,
    0x4721e43f0183060c, 0x3df994f731b68f75, 0xb29105af61e814fe, 0xc849756751dd9d87,
    0x2c31edf8f1d64ef6, 0x56e99d30c1e3c78f, 0xd9810c6891bd5c04, 0xa3597ca0a188d57d,
    0xec09088b6997f879, 0x96d1784359a27100, 0x19b9e91b09fcea8b, 0x636199d339c963f2,
    0xdf7adabd7a6e2d6f, 0xa5a2aa754a5ba416, 0x2aca3b2d1a053f9d, 0x50124be52a30b6e4,
    0x1f423fcee22f9be0, 0x659a4f06d21a1299, 0xeaf2de5e82448912, 0x902aae96b271006b,
    0x74523609127ad31a, 0x0e8a46c1224f5a63, 0x81e2d7997211c1e8, 0xfb3aa75142244891,
    0xb46ad37a8a3b6595, 0xceb2a3b2ba0eecec, 0x41da32eaea507767, 0x3b024222da65fe1e,
    0xa2722586f2d042ee, 0xd8aa554ec2e5cb97, 0x57c2c41692bb501c, 0x2d1ab4dea28ed965,
    0x624ac0f56a91f461, 0x1892b03d5aa47d18, 0x97fa21650afae693, 0xed2251ad3acf6fea,
    0x095ac9329ac4bc9b, 0x7382b9faaaf135e2, 0xfcea28a2faafae69, 0x8632586aca9a2710,
    0xc9622c4102850a14, 0xb3ba5c8932b0836d, 0x3cd2cdd162ee18e6, 0x460abd1952db919f,
    0x256b24ca6b12f26d, 0x5fb354025b277b14, 0xd0dbc55a0b79e09f, 0xaa03b5923b4c69e6,
    0xe553c1b9f35344e2, 0x9f8bb171c366cd9b, 0x10e3202993385610, 0x6a3b50e1a30ddf69,
    0x8e43c87e03060c18, 0xf49bb8b633338561, 0x7bf329ee636d1eea, 0x012b592653589793,
    0x4e7b2d0d9b47ba97, 0x34a35dc5ab7233ee, 0xbbcbcc9dfb2ca865, 0xc113bc55cb19211c,
    0x5863dbf1e3ac9dec, 0x22bbab39d3991495, 0xadd33a6183c78f1e, 0xd70b4aa9b3f20667,
    0x985b3e827bed2b63, 0xe2834e4a4bd8a21a, 0x6debdf121b863991, 0x1733afda2bb3b0e8,
    0xf34b37458bb86399, 0x8993478dbb8deae0, 0x06fbd6d5ebd3716b, 0x7c23a61ddbe6f812,
    0x3373d23613f9d516, 0x49aba2fe23cc5c6f, 0xc6c333a67392c7e4, 0xbc1b436e43a74e9d,
    0x95ac9329ac4bc9b5, 0xef74e3e19c7e40cc, 0x601c72b9cc20db47, 0x1ac40271fc15523e,
    0x5594765a340a7f3a, 0x2f4c0692043ff643, 0xa02497ca54616dc8, 0xdafce7026454e4b1,
    0x3e847f9dc45f37c0, 0x445c0f55f46abeb9, 0xcb349e0da4342532, 0xb1eceec59401ac4b,
    0xfebc9aee5c1e814f, 0x8464ea266c2b0836, 0x0b0c7b7e3c7593bd, 0x71d40bb60c401ac4,
    0xe8a46c1224f5a634, 0x927c1cda14c02f4d, 0x1d148d82449eb4c6, 0x67ccfd4a74ab3dbf,
    0x289c8961bcb410bb, 0x5244f9a98c8199c2, 0xdd2c68f1dcdf0249, 0xa7f41839ecea8b30,
    0x438c80a64ce15841, 0x3954f06e7cd4d138, 0xb63c61362c8a4ab3, 0xcce411fe1cbfc3ca,
    0x83b465d5d4a0eece, 0xf96c151de49567b7, 0x76048445b4cbfc3c, 0x0cdcf48d84fe7545,
    0x6fbd6d5ebd3716b7, 0x15651d968d029fce, 0x9a0d8ccedd5c0445, 0xe0d5fc06ed698d3c,
    0xaf85882d2576a038, 0xd55df8e515432941, 0x5a3569bd451db2ca, 0x20ed197575283bb3,
    0xc49581ead523e8c2, 0xbe4df122e51661bb, 0x3125607ab548fa30, 0x4bfd10b2857d7349,
    0x04ad64994d625e4d, 0x7e7514517d57d734, 0xf11d85092d094cbf, 0x8bc5f5c11d3cc5c6,
    0x12b5926535897936, 0x686de2ad05bcf04f, 0xe70573f555e26bc4, 0x9ddd033d65d7e2bd,
    0xd28d7716adc8cfb9, 0xa85507de9dfd46c0, 0x273d9686cda3dd4b, 0x5de5e64efd965432,
    0xb99d7ed15d9d8743, 0xc3450e196da80e3a, 0x4c2d9f413df695b1, 0x36f5ef890dc31cc8,
    0x79a59ba2c5dc31cc, 0x037deb6af5e9b8b5, 0x8c157a32a5b7233e, 0xf6cd0afa9582aa47,
    0x4ad64994d625e4da, 0x300e395ce6106da3, 0xbf66a804b64ef628, 0xc5bed8cc867b7f51,
    0x8aeeace74e645255, 0xf036dc2f7e51db2c, 0x7f5e4d772e0f40a7, 0x05863dbf1e3ac9de,
    0xe1fea520be311aaf, 0x9b26d5e88e0493d6, 0x144e44b0de5a085d, 0x6e963478ee6f8124,
    0x21c640532670ac20, 0x5b1e309b16452559, 0xd476a1c3461bbed2, 0xaeaed10b762e37ab,
    0x37deb6af5e9b8b5b, 0x4d06c6676eae0222, 0xc26e573f3ef099a9, 0xb8b627f70ec510d0,
    0xf7e653dcc6da3dd4, 0x8d3e2314f6efb4ad, 0x0256b24ca6b12f26, 0x788ec2849684a65f,
    0x9cf65a1b368f752e, 0xe62e2ad306bafc57, 0x6946bb8b56e467dc, 0x139ecb4366d1eea5,
    0x5ccebf68aecec3a1, 0x2616cfa09efb4ad8, 0xa97e5ef8cea5d153, 0xd3a62e30fe90582a,
    0xb0c7b7e3c7593bd8, 0xca1fc72bf76cb2a1, 0x45775673a732292a, 0x3faf26bb9707a053,
    0x70ff52905f188d57, 0x0a2722586f2d042e, 0x854fb3003f739fa5, 0xff97c3c80f4616dc,
    0x1bef5b57af4dc5ad, 0x61372b9f9f784cd4, 0xee5fbac7cf26d75f, 0x9487ca0fff135e26,
    0xdbd7be24370c7322, 0xa10fceec0739fa5b, 0x2e675fb4576761d0, 0x54bf2f7c6752e8a9,
    0xcdcf48d84fe75459, 0xb71738107fd2dd20, 0x387fa9482f8c46ab, 0x42a7d9801fb9cfd2,
    0x0df7adabd7a6e2d6, 0x772fdd63e7936baf, 0xf8474c3bb7cdf024, 0x829f3cf387f8795d,
    0x66e7a46c27f3aa2c, 0x1c3fd4a417c62355, 0x935745fc4798b8de, 0xe98f353477ad31a7,
    0xa6df411fbfb21ca3, 0xdc0731d78f8795da, 0x536fa08fdfd90e51, 0x29b7d047efec8728]"

text \<open>The byte at a position; the table has an entry for each value of the index.\<close>

definition crc16_step :: "16 word \<Rightarrow> char \<Rightarrow> 16 word" where
  "crc16_step crc b = push_bit 8 crc XOR crc16tab ! unat ((drop_bit 8 crc XOR of_char b) AND 0x00FF)"

definition crc16 :: "string \<Rightarrow> 16 word" where
  "crc16 buf = foldl crc16_step 0 buf"

definition crc64_step :: "64 word \<Rightarrow> char \<Rightarrow> 64 word" where
  "crc64_step crc byte = crc64_tab ! unat ((crc AND 0xFF) XOR of_char byte) XOR drop_bit 8 crc"

definition crc64 :: "64 word \<Rightarrow> string \<Rightarrow> 64 word" where
  "crc64 crc s = foldl crc64_step crc s"

text \<open>The loops of \<open>keyHashSlot\<close> that look for a brace from the position \<open>s\<close> on.\<close>

function brace_from :: "string \<Rightarrow> char \<Rightarrow> nat \<Rightarrow> nat" where
  "brace_from key ch s = (if s < length key then (if key ! s = ch then s else brace_from key ch (s + 1)) else s)"
  by auto
termination by (relation "measure (\<lambda>(key, ch, s). length key - s)") auto

declare brace_from.simps [simp del]

definition keyHashSlot :: "string \<Rightarrow> nat" where
  "keyHashSlot key =
     (let s = brace_from key (CHR ''{'') 0
      in if s = length key then unat (crc16 key AND 0x3FFF)
         else
           (let e = brace_from key (CHR ''}'') (s + 1)
            in if e = length key \<or> e = s + 1 then unat (crc16 key AND 0x3FFF)
               else unat (crc16 (take (e - s - 1) (drop (s + 1) key)) AND 0x3FFF)))"

section \<open>The reference\<close>

text \<open>One bit of the division: by \<open>x^16 + x^12 + x^5 + 1\<close> from the most significant bit on, and by the
  polynomial of the header of \<open>crc64.c\<close> with its bits reversed from the least significant bit on.\<close>

definition bit16 :: "16 word \<Rightarrow> 16 word" where
  "bit16 c = push_bit 1 c XOR (if bit c 15 then 0x1021 else 0)"

definition bit64 :: "64 word \<Rightarrow> 64 word" where
  "bit64 c = drop_bit 1 c XOR (if bit c 0 then 0x95AC9329AC4BC9B5 else 0)"

definition crc16_byte :: "16 word \<Rightarrow> char \<Rightarrow> 16 word" where
  "crc16_byte c b = (bit16 ^^ 8) (c XOR push_bit 8 (of_char b))"

definition crc64_byte :: "64 word \<Rightarrow> char \<Rightarrow> 64 word" where
  "crc64_byte c b = (bit64 ^^ 8) (c XOR of_char b)"

section \<open>The tables\<close>

text \<open>A table of a linear function is built from its values at the powers of two.\<close>

definition doubled :: "'a::len word list \<Rightarrow> 'a word list" where
  "doubled ts = foldl (\<lambda>l t. l @ map (\<lambda>x. t XOR x) l) [0] ts"

lemma power_xor: "j < 2 ^ k \<Longrightarrow> 2 ^ k + j = push_bit k 1 XOR (j :: nat)"
proof -
  assume "j < 2 ^ k"
  then have "\<not> bit j n" if "k \<le> n" for n
    using that by (metis bit_take_bit_iff leD take_bit_nat_eq_self_iff)
  then have "push_bit k 1 AND j = 0" by (intro bit_eqI) (auto simp: bit_simps)
  then show ?thesis by (simp add: push_bit_of_1 disjunctive_add_eq_xor)
qed

lemma doubled_nth:
  fixes f :: "'a::len word \<Rightarrow> 'a word"
  assumes lin: "\<And>x y. f (x XOR y) = f x XOR f y"
  shows "length (doubled (map (\<lambda>j. f (push_bit j 1)) [0..<k])) = 2 ^ k \<and>
    (\<forall>i < 2 ^ k. doubled (map (\<lambda>j. f (push_bit j 1)) [0..<k]) ! i = f (of_nat i))"
proof (induction k)
  case 0
  have "f 0 = 0" using lin [of 0 0] by simp
  then show ?case by (simp add: doubled_def)
next
  case (Suc k)
  define l where "l = doubled (map (\<lambda>j. f (push_bit j 1)) [0..<k])"
  have d: "doubled (map (\<lambda>j. f (push_bit j 1)) [0..<Suc k]) = l @ map (\<lambda>x. f (push_bit k 1) XOR x) l"
    by (simp add: doubled_def l_def)
  have ih: "length l = 2 ^ k" "\<And>i. i < 2 ^ k \<Longrightarrow> l ! i = f (of_nat i)" using Suc.IH by (simp_all add: l_def)
  have "(l @ map (\<lambda>x. f (push_bit k 1) XOR x) l) ! i = f (of_nat i)" if i: "i < 2 ^ Suc k" for i
  proof (cases "i < 2 ^ k")
    case True
    then show ?thesis using ih by (simp add: nth_append)
  next
    case False
    define j where "j = i - 2 ^ k"
    have j: "i = 2 ^ k + j" "j < 2 ^ k" using False i by (simp_all add: j_def)
    have "of_nat i = (push_bit k 1 XOR of_nat j :: 'a word)" unfolding j(1) power_xor [OF j(2)] by (simp add: of_nat_xor_eq of_nat_push_bit)
    then show ?thesis using False j ih by (simp add: nth_append lin)
  qed
  then show ?case unfolding d using ih(1) by simp
qed

lemma funpow_linear:
  fixes f :: "'a::len word \<Rightarrow> 'a word"
  assumes "\<And>x y. f (x XOR y) = f x XOR f y"
  shows "(f ^^ n) (x XOR y) = (f ^^ n) x XOR (f ^^ n) y"
  by (induction n) (simp_all add: assms)

lemma eight: "(f ^^ 8) x = f (f (f (f (f (f (f (f x)))))))"
  by (simp add: eval_nat_numeral)

lemma bit16_linear: "bit16 (x XOR y) = bit16 x XOR bit16 y"
  by (simp add: bit16_def push_bit_xor bit_xor_iff ac_simps)

lemma bit64_linear: "bit64 (x XOR y) = bit64 x XOR bit64 y"
  by (simp add: bit64_def drop_bit_xor bit_xor_iff ac_simps)

lemma crc16tab_nth:
  assumes "i < 256"
  shows "crc16tab ! i = (bit16 ^^ 8) (push_bit 8 (of_nat i))"
proof -
  define f where "f = (\<lambda>x. (bit16 ^^ 8) (push_bit 8 x))"
  have lin: "f (x XOR y) = f x XOR f y" for x y by (simp add: f_def push_bit_xor funpow_linear [OF bit16_linear])
  have "[0..<8] = [0, 1, 2, 3, 4, 5, 6, 7 :: nat]" by (simp add: upt_rec)
  then have "map (\<lambda>j. f (push_bit j 1)) [0..<8] = [0x1021, 0x2042, 0x4084, 0x8108, 0x1231, 0x2462, 0x48c4, 0x9188]"
    by (simp add: f_def eight bit16_def)
  moreover have "crc16tab = doubled [0x1021, 0x2042, 0x4084, 0x8108, 0x1231, 0x2462, 0x48c4, 0x9188]"
    unfolding crc16tab_def doubled_def by simp
  ultimately have "crc16tab ! i = f (of_nat i)" using doubled_nth [where f = f and k = 8, OF lin] assms by simp
  then show ?thesis by (simp add: f_def)
qed

lemma crc64_tab_nth:
  assumes "i < 256"
  shows "crc64_tab ! i = (bit64 ^^ 8) (of_nat i)"
proof -
  note lin = funpow_linear [OF bit64_linear, of 8]
  have "[0..<8] = [0, 1, 2, 3, 4, 5, 6, 7 :: nat]" by (simp add: upt_rec)
  then have "map (\<lambda>j. (bit64 ^^ 8) (push_bit j 1)) [0..<8] = [0x7ad870c830358979, 0xf5b0e190606b12f2, 0xc038e5739841b68f, 0xab28ecb46814fe75, 0x7d08ff3b88be6f81, 0xfa11fe77117cdf02, 0xdf7adabd7a6e2d6f, 0x95ac9329ac4bc9b5]"
    by (simp add: eight bit64_def)
  moreover have "crc64_tab = doubled [0x7ad870c830358979, 0xf5b0e190606b12f2, 0xc038e5739841b68f, 0xab28ecb46814fe75, 0x7d08ff3b88be6f81, 0xfa11fe77117cdf02, 0xdf7adabd7a6e2d6f, 0x95ac9329ac4bc9b5]"
    unfolding crc64_tab_def doubled_def by simp
  ultimately show ?thesis using doubled_nth [where f = "bit64 ^^ 8" and k = 8, OF lin] assms by simp
qed

section \<open>The routines\<close>

lemma of_char_byte: "8 \<le> n \<Longrightarrow> \<not> bit (of_char b :: 'a::len word) n"
  unfolding of_char_def bit_horner_sum_bit_iff by simp

lemma bit16_low:
  assumes "\<And>k. 8 \<le> k \<Longrightarrow> \<not> bit lo k" and "n \<le> 8"
  shows "(bit16 ^^ n) lo = push_bit n lo"
  using assms(2)
proof (induction n)
  case (Suc n)
  have "\<not> bit (push_bit n lo) 15" using assms(1) [of "15 - n"] Suc.prems by (simp add: bit_push_bit_iff)
  then have "bit16 (push_bit n lo) = push_bit 1 (push_bit n lo)" by (simp add: bit16_def)
  then show ?case using Suc by (simp add: push_bit_push_bit)
qed simp

lemma low_byte: "x AND 0xFF = take_bit 8 x" for x :: "'a::len word"
  by (simp add: take_bit_eq_mask mask_eq_exp_minus_1)

lemma low_byte_less: "unat (take_bit 8 x :: 16 word) < 256" "unat (take_bit 8 y :: 64 word) < 256"
  unfolding unsigned_take_bit_eq by (simp_all add: take_bit_eq_mod)

lemma crc16_step_byte: "crc16_step c b = crc16_byte c b"
proof -
  define i where "i = take_bit 8 (drop_bit 8 c XOR of_char b)"
  have "c XOR push_bit 8 (of_char b) = push_bit 8 i XOR take_bit 8 c"
    by (intro bit_word_eqI) (auto simp: i_def bit_simps of_char_byte)
  moreover have "(bit16 ^^ 8) (take_bit 8 c) = push_bit 8 (take_bit 8 c)" by (rule bit16_low) (simp_all add: bit_simps)
  moreover have "push_bit 8 (take_bit 8 c) = push_bit 8 c" by (intro bit_word_eqI) (auto simp: bit_simps)
  moreover have "unat i < 256" unfolding i_def by (rule low_byte_less)
  from crc16tab_nth [OF this] have "crc16tab ! unat i = (bit16 ^^ 8) (push_bit 8 i)" by simp
  ultimately show ?thesis
    unfolding crc16_step_def crc16_byte_def low_byte i_def [symmetric] by (simp add: funpow_linear [OF bit16_linear] xor.commute)
qed

lemma bit64_high:
  assumes "\<And>k. 56 \<le> k \<Longrightarrow> \<not> bit d k" and "n \<le> 8"
  shows "(bit64 ^^ n) (push_bit 8 d) = push_bit (8 - n) d"
  using assms(2)
proof (induction n)
  case (Suc n)
  then obtain m where m: "8 - n = Suc m" "8 - Suc n = m" "m < 8" by (metis Suc_diff_Suc Suc_le_lessD diff_less lessI less_imp_diff_less zero_less_Suc less_Suc_eq_le diff_le_self)
  have "\<not> bit (push_bit (Suc m) d) 0" unfolding bit_push_bit_iff by simp
  moreover have "drop_bit 1 (push_bit (Suc m) d) = push_bit m d"
  proof (intro bit_word_eqI)
    fix k assume "k < LENGTH(64)"
    moreover have "bit d (k - m) \<Longrightarrow> m \<le> k \<Longrightarrow> k < 63" using assms(1) [of "k - m"] m(3) by (cases "56 \<le> k - m") auto
    ultimately show "bit (drop_bit 1 (push_bit (Suc m) d)) k = bit (push_bit m d) k"
      unfolding bit_drop_bit_eq bit_push_bit_iff comp_def by auto
  qed
  ultimately show ?case using Suc m by (simp add: bit64_def)
qed simp

lemma crc64_step_byte: "crc64_step c b = crc64_byte c b"
proof -
  define i where "i = take_bit 8 c XOR of_char b"
  have "i = take_bit 8 i" by (intro bit_word_eqI) (auto simp: i_def bit_simps of_char_byte)
  then have "unat i < 256" using low_byte_less(2) [of i] by simp
  then have "crc64_tab ! unat i = (bit64 ^^ 8) i" using crc64_tab_nth [of "unat i"] by simp
  moreover have "c XOR of_char b = push_bit 8 (drop_bit 8 c) XOR i"
    by (intro bit_word_eqI) (auto simp: i_def bit_simps)
  moreover have "(bit64 ^^ 8) (push_bit 8 (drop_bit 8 c)) = drop_bit 8 c"
    using bit64_high [of "drop_bit 8 c" 8] by (simp add: bit_simps impossible_bit)
  ultimately show ?thesis
    unfolding crc64_step_def crc64_byte_def low_byte i_def [symmetric] by (simp add: funpow_linear [OF bit64_linear] xor.commute)
qed

lemma brace_from_takeWhile:
  "s \<le> length key \<Longrightarrow> brace_from key ch s = s + length (takeWhile (\<lambda>c. c \<noteq> ch) (drop s key))"
proof (induction key ch s rule: brace_from.induct)
  case (1 key ch s)
  show ?case
  proof (cases "s < length key")
    case True
    then have "drop s key = key ! s # drop (Suc s) key" by (rule Cons_nth_drop_Suc [symmetric])
    then show ?thesis using 1 True by (subst brace_from.simps) simp
  qed (subst brace_from.simps, simp)
qed

text \<open>The part of a key that decides its slot.\<close>

definition hash_tag :: "string \<Rightarrow> string" where
  "hash_tag key =
     (case dropWhile (\<lambda>c. c \<noteq> CHR ''{'') key of [] \<Rightarrow> key
      | _ # rest \<Rightarrow> (let tag = takeWhile (\<lambda>c. c \<noteq> CHR ''}'') rest in if tag = [] \<or> tag = rest then key else tag))"

lemma takeWhile_all: "length (takeWhile P xs) = length xs \<longleftrightarrow> takeWhile P xs = xs"
  by (metis takeWhile_eq_take take_all order.refl)

lemma keyHashSlot_tag: "keyHashSlot key = unat (crc16 (hash_tag key) AND 0x3FFF)"
proof -
  define s where "s = length (takeWhile (\<lambda>c. c \<noteq> CHR ''{'') key)"
  have b: "brace_from key (CHR ''{'') 0 = s" using brace_from_takeWhile [of 0 key] by (simp add: s_def)
  have d: "dropWhile (\<lambda>c. c \<noteq> CHR ''{'') key = drop s key" unfolding s_def by (rule dropWhile_eq_drop)
  have sl: "s \<le> length key" unfolding s_def by (rule length_takeWhile_le)
  show ?thesis
  proof (cases "s = length key")
    case True
    then have "drop s key = []" by simp
    then show ?thesis unfolding keyHashSlot_def hash_tag_def Let_def b d using True by simp
  next
    case False
    then have dr: "drop s key = key ! s # drop (s + 1) key" using sl Cons_nth_drop_Suc [of s key] by simp
    define tag where "tag = takeWhile (\<lambda>c. c \<noteq> CHR ''}'') (drop (s + 1) key)"
    have e: "brace_from key (CHR ''}'') (s + 1) = s + 1 + length tag"
      using brace_from_takeWhile [of "s + 1" key] False sl by (simp add: tag_def)
    have "s + 1 + length tag = length key \<longleftrightarrow> length tag = length (drop (s + 1) key)" using False sl by auto
    then have l: "s + 1 + length tag = length key \<longleftrightarrow> tag = drop (s + 1) key" unfolding tag_def takeWhile_all by simp
    have t: "take (s + 1 + length tag - s - 1) (drop (s + 1) key) = tag" by (simp add: tag_def takeWhile_eq_take [symmetric])
    have h: "hash_tag key = (if tag = [] \<or> tag = drop (s + 1) key then key else tag)"
      unfolding hash_tag_def d dr list.case Let_def tag_def [symmetric] ..
    show ?thesis
    proof (cases "tag = [] \<or> tag = drop (s + 1) key")
      case True
      then have "s + 1 + length tag = length key \<or> s + 1 + length tag = s + 1" using l by auto
      then show ?thesis unfolding keyHashSlot_def Let_def b e h if_P [OF True] using False by simp
    next
      case no: False
      then have "\<not> (s + 1 + length tag = length key \<or> s + 1 + length tag = s + 1)" using l by simp
      then show ?thesis unfolding keyHashSlot_def Let_def b e h if_not_P [OF no] t using False by simp
    qed
  qed
qed

lemma crc64_bytes: "crc64 crc s = foldl crc64_byte crc s"
proof -
  have "crc64_step = crc64_byte" by (intro ext crc64_step_byte)
  then show ?thesis by (simp add: crc64_def)
qed

section \<open>The properties\<close>

text \<open>C16: The table-driven \<open>crc64\<close> is the division of the checksum bit by bit by the reflected polynomial that the
  source names, for every initial value and every text.\<close>

theorem crc64_divides: "crc64 crc s = foldl crc64_byte crc s"
  by (rule crc64_bytes)

text \<open>C28: The slot of a key is the remainder of the bitwise checksum of its hash tag by 16384: the text between
  the first opening brace and the next closing one if there is such a text, and the key otherwise.\<close>

theorem keyHashSlot_of_tag: "keyHashSlot key = unat (foldl crc16_byte 0 (hash_tag key)) mod 16384"
proof -
  have "crc16_step = crc16_byte" by (intro ext crc16_step_byte)
  moreover have "unat (x AND 0x3FFF) = unat x mod 16384" for x :: "16 word"
  proof -
    have "x AND 0x3FFF = take_bit 14 x" by (simp add: take_bit_eq_mask mask_eq_exp_minus_1)
    then have "unat (x AND 0x3FFF) = take_bit 14 (unat x)" by (simp only: unsigned_take_bit_eq)
    then show ?thesis by (simp add: take_bit_eq_mod)
  qed
  ultimately show ?thesis unfolding keyHashSlot_tag crc16_def by simp
qed

text \<open>The check that the header of \<open>crc64.c\<close> gives, which needs the initial value 0.\<close>

lemma crc64_check: "crc64 0 ''123456789'' = 0xe9c6d914c4b8d9ca"
  unfolding crc64_bytes by (simp add: crc64_byte_def eight bit64_def)

end
