(* ===== verification/Bitops.thy ===== *)
theory Bitops
  imports Prelude
begin

text \<open>
  The bitmap routines of \<open>bitops.c\<close>: counting the set bits, finding the first bit of a value, reading
  and writing integers of up to 64 bits at any position, and the detection of overflow. A bitmap is
  the list of its bytes; bit 0 is the most significant bit of the first byte. The address of a bitmap
  is a parameter where the code depends on its alignment. Words are loaded in little endian order.
  A shift by the width of its operand is undefined and is the value \<open>None\<close>.
\<close>

unbundle bit_operations_syntax

type_synonym bitmap = "8 word list"

section \<open>Counting bits\<close>

definition bitsinbyte :: "nat list" where
  "bitsinbyte = [
    0, 1, 1, 2, 1, 2, 2, 3, 1, 2, 2, 3, 2, 3, 3, 4, 1, 2, 2, 3, 2, 3, 3, 4, 2, 3, 3, 4, 3, 4, 4, 5,
    1, 2, 2, 3, 2, 3, 3, 4, 2, 3, 3, 4, 3, 4, 4, 5, 2, 3, 3, 4, 3, 4, 4, 5, 3, 4, 4, 5, 4, 5, 5, 6,
    1, 2, 2, 3, 2, 3, 3, 4, 2, 3, 3, 4, 3, 4, 4, 5, 2, 3, 3, 4, 3, 4, 4, 5, 3, 4, 4, 5, 4, 5, 5, 6,
    2, 3, 3, 4, 3, 4, 4, 5, 3, 4, 4, 5, 4, 5, 5, 6, 3, 4, 4, 5, 4, 5, 5, 6, 4, 5, 5, 6, 5, 6, 6, 7,
    1, 2, 2, 3, 2, 3, 3, 4, 2, 3, 3, 4, 3, 4, 4, 5, 2, 3, 3, 4, 3, 4, 4, 5, 3, 4, 4, 5, 4, 5, 5, 6,
    2, 3, 3, 4, 3, 4, 4, 5, 3, 4, 4, 5, 4, 5, 5, 6, 3, 4, 4, 5, 4, 5, 5, 6, 4, 5, 5, 6, 5, 6, 6, 7,
    2, 3, 3, 4, 3, 4, 4, 5, 3, 4, 4, 5, 4, 5, 5, 6, 3, 4, 4, 5, 4, 5, 5, 6, 4, 5, 5, 6, 5, 6, 6, 7,
    3, 4, 4, 5, 4, 5, 5, 6, 4, 5, 5, 6, 5, 6, 6, 7, 4, 5, 5, 6, 5, 6, 6, 7, 5, 6, 6, 7, 6, 7, 7, 8]"

text \<open>The bytes before the first aligned address, or all of them.\<close>

fun pop_head :: "nat \<Rightarrow> bitmap \<Rightarrow> nat \<Rightarrow> nat \<times> bitmap" where
  "pop_head addr [] bits = (bits, [])"
| "pop_head addr (b # bs) bits =
     (if addr mod 4 \<noteq> 0 then pop_head (addr + 1) bs (bits + bitsinbyte ! unat b) else (bits, b # bs))"

definition load32 :: "bitmap \<Rightarrow> nat \<Rightarrow> 32 word" where
  "load32 p i = ucast (p ! i) OR push_bit 8 (ucast (p ! (i + 1))) OR push_bit 16 (ucast (p ! (i + 2))) OR push_bit 24 (ucast (p ! (i + 3)))"

definition pop_pairs :: "32 word \<Rightarrow> 32 word" where
  "pop_pairs aux =
     (let aux = aux - (drop_bit 1 aux AND 0x55555555)
      in (aux AND 0x33333333) + (drop_bit 2 aux AND 0x33333333))"

definition pop_bytes :: "32 word \<Rightarrow> 32 word" where
  "pop_bytes aux = (aux + drop_bit 4 aux) AND 0x0F0F0F0F"

definition pop_28 :: "bitmap \<Rightarrow> 32 word" where
  "pop_28 p =
     (let aux1 = pop_pairs (load32 p 0); aux2 = pop_pairs (load32 p 4); aux3 = pop_pairs (load32 p 8);
          aux4 = pop_pairs (load32 p 12); aux5 = pop_pairs (load32 p 16); aux6 = pop_pairs (load32 p 20);
          aux7 = pop_pairs (load32 p 24)
      in drop_bit 24 ((pop_bytes aux1 + pop_bytes aux2 + pop_bytes aux3 + pop_bytes aux4 + pop_bytes aux5 +
           pop_bytes aux6 + pop_bytes aux7) * 0x01010101))"

function pop_words :: "bitmap \<Rightarrow> nat \<Rightarrow> nat \<times> bitmap" where
  "pop_words p bits = (if length p \<ge> 28 then pop_words (drop 28 p) (bits + unat (pop_28 p)) else (bits, p))"
  by auto
termination by (relation "measure (\<lambda>(p, bits). length p)") auto

declare pop_words.simps [simp del]

definition redisPopcount :: "nat \<Rightarrow> bitmap \<Rightarrow> nat" where
  "redisPopcount addr s =
     (let (bits, p) = pop_head addr s 0; (bits, p) = pop_words p bits
      in foldl (\<lambda>bits b. bits + bitsinbyte ! unat b) bits p)"

section \<open>Finding a bit\<close>

text \<open>The bytes before the first aligned address that hold no bit of the value: the position reached, the rest
  of the bitmap, and whether the first byte of the rest holds such a bit.\<close>

fun skip_bytes :: "nat \<Rightarrow> bool \<Rightarrow> bitmap \<Rightarrow> nat \<Rightarrow> nat \<times> bitmap \<times> bool" where
  "skip_bytes addr v [] pos = (pos, [], False)"
| "skip_bytes addr v (c # cs) pos =
     (if addr mod 8 \<noteq> 0
      then (if c \<noteq> (if v then 0 else 0xFF) then (pos, c # cs, True) else skip_bytes (addr + 1) v cs (pos + 8))
      else (pos, c # cs, False))"

definition load_long :: "bitmap \<Rightarrow> 64 word" where
  "load_long p = foldr (\<lambda>b w. push_bit 8 w OR ucast b) (take 8 p) 0"

function skip_words :: "bool \<Rightarrow> bitmap \<Rightarrow> nat \<Rightarrow> nat \<times> bitmap" where
  "skip_words v l pos =
     (if length l \<ge> 8 \<and> load_long l = (if v then 0 else - 1) then skip_words v (drop 8 l) (pos + 64) else (pos, l))"
  by auto
termination by (relation "measure (\<lambda>(v, l, pos). length l)") auto

declare skip_words.simps [simp del]

primrec load_be :: "nat \<Rightarrow> bitmap \<Rightarrow> 64 word \<Rightarrow> 64 word" where
  "load_be 0 c w = w"
| "load_be (Suc j) c w =
     (let w = push_bit 8 w
      in case c of [] \<Rightarrow> load_be j [] w | b # bs \<Rightarrow> load_be j bs (w OR ucast b))"

function scan_bits :: "64 word \<Rightarrow> bool \<Rightarrow> 64 word \<Rightarrow> nat \<Rightarrow> nat option" where
  "scan_bits w v one pos =
     (if one = 0 then None else if (one AND w \<noteq> 0) = v then Some pos else scan_bits w v (drop_bit 1 one) (pos + 1))"
  by auto
termination
  by (relation "measure (\<lambda>(w, v, one, pos). unat one)") (auto simp: unat_gt_0 drop_bit_eq_div unat_div)

declare scan_bits.simps [simp del]

definition redisBitpos :: "nat \<Rightarrow> bitmap \<Rightarrow> bool \<Rightarrow> int option" where
  "redisBitpos addr s v =
     (let (pos, c, found) = skip_bytes addr v s 0;
          (pos, l) = (if \<not> found then skip_words v c pos else (pos, c));
          w = load_be 8 l 0
      in if v \<and> w = 0 then Some (- 1)
         else map_option int (scan_bits w v (NOT (drop_bit 1 (- 1))) pos))"

section \<open>Integers in a bitmap\<close>

text \<open>\<open>n\<close> is the number of bits left, \<open>bits - j\<close> in the source.\<close>

primrec set_bits :: "nat \<Rightarrow> bitmap \<Rightarrow> nat \<Rightarrow> 64 word \<Rightarrow> bitmap option" where
  "set_bits 0 p offset value = Some p"
| "set_bits (Suc n) p offset value =
     (if n < 64 \<and> offset div 8 < length p
      then
        (let bitval = (value AND push_bit n 1 \<noteq> 0);
             byte = offset div 8;
             b = 7 - offset mod 8;
             byteval = (ucast (p ! byte) :: 64 word);
             byteval = byteval AND NOT (push_bit b 1);
             byteval = byteval OR push_bit b (of_bool bitval)
         in set_bits n (p[byte := ucast (byteval AND 0xFF)]) (offset + 1) value)
      else None)"

definition setUnsignedBitfield :: "bitmap \<Rightarrow> nat \<Rightarrow> nat \<Rightarrow> 64 word \<Rightarrow> bitmap option" where
  "setUnsignedBitfield p offset bits value = set_bits bits p offset value"

definition setSignedBitfield :: "bitmap \<Rightarrow> nat \<Rightarrow> nat \<Rightarrow> int \<Rightarrow> bitmap option" where
  "setSignedBitfield p offset bits value = setUnsignedBitfield p offset bits (of_int value)"

primrec get_bits :: "nat \<Rightarrow> bitmap \<Rightarrow> nat \<Rightarrow> 64 word \<Rightarrow> 64 word option" where
  "get_bits 0 p offset value = Some value"
| "get_bits (Suc n) p offset value =
     (if offset div 8 < length p
      then
        (let b = 7 - offset mod 8;
             byteval = (ucast (p ! (offset div 8)) :: 64 word);
             bitval = drop_bit b byteval AND 1
         in get_bits n p (offset + 1) (push_bit 1 value OR bitval))
      else None)"

definition getUnsignedBitfield :: "bitmap \<Rightarrow> nat \<Rightarrow> nat \<Rightarrow> 64 word option" where
  "getUnsignedBitfield p offset bits = get_bits bits p offset 0"

definition shl64 :: "64 word \<Rightarrow> nat \<Rightarrow> 64 word option" where
  "shl64 x n = (if n < 64 then Some (push_bit n x) else None)"

definition getSignedBitfield :: "bitmap \<Rightarrow> nat \<Rightarrow> nat \<Rightarrow> int option" where
  "getSignedBitfield p offset bits =
     do { value \<leftarrow> getUnsignedBitfield p offset bits;
          msb \<leftarrow> shl64 1 (bits - 1);
          value \<leftarrow> (if value AND msb \<noteq> 0 then map_option (\<lambda>m. value OR m) (shl64 (- 1) bits) else Some value);
          Some (sint value) }"

section \<open>Overflow\<close>

datatype bfoverflow = BFOVERFLOW_WRAP | BFOVERFLOW_SAT | BFOVERFLOW_FAIL

text \<open>The result is the value returned and what was stored in \<open>limit\<close>, if anything.\<close>

definition checkUnsignedBitfieldOverflow :: "64 word \<Rightarrow> int \<Rightarrow> nat \<Rightarrow> bfoverflow \<Rightarrow> (int \<times> 64 word option) option" where
  "checkUnsignedBitfieldOverflow value incr bits owtype =
     do {
       max \<leftarrow> (if bits = 64 then Some (- 1) else map_option (\<lambda>x. x - 1) (shl64 1 bits));
       let maxincr = sint (max - value);
       let minincr = sint (- value);
       let handle_wrap = map_option (\<lambda>mask. (1, Some ((value + of_int incr) AND NOT mask))) (shl64 (- 1) bits);
       if value > max \<or> incr > 0 \<and> incr > maxincr
       then (case owtype of BFOVERFLOW_WRAP \<Rightarrow> handle_wrap | BFOVERFLOW_SAT \<Rightarrow> Some (1, Some max) | BFOVERFLOW_FAIL \<Rightarrow> Some (1, None))
       else if incr < 0 \<and> incr < minincr
       then (case owtype of BFOVERFLOW_WRAP \<Rightarrow> handle_wrap | BFOVERFLOW_SAT \<Rightarrow> Some (- 1, Some 0) | BFOVERFLOW_FAIL \<Rightarrow> Some (- 1, None))
       else Some (0, None) }"

text \<open>The differences may overflow and are taken modulo \<open>2^64\<close>, as the comment in the source assumes.\<close>

definition checkSignedBitfieldOverflow :: "int \<Rightarrow> int \<Rightarrow> nat \<Rightarrow> bfoverflow \<Rightarrow> (int \<times> int option) option" where
  "checkSignedBitfieldOverflow value incr bits owtype =
     do {
       max \<leftarrow> (if bits = 64 then Some (2 ^ 63 - 1) else map_option (\<lambda>x. sint x - 1) (shl64 1 (bits - 1)));
       let min = - max - 1;
       let maxincr = s64 (max - value);
       let minincr = s64 (min - value);
       let handle_wrap =
         do { mask \<leftarrow> shl64 (- 1) bits;
              msb \<leftarrow> shl64 1 (bits - 1);
              let c = (of_int value + of_int incr :: 64 word);
              Some (1, Some (sint (if c AND msb \<noteq> 0 then c OR mask else c AND NOT mask))) };
       if value > max \<or> bits \<noteq> 64 \<and> incr > maxincr \<or> value \<ge> 0 \<and> incr > 0 \<and> incr > maxincr
       then (case owtype of BFOVERFLOW_WRAP \<Rightarrow> handle_wrap | BFOVERFLOW_SAT \<Rightarrow> Some (1, Some max) | BFOVERFLOW_FAIL \<Rightarrow> Some (1, None))
       else if value < min \<or> bits \<noteq> 64 \<and> incr < minincr \<or> value < 0 \<and> incr < 0 \<and> incr < minincr
       then (case owtype of BFOVERFLOW_WRAP \<Rightarrow> handle_wrap | BFOVERFLOW_SAT \<Rightarrow> Some (- 1, Some min) | BFOVERFLOW_FAIL \<Rightarrow> Some (- 1, None))
       else Some (0, None) }"

section \<open>The number of set bits\<close>

definition pop :: "8 word \<Rightarrow> nat" where
  "pop b = length (filter (bit b) [0..<8])"

definition popcount :: "bitmap \<Rightarrow> nat" where
  "popcount p = sum_list (map pop p)"

lemma bit_nat_high: "j < 2 ^ k \<Longrightarrow> k \<le> n \<Longrightarrow> \<not> bit (j :: nat) n"
  by (metis bit_take_bit_iff leD take_bit_nat_eq_self_iff)

lemma bit_nat_power: "j < 2 ^ k \<Longrightarrow> bit (2 ^ k + j :: nat) n \<longleftrightarrow> n = k \<or> bit j n"
proof -
  assume j: "j < 2 ^ k"
  have "push_bit k 1 AND j = 0" using bit_nat_high [OF j] by (intro bit_eqI) (auto simp: bit_simps)
  then have "2 ^ k + j = push_bit k 1 OR j" by (simp add: push_bit_of_1 disjunctive_add_eq_or)
  then show ?thesis by (auto simp: bit_simps)
qed

lemma count_doubled:
  "length (foldl (\<lambda>l _. l @ map Suc l) [0] [0..<k]) = 2 ^ k \<and>
   (\<forall>i < 2 ^ k. foldl (\<lambda>l _. l @ map Suc l) [0] [0..<k] ! i = length (filter (bit (i :: nat)) [0..<k]))"
proof (induction k)
  case (Suc k)
  define l where "l = foldl (\<lambda>l _. l @ map Suc l) [0] [0..<k]"
  have ih: "length l = 2 ^ k" "\<And>i. i < 2 ^ k \<Longrightarrow> l ! i = length (filter (bit i) [0..<k])" using Suc.IH by (simp_all add: l_def)
  have "(l @ map Suc l) ! i = length (filter (bit i) [0..<Suc k])" if i: "i < 2 ^ Suc k" for i
  proof (cases "i < 2 ^ k")
    case True
    then show ?thesis using ih bit_nat_high [OF True, of k] by (simp add: nth_append)
  next
    case False
    define j where "j = i - 2 ^ k"
    have j: "i = 2 ^ k + j" "j < 2 ^ k" using False i by (simp_all add: j_def)
    have "filter (bit i) [0..<k] = filter (bit j) [0..<k]" unfolding j(1) by (rule filter_cong) (auto simp: bit_nat_power [OF j(2)])
    then show ?thesis using False ih j by (simp add: nth_append bit_nat_power)
  qed
  then show ?case using ih(1) by (simp add: l_def)
qed simp

lemma bitsinbyte_nth: "bitsinbyte ! unat b = pop b"
proof -
  have "foldl (\<lambda>l _. l @ map Suc l) [0] [0..<8] = bitsinbyte" by (simp add: upt_rec bitsinbyte_def)
  moreover have "unat b < 2 ^ 8" by (rule order_less_le_trans [OF unsigned_less]) simp
  ultimately have "bitsinbyte ! unat b = length (filter (bit (unat b)) [0..<8])" using count_doubled [of 8] by simp
  moreover have "bit (unat b) = bit b" by (intro ext) (simp add: bit_unsigned_iff)
  ultimately show ?thesis by (simp add: pop_def)
qed

text \<open>The masks and sums of the words act on each group of four bits by itself.\<close>

definition nib :: "nat list \<Rightarrow> nat" where
  "nib ds = horner_sum (\<lambda>d. d) 16 ds"

lemma nib_simps [simp]: "nib [] = 0" "nib (d # ds) = d + 16 * nib ds"
  by (simp_all add: nib_def)

lemma and_split:
  fixes a b c d :: nat
  assumes "a < 2 ^ k" and "c < 2 ^ k"
  shows "(a + 2 ^ k * b) AND (c + 2 ^ k * d) = (a AND c) + 2 ^ k * (b AND d)"
proof -
  have o: "x + 2 ^ k * y = x OR push_bit k y" if "x < 2 ^ k" for x y :: nat
  proof -
    have "x AND push_bit k y = 0" using bit_nat_high [OF that] by (intro bit_eqI) (auto simp: bit_simps)
    then show ?thesis by (simp add: push_bit_eq_mult mult.commute disjunctive_add_eq_or)
  qed
  have "take_bit k (a AND c) = a AND c" using assms by (simp add: take_bit_and take_bit_nat_eq_self)
  then have ac: "a AND c < 2 ^ k" by (metis take_bit_nat_less_exp)
  have "(a OR push_bit k b) AND (c OR push_bit k d) = (a AND c) OR push_bit k (b AND d)"
    using bit_nat_high [OF assms(1)] bit_nat_high [OF assms(2)] by (intro bit_eqI) (auto simp: bit_simps)
  then show ?thesis unfolding o [OF assms(1)] o [OF assms(2)] o [OF ac] .
qed

lemma nib_and:
  "length ds = length es \<Longrightarrow> \<forall>d \<in> set ds. d < 16 \<Longrightarrow> \<forall>e \<in> set es. e < 16 \<Longrightarrow>
     nib ds AND nib es = nib (map2 (AND) ds es)"
proof (induction ds es rule: list_induct2)
  case (Cons d ds e es)
  then show ?case using and_split [of d 4 e "nib ds" "nib es"] by simp
qed simp

lemma nib_add: "length ds = length es \<Longrightarrow> nib ds + nib es = nib (map2 (+) ds es)"
  by (induction ds es rule: list_induct2) simp_all

lemma nib_mono: "list_all2 (\<le>) es ds \<Longrightarrow> nib es \<le> nib ds"
  by (induction rule: list_all2_induct) (simp_all add: add_mono)

lemma nib_diff: "list_all2 (\<le>) es ds \<Longrightarrow> nib ds - nib es = nib (map2 (-) ds es)"
proof (induction rule: list_all2_induct)
  case (Cons e es d ds)
  then show ?case using nib_mono [OF Cons(2)] by (simp add: diff_mult_distrib2 [symmetric])
qed simp

lemma shift_digit: "0 < k \<Longrightarrow> (d + k * y) div k = d div k + y" for k :: nat
  by simp

lemma powers: "(2 :: nat) ^ 2 = 4" "(2 :: nat) ^ 3 = 8" "(2 :: nat) ^ 4 = 16"
  by simp_all

lemma regroup:
  fixes k :: nat
  assumes "c' = c * k"
  shows "d + c * X = d + c * (X mod k) + c' * (X div k)"
proof -
  have "c * X = c * (X mod k + k * (X div k))" by simp
  also have "\<dots> = c * (X mod k) + c' * (X div k)" unfolding assms distrib_left mult.assoc ..
  finally show ?thesis by simp
qed

lemma nib_half:
  "\<forall>d \<in> set ds. d < 16 \<Longrightarrow> (nib ds div 2) AND nib (replicate (length ds) 5) = nib (map (\<lambda>d. d div 2 AND 5) ds)"
proof (induction ds)
  case (Cons d ds)
  define X where "X = nib ds"
  have d: "d div 2 + 2 ^ 3 * (X mod 2) < 2 ^ 4" using Cons.prems by simp linarith
  have "(d + 16 * X) div 2 = (d div 2 + 2 ^ 3 * (X mod 2)) + 2 ^ 4 * (X div 2)"
    unfolding shift_digit [of 2 d "8 * X", simplified] unfolding powers by (rule regroup) simp
  moreover have "(d div 2 + 2 ^ 3 * (X mod 2)) AND (5 + 2 ^ 3 * 0) = (d div 2 AND 5) + 2 ^ 3 * (X mod 2 AND 0)"
    using Cons.prems by (intro and_split) (auto simp: less_mult_imp_div_less)
  ultimately show ?case using Cons and_split [OF d, of 5 "X div 2" "nib (replicate (length ds) 5)"] by (simp add: X_def)
qed simp

lemma nib_quarter:
  "\<forall>d \<in> set ds. d < 16 \<Longrightarrow> (nib ds div 4) AND nib (replicate (length ds) 3) = nib (map (\<lambda>d. d div 4 AND 3) ds)"
proof (induction ds)
  case (Cons d ds)
  define X where "X = nib ds"
  have d: "d div 4 + 2 ^ 2 * (X mod 4) < 2 ^ 4" using Cons.prems by simp linarith
  have "(d + 16 * X) div 4 = (d div 4 + 2 ^ 2 * (X mod 4)) + 2 ^ 4 * (X div 4)"
    unfolding shift_digit [of 4 d "4 * X", simplified] unfolding powers by (rule regroup) simp
  moreover have "(d div 4 + 2 ^ 2 * (X mod 4)) AND (3 + 2 ^ 2 * 0) = (d div 4 AND 3) + 2 ^ 2 * (X mod 4 AND 0)"
    using Cons.prems by (intro and_split) (auto simp: less_mult_imp_div_less)
  ultimately show ?case using Cons and_split [OF d, of 3 "X div 4" "nib (replicate (length ds) 3)"] by (simp add: X_def)
qed simp

definition pop4 :: "nat \<Rightarrow> nat" where
  "pop4 d = length (filter (bit d) [0..<4])"

lemma upt4: "[0..<4] = [0, 1, 2, 3 :: nat]"
  by (simp add: upt_rec)

lemma pop4_le: "pop4 d \<le> 4"
  by (simp add: pop4_def upt4)

lemma pairs_digit:
  assumes "d < 16"
  shows "(d div 2 AND 5) \<le> d" and "d - (d div 2 AND 5) < 16"
    and "(d - (d div 2 AND 5) AND 3) + ((d - (d div 2 AND 5)) div 4 AND 3) = pop4 d"
proof -
  have "list_all (\<lambda>d. (d div 2 AND 5) \<le> d \<and> d - (d div 2 AND 5) < 16 \<and>
      (d - (d div 2 AND 5) AND 3) + ((d - (d div 2 AND 5)) div 4 AND 3) = pop4 d) [0..<16]"
    by code_simp
  then show "(d div 2 AND 5) \<le> d" "d - (d div 2 AND 5) < 16"
    "(d - (d div 2 AND 5) AND 3) + ((d - (d div 2 AND 5)) div 4 AND 3) = pop4 d" using assms unfolding list_all_iff by force+
qed

lemma map2_same: "map2 f (map g ds) (map h ds) = map (\<lambda>d. f (g d) (h d)) ds"
  by (induction ds) simp_all

lemma replicate8: "replicate 8 x = [x, x, x, x, x, x, x, x]"
  by (simp add: numeral_eq_Suc)

lemma unat_pop_pairs:
  assumes "unat w = nib ds" and "length ds = 8" and "\<forall>d \<in> set ds. d < 16"
  shows "unat (pop_pairs w) = nib (map pop4 ds)"
proof -
  define es where "es = map (\<lambda>d. d div 2 AND 5) ds"
  define a where "a = map (\<lambda>d. d - (d div 2 AND 5)) ds"
  define aux where "aux = w - (drop_bit 1 w AND 0x55555555)"
  have m: "unat (0x55555555 :: 32 word) = nib (replicate (length ds) 5)" "unat (0x33333333 :: 32 word) = nib (replicate (length ds) 3)"
    unfolding assms(2) replicate8 by simp_all
  have e: "unat (drop_bit 1 w AND 0x55555555) = nib es"
    unfolding unsigned_and_eq unat_drop_bit_eq assms(1) m(1) es_def using nib_half [OF assms(3)] by (simp add: drop_bit_eq_div)
  have le: "list_all2 (\<le>) es ds" using pairs_digit(1) assms(3) by (auto simp: es_def list_all2_conv_all_nth)
  have "unat aux = nib ds - nib es"
    unfolding aux_def using nib_mono [OF le] e assms(1) by (simp add: unat_sub word_le_nat_alt)
  also have "\<dots> = nib a" unfolding nib_diff [OF le] unfolding es_def a_def using map2_same [of "(-)" "\<lambda>d. d" ds] by simp
  finally have au: "unat aux = nib a" .
  have a16: "\<forall>d \<in> set a. d < 16" using pairs_digit(2) assms(3) by (auto simp: a_def)
  have la: "length a = length ds" by (simp add: a_def)
  have 1: "unat (aux AND 0x33333333) = nib (map (\<lambda>d. d AND 3) a)"
  proof -
    have "nib a AND nib (replicate (length a) 3) = nib (map2 (AND) a (replicate (length a) 3))" using a16 by (intro nib_and) simp_all
    moreover have "map2 (AND) a (replicate (length a) 3) = map (\<lambda>d. d AND 3) a"
      using map2_same [of "(AND)" "\<lambda>d. d" a "\<lambda>_. 3"] by (simp add: map_replicate_const)
    ultimately show ?thesis unfolding unsigned_and_eq au m(2) la by simp
  qed
  have 2: "unat (drop_bit 2 aux AND 0x33333333) = nib (map (\<lambda>d. d div 4 AND 3) a)"
    unfolding unsigned_and_eq unat_drop_bit_eq au m(2) la [symmetric] using nib_quarter [OF a16] by (simp add: drop_bit_eq_div)
  have "nib (map (\<lambda>d. d AND 3) a) + nib (map (\<lambda>d. d div 4 AND 3) a) = nib (map (\<lambda>d. (d AND 3) + (d div 4 AND 3)) a)"
    by (subst nib_add) (simp_all add: map2_same)
  also have "map (\<lambda>d. (d AND 3) + (d div 4 AND 3)) a = map pop4 ds" unfolding a_def using pairs_digit(3) assms(3) by simp
  finally have 3: "unat (aux AND 0x33333333) + unat (drop_bit 2 aux AND 0x33333333) = nib (map pop4 ds)" using 1 2 by simp
  have "list_all2 (\<le>) (map pop4 ds) (replicate (length ds) 4)" using pop4_le by (simp add: list_all2_conv_all_nth)
  from nib_mono [OF this] have "nib (map pop4 ds) < 2 ^ 32" unfolding assms(2) replicate8 by simp
  then have "unat (aux AND 0x33333333) + unat (drop_bit 2 aux AND 0x33333333) < 2 ^ LENGTH(32)" using 3 by simp
  then show ?thesis unfolding pop_pairs_def Let_def aux_def [symmetric] using 3 by (simp add: unat_plus_if' )
qed

lemma unat_pop_bytes:
  assumes "unat x = nib [a, b, c, d, e, f, g, h]" and "a \<le> 4" "b \<le> 4" "c \<le> 4" "d \<le> 4" "e \<le> 4" "f \<le> 4" "g \<le> 4" "h \<le> 4"
  shows "unat (pop_bytes x) = (a + b) + 256 * (c + d) + 65536 * (e + f) + 16777216 * (g + h)"
proof -
  have m: "unat (0x0F0F0F0F :: 32 word) = nib [15, 0, 15, 0, 15, 0, 15, 0]" by simp
  have "unat (drop_bit 4 x) = nib [b, c, d, e, f, g, h, 0]"
    unfolding unat_drop_bit_eq assms(1) using assms(2) by (simp add: drop_bit_eq_div)
  moreover have "nib [a, b, c, d, e, f, g, h] + nib [b, c, d, e, f, g, h, 0] = nib [a + b, b + c, c + d, d + e, e + f, f + g, g + h, h]"
    by (subst nib_add) simp_all
  moreover have "nib [a + b, b + c, c + d, d + e, e + f, f + g, g + h, h] < 2 ^ 32" using assms by simp
  ultimately have s: "unat (x + drop_bit 4 x) = nib [a + b, b + c, c + d, d + e, e + f, f + g, g + h, h]"
    using assms(1) by (simp add: unat_plus_if')
  have l: "y AND 15 = y" if "y \<le> 8" for y :: nat
  proof -
    have "y AND mask 4 = take_bit 4 y" by (simp add: take_bit_eq_mask)
    then show ?thesis using that by (simp add: mask_eq_exp_minus_1 take_bit_nat_eq_self)
  qed
  have "unat (pop_bytes x) = nib (map2 (AND) [a + b, b + c, c + d, d + e, e + f, f + g, g + h, h] [15, 0, 15, 0, 15, 0, 15, 0])"
    unfolding pop_bytes_def unsigned_and_eq s m by (rule nib_and) (use assms in auto)
  then show ?thesis using assms by (simp add: l)
qed

lemma unat_load32:
  fixes p :: bitmap
  defines "n \<equiv> \<lambda>b :: 8 word. unat b"
  shows "unat (load32 p i) = nib [n (p ! i) mod 16, n (p ! i) div 16, n (p ! (i + 1)) mod 16, n (p ! (i + 1)) div 16,
    n (p ! (i + 2)) mod 16, n (p ! (i + 2)) div 16, n (p ! (i + 3)) mod 16, n (p ! (i + 3)) div 16]"
proof -
  have less: "unat b < 2 ^ 8" for b :: "8 word" by (rule order_less_le_trans [OF unsigned_less]) simp
  have u: "unat (ucast b :: 32 word) = unat b" for b :: "8 word"
    using less [of b] by (simp add: unsigned_ucast_eq take_bit_nat_eq_self)
  have pb: "unat (push_bit k (ucast b) :: 32 word) = 2 ^ k * unat b" if "k \<le> 24" for b :: "8 word" and k
  proof -
    have "2 ^ k * unat b < 2 ^ k * 2 ^ 8" using less [of b] by simp
    also have "\<dots> \<le> 2 ^ 24 * 2 ^ 8" using that by (intro mult_right_mono power_increasing) simp_all
    finally have "push_bit k (unat b) < 2 ^ 32" by (simp add: push_bit_eq_mult mult.commute)
    then show ?thesis unfolding unsigned_push_bit_eq u by (simp add: take_bit_nat_eq_self) (simp add: push_bit_eq_mult mult.commute)
  qed
  have o: "x OR y = x + y" if xk: "x < 2 ^ k" and yk: "\<exists>z. y = 2 ^ k * z" for x y k :: nat
  proof -
    obtain z where "y = push_bit k z" using yk by (auto simp: push_bit_eq_mult mult.commute)
    then have "x AND y = 0" using bit_nat_high [OF xk] by (intro bit_eqI) (auto simp: bit_simps)
    then show ?thesis by (simp add: disjunctive_add_eq_or)
  qed
  have "unat (load32 p i) = unat (p ! i) OR (2 ^ 8 * unat (p ! (i + 1)) OR (2 ^ 16 * unat (p ! (i + 2)) OR 2 ^ 24 * unat (p ! (i + 3))))"
    unfolding load32_def unsigned_or_eq u pb [of 8, simplified] pb [of 16, simplified] pb [of 24, simplified] by (simp add: or.assoc)
  also have "2 ^ 16 * unat (p ! (i + 2)) OR 2 ^ 24 * unat (p ! (i + 3)) = 2 ^ 16 * unat (p ! (i + 2)) + 2 ^ 24 * unat (p ! (i + 3))"
    by (rule o [of _ 24]) (use less [of "p ! (i + 2)"] in auto)
  also have "2 ^ 8 * unat (p ! (i + 1)) OR (2 ^ 16 * unat (p ! (i + 2)) + 2 ^ 24 * unat (p ! (i + 3))) =
      2 ^ 8 * unat (p ! (i + 1)) + (2 ^ 16 * unat (p ! (i + 2)) + 2 ^ 24 * unat (p ! (i + 3)))"
    by (rule o [of _ 16]) (use less [of "p ! (i + 1)"] in \<open>auto intro: exI [of _ "unat (p ! (i + 2)) + 2 ^ 8 * unat (p ! (i + 3))"]\<close>)
  also have "unat (p ! i) OR (2 ^ 8 * unat (p ! (i + 1)) + (2 ^ 16 * unat (p ! (i + 2)) + 2 ^ 24 * unat (p ! (i + 3)))) =
      unat (p ! i) + (2 ^ 8 * unat (p ! (i + 1)) + (2 ^ 16 * unat (p ! (i + 2)) + 2 ^ 24 * unat (p ! (i + 3))))"
    by (rule o [of _ 8]) (use less [of "p ! i"] in \<open>auto intro: exI [of _ "unat (p ! (i + 1)) + 2 ^ 8 * unat (p ! (i + 2)) + 2 ^ 16 * unat (p ! (i + 3))"]\<close>)
  finally show ?thesis unfolding n_def by simp
qed

lemma pop_digits: "pop b = pop4 (unat b mod 16) + pop4 (unat b div 16)"
proof -
  have u: "[0..<8] = [0..<4] @ map ((+) 4) [0..<4]" by (simp add: upt_rec)
  have b: "bit b = bit (unat b)" by (intro ext) (simp add: bit_unsigned_iff)
  have "unat b mod 16 = take_bit 4 (unat b)" "unat b div 16 = drop_bit 4 (unat b)" by (simp_all add: take_bit_eq_mod drop_bit_eq_div)
  moreover have "filter (bit (take_bit 4 (unat b))) [0..<4] = filter (bit (unat b)) [0..<4]" by (rule filter_cong) (simp_all add: bit_take_bit_iff)
  ultimately show ?thesis unfolding pop_def pop4_def u filter_append length_append filter_map length_map
    by (simp add: b comp_def bit_drop_bit_eq)
qed

lemma unat_pop_word:
  "unat (pop_bytes (pop_pairs (load32 p i))) =
     pop (p ! i) + 256 * pop (p ! (i + 1)) + 65536 * pop (p ! (i + 2)) + 16777216 * pop (p ! (i + 3))"
proof -
  have d: "x mod 16 < 16" "unat b div 16 < 16" for x :: nat and b :: "8 word"
  proof -
    have "unat b < 256" by (rule order_less_le_trans [OF unsigned_less]) simp
    then show "unat b div 16 < 16" by (simp add: less_mult_imp_div_less)
  qed simp
  have "unat (pop_pairs (load32 p i)) = nib (map pop4 [unat (p ! i) mod 16, unat (p ! i) div 16, unat (p ! (i + 1)) mod 16,
      unat (p ! (i + 1)) div 16, unat (p ! (i + 2)) mod 16, unat (p ! (i + 2)) div 16, unat (p ! (i + 3)) mod 16, unat (p ! (i + 3)) div 16])"
    by (rule unat_pop_pairs [OF unat_load32]) (simp_all add: d)
  from unat_pop_bytes [OF this [unfolded list.map]] show ?thesis by (simp add: pop4_le pop_digits)
qed

lemma pop_le: "pop b \<le> 8"
  using pop4_le [of "unat b mod 16"] pop4_le [of "unat b div 16"] by (simp add: pop_digits)

text \<open>The product gathers the four bytes of a sum in the most significant one.\<close>

lemma gather_bytes:
  assumes "unat x = a + 256 * b + 65536 * c + 16777216 * d" and "a + b + c + d < 256"
  shows "unat (drop_bit 24 (x * 0x01010101 :: 32 word)) = a + b + c + d"
proof -
  define low where "low = a + 256 * (a + b) + 65536 * (a + b + c)"
  have "unat (x * 0x01010101) = (unat x * 0x01010101) mod 2 ^ 32" by (simp add: unat_word_ariths)
  also have "unat x * 0x01010101 = (low + 16777216 * (a + b + c + d)) + 2 ^ 32 * ((b + c + d) + 256 * (c + d) + 65536 * d)"
    unfolding assms(1) low_def by simp
  also have "\<dots> mod 2 ^ 32 = (low + 16777216 * (a + b + c + d)) mod 2 ^ 32" by (rule mod_mult_self2)
  also have "\<dots> = low + 16777216 * (a + b + c + d)" using assms(2) by (intro mod_less) (simp add: low_def)
  finally have "unat (drop_bit 24 (x * 0x01010101)) = (low + 16777216 * (a + b + c + d)) div 16777216"
    unfolding unat_drop_bit_eq by (simp add: drop_bit_eq_div)
  also have "\<dots> = low div 16777216 + (a + b + c + d)" by simp
  also have "low div 16777216 = 0" using assms(2) by (simp add: low_def)
  finally show ?thesis by simp
qed

lemma sum_nth: "sum_list (map f (take n xs)) = (\<Sum>i<n. f (xs ! i))" if "n \<le> length xs" for f :: "'a \<Rightarrow> nat"
  using that by (simp add: sum_list_sum_nth atLeast0LessThan)

lemma unat_add_less: "unat x + unat y < 2 ^ 32 \<Longrightarrow> unat (x + y) = unat x + unat y" for x y :: "32 word"
  by (simp add: unat_plus_if')

lemma unat_pop_28:
  assumes "28 \<le> length p"
  shows "unat (pop_28 p) = popcount (take 28 p)"
proof -
  define w where "w i = pop_bytes (pop_pairs (load32 p (4 * i)))" for i
  define f where "f i = pop (p ! i)" for i
  have w: "unat (w i) = f (4 * i) + 256 * f (4 * i + 1) + 65536 * f (4 * i + 2) + 16777216 * f (4 * i + 3)" for i
    unfolding w_def f_def by (rule unat_pop_word)
  have f8: "f i \<le> 8" for i by (simp add: f_def pop_le)
  have b: "unat (w i) \<le> 8 * 0x01010101" for i
    using f8 [of "4 * i"] f8 [of "4 * i + 1"] f8 [of "4 * i + 2"] f8 [of "4 * i + 3"] unfolding w by simp
  have part: "unat (sum_list (map w [0..<n])) = (\<Sum>i<n. unat (w i)) \<and> (\<Sum>i<n. unat (w i)) \<le> n * (8 * 0x01010101)" if "n \<le> 7" for n
    using that
  proof (induction n)
    case (Suc n)
    have le: "(\<Sum>i<n. unat (w i)) + unat (w n) \<le> Suc n * (8 * 0x01010101)" using Suc b [of n] by simp
    also have "\<dots> \<le> 7 * (8 * 0x01010101)" using Suc.prems by simp
    finally have "unat (sum_list (map w [0..<n])) + unat (w n) < 2 ^ 32" using Suc by simp
    then show ?case using Suc le unat_add_less by simp
  qed simp
  define a where "a k = (\<Sum>i<7. f (4 * i + k))" for k
  have "unat (sum_list (map w [0..<7])) = a 0 + 256 * a 1 + 65536 * a 2 + 16777216 * a 3"
    using part [of 7] by (simp add: w a_def sum.distrib sum_distrib_left)
  moreover have a56: "a k \<le> 7 * 8" for k unfolding a_def using sum_bounded_above [of "{..<7}" "\<lambda>i. f (4 * i + k)" 8] f8 by simp
  then have "a 0 + a 1 + a 2 + a 3 < 256"
    using a56 [of 0] a56 [of 1] a56 [of 2] a56 [of 3] by linarith
  ultimately have "unat (drop_bit 24 (sum_list (map w [0..<7]) * 0x01010101)) = a 0 + a 1 + a 2 + a 3" by (rule gather_bytes)
  moreover have "[0..<7] = [0, 1, 2, 3, 4, 5, 6 :: nat]" by (simp add: upt_rec)
  then have "pop_28 p = drop_bit 24 (sum_list (map w [0..<7]) * 0x01010101)" by (simp add: pop_28_def w_def Let_def add.assoc)
  moreover have "popcount (take 28 p) = (\<Sum>i<28. f i)" using sum_nth [OF assms, of pop] by (simp add: popcount_def f_def)
  moreover have "(\<Sum>i<28. f i) = a 0 + a 1 + a 2 + a 3" by (simp add: a_def lessThan_nat_numeral numeral_2_eq_2)
  ultimately show ?thesis by simp
qed

lemma popcount_simps [simp]: "popcount [] = 0" "popcount (b # p) = pop b + popcount p" "popcount (p @ q) = popcount p + popcount q"
  by (simp_all add: popcount_def)

lemma pop_head_correct: "pop_head addr p bits = (n, q) \<Longrightarrow> n + popcount q = bits + popcount p"
  by (induction addr p bits rule: pop_head.induct) (auto simp: bitsinbyte_nth split: if_splits)

lemma pop_words_correct: "pop_words p bits = (n, q) \<Longrightarrow> n + popcount q = bits + popcount p"
proof (induction p bits rule: pop_words.induct)
  case (1 p bits)
  show ?case
  proof (cases "length p \<ge> 28")
    case True
    then have "pop_words (drop 28 p) (bits + unat (pop_28 p)) = (n, q)" using 1(2) by (subst (asm) pop_words.simps) simp
    moreover have "popcount (take 28 p) + popcount (drop 28 p) = popcount p" by (metis append_take_drop_id popcount_simps(3))
    ultimately show ?thesis using 1(1) True unat_pop_28 [OF True] by simp
  next
    case False
    then show ?thesis using 1(2) by (subst (asm) pop_words.simps) simp
  qed
qed

lemma redisPopcount_correct: "redisPopcount addr s = popcount s"
proof -
  obtain n p where h: "pop_head addr s 0 = (n, p)" by fastforce
  obtain m q where w: "pop_words p n = (m, q)" by fastforce
  have "foldl (\<lambda>bits b. bits + bitsinbyte ! unat b) m q = m + popcount q" for m
    by (induction q arbitrary: m) (simp_all add: bitsinbyte_nth)
  then show ?thesis using pop_head_correct [OF h] pop_words_correct [OF w] h w by (simp add: redisPopcount_def)
qed

section \<open>The first bit of a value\<close>

text \<open>Bit \<open>i\<close> of a bitmap.\<close>

definition bm :: "bitmap \<Rightarrow> nat \<Rightarrow> bool" where
  "bm p i = bit (p ! (i div 8)) (7 - i mod 8)"

definition first_bit :: "bitmap \<Rightarrow> bool \<Rightarrow> int" where
  "first_bit p v =
     (case find (\<lambda>i. bm p i = v) [0..<8 * length p] of Some i \<Rightarrow> int i | None \<Rightarrow> if v then - 1 else 8 * int (length p))"

lemma bm_append: "bm (p @ q) i = (if i < 8 * length p then bm p i else bm q (i - 8 * length p))"
proof (cases "i < 8 * length p")
  case True
  then have "i div 8 < length p" by (simp add: div_less_iff_less_mult mult.commute)
  then show ?thesis using True by (simp add: bm_def nth_append)
next
  case False
  define j where "j = i - 8 * length p"
  have i: "i = j + length p * 8" using False by (simp add: j_def)
  have "i div 8 = j div 8 + length p" "i mod 8 = j mod 8" unfolding i by simp_all
  then show ?thesis using False by (simp add: bm_def nth_append j_def)
qed

lemma bm_Cons: "bm (b # p) i = (if i < 8 then bit b (7 - i) else bm p (i - 8))"
  using bm_append [of "[b]" p i] by (simp add: bm_def)

definition clear :: "bool \<Rightarrow> bitmap \<Rightarrow> bool" where
  "clear v p \<longleftrightarrow> (\<forall>i < 8 * length p. bm p i \<noteq> v)"

lemma clear_append: "clear v (p @ q) \<longleftrightarrow> clear v p \<and> clear v q"
proof -
  have "(\<forall>i < 8 * length (p @ q). bm (p @ q) i \<noteq> v) \<longleftrightarrow> (\<forall>i < 8 * length p. bm p i \<noteq> v) \<and> (\<forall>i < 8 * length q. bm q i \<noteq> v)"
    (is "?l \<longleftrightarrow> ?r")
  proof
    assume l: ?l
    have "bm q i \<noteq> v" if "i < 8 * length q" for i using l [rule_format, of "i + 8 * length p"] that by (simp add: bm_append)
    then show ?r using l by (auto simp: bm_append split: if_splits)
  next
    assume ?r
    then show ?l by (auto simp: bm_append)
  qed
  then show ?thesis by (simp add: clear_def)
qed

lemma byte_clear: "c = (if v then 0 else 0xFF) \<longleftrightarrow> clear v [c]"
proof -
  have m: "(0xFF :: 8 word) = mask 8" by (simp add: mask_eq_exp_minus_1)
  have "c = (if v then 0 else 0xFF) \<longleftrightarrow> (\<forall>i < 8. bit c i \<noteq> v)" unfolding m by (auto simp: bit_eq_iff bit_simps)
  also have "\<dots> \<longleftrightarrow> (\<forall>i < 8. bit c (7 - i) \<noteq> v)"
  proof
    assume a: "\<forall>i < 8. bit c (7 - i) \<noteq> v"
    have "bit c i \<noteq> v" if "i < 8" for i using a [rule_format, of "7 - i"] that by simp
    then show "\<forall>i < 8. bit c i \<noteq> v" by blast
  qed auto
  finally show ?thesis by (simp add: clear_def bm_Cons)
qed

lemma skip_bytes_correct:
  "skip_bytes addr v p pos = (pos', q, found) \<Longrightarrow>
     \<exists>r. p = r @ q \<and> pos' = pos + 8 * length r \<and> clear v r \<and> (found \<longrightarrow> q \<noteq> [] \<and> \<not> clear v (take 1 q))"
proof (induction addr v p pos rule: skip_bytes.induct)
  case (1 addr v pos)
  then show ?case by (simp add: clear_def)
next
  case (2 addr v c cs pos)
  show ?case
  proof (cases "addr mod 8 \<noteq> 0 \<and> c = (if v then 0 else 0xFF)")
    case True
    then have "skip_bytes (addr + 1) v cs (pos + 8) = (pos', q, found)" using 2(2) by (simp split: if_splits)
    then obtain r where r: "cs = r @ q" "pos' = pos + 8 + 8 * length r" "clear v r" "found \<longrightarrow> q \<noteq> [] \<and> \<not> clear v (take 1 q)"
      using 2(1) True by (auto split: if_splits)
    moreover have "clear v ([c] @ r)" using True r(3) byte_clear [of c v] unfolding clear_append by blast
    ultimately show ?thesis by (intro exI [of _ "c # r"]) simp
  next
    case False
    then have "pos' = pos \<and> q = c # cs \<and> (found \<longrightarrow> c \<noteq> (if v then 0 else 0xFF))" using 2(2) by (auto split: if_splits)
    then show ?thesis using byte_clear [of c v] by (intro exI [of _ "[]"]) (auto simp: clear_def [of _ "[]"])
  qed
qed

lemma bit_load_long: "n < 64 \<Longrightarrow> bit (load_long p) n \<longleftrightarrow> n div 8 < length p \<and> bit (p ! (n div 8)) (n mod 8)"
proof -
  have f: "bit (foldr (\<lambda>b w. push_bit 8 w OR ucast b) xs 0 :: 64 word) n \<longleftrightarrow> n div 8 < length xs \<and> bit (xs ! (n div 8)) (n mod 8)"
    if "n < 64" for xs :: bitmap and n
    using that
  proof (induction xs arbitrary: n)
    case (Cons b xs)
    define w where "w = (foldr (\<lambda>b w. push_bit 8 w OR ucast b) xs 0 :: 64 word)"
    have "bit (push_bit 8 w OR ucast b) n \<longleftrightarrow> 8 \<le> n \<and> bit w (n - 8) \<or> bit b n" using Cons.prems by (simp add: bit_simps)
    moreover have "bit b n \<Longrightarrow> n < 8" using bit_imp_le_length [of b n] by simp
    moreover have "bit w (n - 8) \<longleftrightarrow> (n - 8) div 8 < length xs \<and> bit (xs ! ((n - 8) div 8)) ((n - 8) mod 8)"
      unfolding w_def using Cons.prems by (intro Cons.IH) simp
    moreover have "n div 8 = Suc ((n - 8) div 8) \<and> n mod 8 = (n - 8) mod 8" if "8 \<le> n" using that by (simp add: le_div_geq le_mod_geq)
    ultimately have "bit (push_bit 8 w OR ucast b) n \<longleftrightarrow> n div 8 < length (b # xs) \<and> bit ((b # xs) ! (n div 8)) (n mod 8)"
      by (cases "8 \<le> n") auto
    then show ?case by (simp add: w_def)
  qed simp
  assume n: "n < 64"
  then have "n div 8 < 8" by (simp add: less_mult_imp_div_less)
  then show ?thesis using f [OF n, of "take 8 p"] by (auto simp: load_long_def)
qed

lemma mirror: "i < 64 \<Longrightarrow> \<exists>n < 64. n div 8 = i div 8 \<and> n mod 8 = 7 - i mod (8 :: nat)"
proof -
  assume "i < 64"
  then have q: "i div 8 < 8" by (simp add: less_mult_imp_div_less)
  have "8 * d + k < 64 \<and> (8 * d + k) div 8 = d \<and> (8 * d + k) mod 8 = k" if "d < 8" "k < 8" for d k :: nat using that by simp
  moreover have "7 - i mod 8 < 8" by simp
  ultimately show ?thesis using q by blast
qed

lemma load_long_clear:
  assumes "8 \<le> length p"
  shows "load_long p = (if v then 0 else - 1) \<longleftrightarrow> clear v (take 8 p)"
proof -
  have "load_long p = (if v then 0 else - 1) \<longleftrightarrow> (\<forall>n < 64. bit (load_long p) n \<noteq> v)" by (auto simp: bit_eq_iff bit_simps)
  also have "\<dots> \<longleftrightarrow> (\<forall>n < 64. bit (p ! (n div 8)) (n mod 8) \<noteq> v)"
    using assms by (intro all_cong) (auto simp: bit_load_long less_mult_imp_div_less intro!: order_less_le_trans [of _ 8])
  also have "\<dots> \<longleftrightarrow> (\<forall>i < 64. bm p i \<noteq> v)"
  proof
    assume a: "\<forall>n < 64. bit (p ! (n div 8)) (n mod 8) \<noteq> v"
    show "\<forall>i < 64. bm p i \<noteq> v" using mirror a unfolding bm_def by metis
  next
    assume a: "\<forall>i < 64. bm p i \<noteq> v"
    show "\<forall>n < 64. bit (p ! (n div 8)) (n mod 8) \<noteq> v"
    proof (intro allI impI)
      fix n :: nat assume "n < 64"
      then obtain i where "i < 64" "i div 8 = n div 8" "i mod 8 = 7 - n mod 8" using mirror by blast
      moreover from this(3) have "7 - i mod 8 = n mod 8" by simp
      ultimately show "bit (p ! (n div 8)) (n mod 8) \<noteq> v" using a unfolding bm_def by metis
    qed
  qed
  also have "\<dots> \<longleftrightarrow> clear v (take 8 p)"
    using assms bm_append [of "take 8 p" "drop 8 p"] by (simp add: clear_def)
  finally show ?thesis .
qed

lemma skip_words_correct:
  "skip_words v p pos = (pos', q) \<Longrightarrow>
     \<exists>r. p = r @ q \<and> pos' = pos + 8 * length r \<and> clear v r \<and> (8 \<le> length q \<longrightarrow> \<not> clear v (take 8 q))"
proof (induction v p pos rule: skip_words.induct)
  case (1 v l pos)
  show ?case
  proof (cases "8 \<le> length l \<and> clear v (take 8 l)")
    case True
    then have c: "8 \<le> length l \<and> load_long l = (if v then 0 else - 1)" using load_long_clear by blast
    then have "skip_words v (drop 8 l) (pos + 64) = (pos', q)" using 1(2) by (subst (asm) skip_words.simps) simp
    from 1(1) [OF c this] obtain r where r: "drop 8 l = r @ q" "pos' = pos + 64 + 8 * length r" "clear v r"
      "8 \<le> length q \<longrightarrow> \<not> clear v (take 8 q)" by blast
    have "l = (take 8 l @ r) @ q" using r(1) by (metis append.assoc append_take_drop_id)
    moreover have "clear v (take 8 l @ r)" using True r(3) unfolding clear_append by blast
    ultimately show ?thesis using True r(2,4) by (intro exI [of _ "take 8 l @ r"]) auto
  next
    case False
    then have "\<not> (8 \<le> length l \<and> load_long l = (if v then 0 else - 1))" using load_long_clear by blast
    then have "skip_words v l pos = (pos, l)" by (subst skip_words.simps) (rule if_not_P)
    then have "pos' = pos \<and> q = l" using 1(2) by simp
    then show ?thesis using False by (intro exI [of _ "[]"]) (simp add: clear_def [of _ "[]"])
  qed
qed

lemma bit_load_be:
  "n < 64 \<Longrightarrow> bit (load_be j c w) n \<longleftrightarrow>
     (if 8 * j \<le> n then bit w (n - 8 * j) else (8 * j - 1 - n) div 8 < length c \<and> bm c (8 * j - 1 - n))"
proof (induction j arbitrary: c w)
  case (Suc j)
  define w' where "w' = (case c of [] \<Rightarrow> push_bit 8 w | b # _ \<Rightarrow> push_bit 8 w OR ucast b)"
  have e: "load_be (Suc j) c w = load_be j (tl c) w'" by (cases c) (simp_all add: w'_def)
  show ?case
  proof (cases "8 * j \<le> n")
    case low: True
    define k where "k = n - 8 * j"
    have k: "n = 8 * j + k" "k < 64" using low Suc.prems by (simp_all add: k_def)
    have w': "bit w' k \<longleftrightarrow> 8 \<le> k \<and> bit w (k - 8) \<or> c \<noteq> [] \<and> bit (hd c) k" using k(2) by (cases c) (simp_all add: w'_def bit_simps)
    have "bit (load_be (Suc j) c w) n \<longleftrightarrow> bit w' k" unfolding e using Suc.IH [of "tl c" w'] Suc.prems k by simp
    moreover have "bit (hd c) k \<Longrightarrow> k < 8" using bit_imp_le_length [of "hd c" k] by simp
    ultimately show ?thesis using k w' by (cases "8 \<le> k"; cases c) (auto simp: bm_Cons)
  next
    case False
    define i where "i = 8 * j - 1 - n"
    have i: "8 * Suc j - 1 - n = i + 8" using False by (simp add: i_def)
    have "bit (load_be (Suc j) c w) n \<longleftrightarrow> i div 8 < length (tl c) \<and> bm (tl c) i" unfolding e i_def using Suc.IH [of "tl c" w'] Suc.prems False by simp
    moreover have "(i + 8) div 8 = Suc (i div 8)" by simp
    ultimately show ?thesis unfolding i using False by (cases c) (simp_all add: bm_Cons)
  qed
qed simp

lemma scan_bits_correct:
  assumes "j \<le> k" and "k < 64" and "bit w (k - j) = v" and "\<And>i. i < j \<Longrightarrow> bit w (k - i) \<noteq> v"
  shows "scan_bits w v (push_bit k 1) pos = Some (pos + j)"
  using assms
proof (induction j arbitrary: k pos)
  case 0
  have "(push_bit k 1 AND w \<noteq> 0) = bit w k" by (simp add: bit_iff_and_push_bit_not_eq_0 and.commute)
  moreover have "push_bit k 1 \<noteq> (0 :: 64 word)" using 0 by (auto simp: bit_eq_iff bit_simps)
  ultimately show ?case using 0 by (subst scan_bits.simps) simp
next
  case (Suc j)
  have "(push_bit k 1 AND w \<noteq> 0) = bit w k" by (simp add: bit_iff_and_push_bit_not_eq_0 and.commute)
  moreover have "push_bit k 1 \<noteq> (0 :: 64 word)" using Suc.prems by (auto simp: bit_eq_iff bit_simps)
  moreover have "bit w k \<noteq> v" using Suc.prems(4) [of 0] by simp
  moreover have "drop_bit 1 (push_bit k 1) = (push_bit (k - 1) 1 :: 64 word)"
    using Suc.prems by (intro bit_word_eqI) (auto simp: bit_simps)
  ultimately have "scan_bits w v (push_bit k 1) pos = scan_bits w v (push_bit (k - 1) 1) (pos + 1)" by (subst scan_bits.simps) simp
  also have "\<dots> = Some (pos + 1 + j)"
  proof (rule Suc.IH)
    show "bit w (k - 1 - i) \<noteq> v" if "i < j" for i using Suc.prems(4) [of "Suc i"] that by simp
  qed (use Suc.prems in simp_all)
  finally show ?case by simp
qed

lemma first_bit_found:
  assumes "i < 8 * length p" and "bm p i = v" and "\<And>j. j < i \<Longrightarrow> bm p j \<noteq> v"
  shows "first_bit p v = int i"
proof -
  have "find (\<lambda>i. bm p i = v) [0..<8 * length p] = Some i"
    unfolding find_Some_iff using assms by (intro exI [of _ i]) simp
  then show ?thesis by (simp add: first_bit_def)
qed

lemma first_bit_clear: "clear v p \<Longrightarrow> first_bit p v = (if v then - 1 else 8 * int (length p))"
proof -
  assume "clear v p"
  then have "find (\<lambda>i. bm p i = v) [0..<8 * length p] = None" by (simp add: find_None_iff clear_def)
  then show ?thesis by (simp add: first_bit_def)
qed

lemma clear_take:
  assumes "n \<le> length p"
  shows "clear v (take n p) \<longleftrightarrow> (\<forall>i < 8 * n. bm p i \<noteq> v)"
  using assms bm_append [of "take n p" "drop n p"] by (simp add: clear_def)

lemma redisBitpos_rest:
  assumes skip: "clear v r" and stop: "8 \<le> length q \<Longrightarrow> \<not> clear v (take 8 q)"
  shows "(if v \<and> load_be 8 q 0 = 0 then Some (- 1)
          else map_option int (scan_bits (load_be 8 q 0) v (NOT (drop_bit 1 (- 1))) (8 * length r))) = Some (first_bit (r @ q) v)"
proof -
  define w where "w = load_be 8 q 0"
  have w: "bit w (63 - i) \<longleftrightarrow> i div 8 < length q \<and> bm q i" if "i < 64" for i
    unfolding w_def using bit_load_be [of "63 - i" 8 q 0] that by simp
  have one: "NOT (drop_bit 1 (- 1)) = (push_bit 63 1 :: 64 word)" by (simp add: mask_eq_exp_minus_1 not_eq_complement)
  show ?thesis
  proof (cases "\<exists>i < 64. i < 8 * length q \<and> bm q i = v")
    case True
    define here where "here i \<longleftrightarrow> i < 64 \<and> i < 8 * length q \<and> bm q i = v" for i
    define i where "i = (LEAST i. here i)"
    have "here i" unfolding i_def by (rule LeastI_ex) (use True in \<open>simp add: here_def\<close>)
    then have i: "i < 64" "i < 8 * length q" "bm q i = v" by (simp_all add: here_def)
    have least: "bm q j \<noteq> v" if "j < i" for j using not_less_Least [OF that [unfolded i_def]] that i(1,2) by (simp add: here_def)
    have wi: "bit w (63 - j) = bm q j" if "j \<le> i" for j
      using w [of j] that i by (simp add: div_less_iff_less_mult mult.commute)
    have "scan_bits w v (push_bit 63 1) (8 * length r) = Some (8 * length r + i)"
      by (rule scan_bits_correct) (use i least wi in simp_all)
    moreover have "\<not> (v \<and> w = 0)" using wi [of i] i(3) by auto
    moreover have "first_bit (r @ q) v = int (8 * length r + i)"
      by (rule first_bit_found) (use i least skip in \<open>auto simp: bm_append clear_def\<close>)
    ultimately show ?thesis unfolding w_def [symmetric] one by simp
  next
    case False
    have short: "length q < 8"
    proof (rule ccontr)
      assume "\<not> length q < 8"
      then show False using stop clear_take [of 8 q v] False by auto
    qed
    then have cq: "clear v q" using False by (auto simp: clear_def)
    then have f: "first_bit (r @ q) v = (if v then - 1 else 8 * int (length (r @ q)))" using skip by (intro first_bit_clear) (simp add: clear_append)
    have bits: "bit w (63 - i) = (i < 8 * length q \<and> \<not> v)" if "i < 64" for i
      using w [OF that] cq by (auto simp: clear_def div_less_iff_less_mult mult.commute)
    show ?thesis
    proof (cases v)
      case True
      have "w = 0"
      proof (rule bit_word_eqI)
        fix n assume "n < LENGTH(64)"
        then show "bit w n = bit 0 n" using bits [of "63 - n"] True by simp
      qed
      then show ?thesis unfolding w_def [symmetric] using True f by simp
    next
      case no: False
      have "scan_bits w v (push_bit 63 1) (8 * length r) = Some (8 * length r + 8 * length q)"
        by (rule scan_bits_correct) (use short no bits in simp_all)
      then show ?thesis unfolding w_def [symmetric] one using no f by simp
    qed
  qed
qed

lemma redisBitpos_correct: "redisBitpos addr s v = Some (first_bit s v)"
proof -
  define fin where "fin l pos = (if v \<and> load_be 8 l 0 = 0 then Some (- 1)
      else map_option int (scan_bits (load_be 8 l 0) v (NOT (drop_bit 1 (- 1))) pos))" for l pos
  have e: "redisBitpos addr s v =
      (let (pos, c, found) = skip_bytes addr v s 0; (pos, l) = (if \<not> found then skip_words v c pos else (pos, c)) in fin l pos)"
    unfolding redisBitpos_def fin_def Let_def ..
  have rest: "fin q (8 * length r) = Some (first_bit (r @ q) v)" if "clear v r" "8 \<le> length q \<longrightarrow> \<not> clear v (take 8 q)" for r q
    unfolding fin_def by (rule redisBitpos_rest) (use that in blast)+
  obtain pos c found where b: "skip_bytes addr v s 0 = (pos, c, found)" by (cases "skip_bytes addr v s 0")
  obtain r where r: "s = r @ c" "pos = 8 * length r" "clear v r" "found \<longrightarrow> c \<noteq> [] \<and> \<not> clear v (take 1 c)"
    using skip_bytes_correct [OF b] by auto
  show ?thesis
  proof (cases found)
    case True
    then obtain i where "i < 8" "bm c i = v" "c \<noteq> []" using r(4) clear_take [of 1 c v] by (cases c) auto
    then have "8 \<le> length c \<longrightarrow> \<not> clear v (take 8 c)" using clear_take [of 8 c v] by auto
    from rest [OF r(3) this] show ?thesis unfolding e b using r(1,2) True by simp
  next
    case False
    obtain pos' l where w: "skip_words v c pos = (pos', l)" by fastforce
    obtain r' where r': "c = r' @ l" "pos' = pos + 8 * length r'" "clear v r'" "8 \<le> length l \<longrightarrow> \<not> clear v (take 8 l)"
      using skip_words_correct [OF w] by blast
    have "clear v (r @ r')" using r(3) r'(3) by (simp add: clear_append)
    from rest [OF this r'(4)] show ?thesis unfolding e b using r(1,2) r'(1,2) w False by (simp add: distrib_left)
  qed
qed

section \<open>Integers of any width\<close>

lemma set_bit_step:
  fixes p :: bitmap and x :: bool
  assumes "off < 8 * length p"
  defines "b \<equiv> 7 - off mod 8"
  defines "byteval \<equiv> ((ucast (p ! (off div 8)) :: 64 word) AND NOT (push_bit b 1)) OR push_bit b (of_bool x)"
  defines "p' \<equiv> p[off div 8 := ucast (byteval AND 0xFF)]"
  shows "length p' = length p" and "i < 8 * length p \<Longrightarrow> bm p' i = (if i = off then x else bm p i)"
proof -
  have d: "off div 8 < length p" using assms(1) by (simp add: less_mult_imp_div_less mult.commute)
  have m: "(0xFF :: 64 word) = mask 8" by (simp add: mask_eq_exp_minus_1)
  have bit: "bit (ucast (byteval AND 0xFF) :: 8 word) k = (if k = b then x else bit (p ! (off div 8)) k)" if "k < 8" for k
    unfolding m byteval_def using that by (cases x) (auto simp: bit_simps)
  show "length p' = length p" by (simp add: p'_def)
  show "bm p' i = (if i = off then x else bm p i)" if "i < 8 * length p"
  proof (cases "i div 8 = off div 8")
    case True
    have "i mod 8 < 8" "off mod 8 < 8" by simp_all
    then have "7 - i mod 8 = b \<longleftrightarrow> i mod 8 = off mod 8" unfolding b_def by linarith
    then have "7 - i mod 8 = b \<longleftrightarrow> i = off" using True by (metis div_mult_mod_eq)
    then show ?thesis using True d bit [of "7 - i mod 8"] by (simp add: bm_def p'_def)
  next
    case False
    then show ?thesis by (auto simp: bm_def p'_def)
  qed
qed

lemma set_bits_correct:
  "off + n \<le> 8 * length p \<Longrightarrow> n \<le> 64 \<Longrightarrow> \<exists>p'. set_bits n p off v = Some p' \<and> length p' = length p \<and>
     (\<forall>i < 8 * length p. bm p' i = (if off \<le> i \<and> i < off + n then bit v (off + n - 1 - i) else bm p i))"
proof (induction n arbitrary: p off)
  case (Suc n)
  define b where "b = 7 - off mod 8"
  define byteval where "byteval = ((ucast (p ! (off div 8)) :: 64 word) AND NOT (push_bit b 1)) OR push_bit b (of_bool (bit v n))"
  define p1 where "p1 = p[off div 8 := ucast (byteval AND 0xFF)]"
  have o: "off < 8 * length p" using Suc.prems by simp
  have s1: "length p1 = length p" unfolding p1_def byteval_def b_def by (rule set_bit_step(1) [OF o])
  have s2: "bm p1 i = (if i = off then bit v n else bm p i)" if "i < 8 * length p" for i
    unfolding p1_def byteval_def b_def by (rule set_bit_step(2) [OF o that])
  note s = s1 s2
  have "off div 8 < length p" using o by (simp add: less_mult_imp_div_less mult.commute)
  then have e: "set_bits (Suc n) p off v = set_bits n p1 (off + 1) v"
    using Suc.prems(2) by (simp add: p1_def byteval_def b_def Let_def bit_iff_and_push_bit_not_eq_0)
  have "off + 1 + n \<le> 8 * length p1" using Suc.prems s(1) by simp
  from Suc.IH [OF this] obtain p' where p': "set_bits n p1 (off + 1) v = Some p'" "length p' = length p1"
    "\<forall>i < 8 * length p1. bm p' i = (if off + 1 \<le> i \<and> i < off + 1 + n then bit v (off + 1 + n - 1 - i) else bm p1 i)"
    using Suc.prems(2) by auto
  have "bm p' i = (if off \<le> i \<and> i < off + Suc n then bit v (off + Suc n - 1 - i) else bm p i)" if "i < 8 * length p" for i
  proof (cases "i = off")
    case True
    then show ?thesis using p'(3) s that by simp
  next
    case False
    then have "off + 1 \<le> i \<and> i < off + 1 + n \<longleftrightarrow> off \<le> i \<and> i < off + Suc n" by linarith
    then show ?thesis using p'(3) s that False by simp
  qed
  then show ?case unfolding e p'(1) using p'(2) s(1) by simp
next
  case 0
  show ?case by auto
qed

lemma get_bits_correct:
  "off + n \<le> 8 * length p \<Longrightarrow> \<exists>w. get_bits n p off val = Some w \<and>
     (\<forall>m < 64. bit w m = (if m < n then bm p (off + n - 1 - m) else bit val (m - n)))"
proof (induction n arbitrary: off val)
  case (Suc n)
  define x where "x = drop_bit (7 - off mod 8) (ucast (p ! (off div 8)) :: 64 word) AND 1"
  have o: "off div 8 < length p" using Suc.prems by (simp add: less_mult_imp_div_less mult.commute)
  then have e: "get_bits (Suc n) p off val = get_bits n p (off + 1) (push_bit 1 val OR x)" by (simp add: x_def Let_def)
  have x: "bit x m = (m = 0 \<and> bm p off)" for m by (auto simp: x_def bm_def bit_simps)
  have "off + 1 + n \<le> 8 * length p" using Suc.prems by simp
  from Suc.IH [OF this, of "push_bit 1 val OR x"] obtain w where w: "get_bits n p (off + 1) (push_bit 1 val OR x) = Some w"
    "\<forall>m < 64. bit w m = (if m < n then bm p (off + 1 + n - 1 - m) else bit (push_bit 1 val OR x) (m - n))" by blast
  have "bit w m = (if m < Suc n then bm p (off + Suc n - 1 - m) else bit val (m - Suc n))" if m: "m < 64" for m
  proof (cases "m < n")
    case False
    then obtain k where k: "m = n + k" using le_Suc_ex not_less by blast
    have "bit (push_bit 1 val OR x) k = (if k = 0 then bm p off else bit val (k - 1))"
      unfolding bit_or_iff bit_push_bit_iff x using m k by auto
    then show ?thesis using w(2) m k by auto
  qed (use w(2) m in simp)
  then show ?case unfolding e using w(1) by blast
qed simp

lemma bitfield_set:
  assumes "0 < bits" and "bits \<le> 64" and "off + bits \<le> 8 * length p"
  obtains p' where "setUnsignedBitfield p off bits v = Some p'" and "length p' = length p"
    and "\<And>i. i < 8 * length p \<Longrightarrow> \<not> (off \<le> i \<and> i < off + bits) \<Longrightarrow> bm p' i = bm p i"
    and "getUnsignedBitfield p' off bits = Some (take_bit bits v)"
proof -
  obtain p' where p': "set_bits bits p off v = Some p'" "length p' = length p"
    "\<forall>i < 8 * length p. bm p' i = (if off \<le> i \<and> i < off + bits then bit v (off + bits - 1 - i) else bm p i)"
    using set_bits_correct [OF assms(3,2)] by blast
  have "off + bits \<le> 8 * length p'" using assms(3) p'(2) by simp
  then obtain w where w: "get_bits bits p' off 0 = Some w" "\<forall>m < 64. bit w m = (if m < bits then bm p' (off + bits - 1 - m) else bit (0 :: 64 word) (m - bits))"
    using get_bits_correct [of off bits p' 0] by blast
  have "w = take_bit bits v"
  proof (rule bit_word_eqI)
    fix m assume m: "m < LENGTH(64)"
    have "bm p' (off + bits - 1 - m) = bit v m" if "m < bits"
    proof -
      define i where "i = off + bits - 1 - m"
      have i: "off \<le> i" "i < off + bits" "off + bits - 1 - i = m" "i < 8 * length p" unfolding i_def using that assms(3) by linarith+
      show ?thesis using p'(3) [rule_format, OF i(4)] i(1-3) unfolding i_def [symmetric] by simp
    qed
    then show "bit w m = bit (take_bit bits v) m" using w(2) m by (simp add: bit_simps)
  qed
  then have g: "getUnsignedBitfield p' off bits = Some (take_bit bits v)" using w(1) by (simp add: getUnsignedBitfield_def)
  have o: "bm p' i = bm p i" if "i < 8 * length p" "\<not> (off \<le> i \<and> i < off + bits)" for i
    using p'(3) [rule_format, OF that(1)] unfolding if_not_P [OF that(2)] .
  have "setUnsignedBitfield p off bits v = Some p'" using p'(1) by (simp add: setUnsignedBitfield_def)
  then show ?thesis using p'(2) o g by (rule that)
qed

text \<open>Sign extension.\<close>

lemma sign_extended:
  assumes "0 < bits" and "bits < 64" and "- (2 ^ (bits - 1)) \<le> v" and "v < 2 ^ (bits - 1)"
  defines "w \<equiv> (take_bit bits (of_int v) :: 64 word)"
  shows "sint (if w AND push_bit (bits - 1) 1 \<noteq> 0 then w OR push_bit bits (- 1) else w) = v"
proof -
  have s: "signed_take_bit (bits - 1) v = v" using assms by (intro signed_take_bit_int_eq_self) simp_all
  obtain k where k: "bits = Suc k" using assms(1) gr0_conv_Suc by blast
  have "w AND push_bit k 1 \<noteq> 0 \<longleftrightarrow> bit w k" by (simp only: bit_iff_and_push_bit_not_eq_0)
  also have "\<dots> \<longleftrightarrow> bit v k" using assms(2) k by (simp add: w_def bit_simps)
  finally have top: "w AND push_bit k 1 \<noteq> 0 \<longleftrightarrow> bit v k" .
  have "bit (if bit v k then w OR push_bit bits (- 1) else w) n = bit v (min k n)" if "n < 64" for n
    using that assms(2) k by (cases "n \<le> k") (auto simp: w_def bit_simps min_def less_Suc_eq_le)
  then have "(if w AND push_bit (bits - 1) 1 \<noteq> 0 then w OR push_bit bits (- 1) else w) = word_of_int (signed_take_bit (bits - 1) v)"
    unfolding k diff_Suc_1 top by (intro bit_word_eqI) (simp add: bit_simps k)
  moreover have "signed_take_bit 63 v = v"
  proof (rule signed_take_bit_int_eq_self)
    have "(2 :: int) ^ (bits - 1) \<le> 2 ^ 63" using assms(2) by (intro power_increasing) simp_all
    then show "- (2 ^ 63) \<le> v" "v < 2 ^ 63" using assms(3,4) by linarith+
  qed
  ultimately show ?thesis using s by (simp add: sint_sbintrunc')
qed

lemma sint_word_of_int: "- (2 ^ 63) \<le> v \<Longrightarrow> v < 2 ^ 63 \<Longrightarrow> sint (word_of_int v :: 64 word) = v"
  by (simp add: sint_sbintrunc' signed_take_bit_int_eq_self)

lemma sign_wrapped:
  fixes v :: int
  assumes "bits < 64" and "bits = Suc k"
  defines "w \<equiv> (word_of_int v :: 64 word)"
  shows "sint (if w AND push_bit k 1 \<noteq> 0 then w OR push_bit bits (- 1) else w AND NOT (push_bit bits (- 1))) = signed_take_bit k v"
proof -
  have "w AND push_bit k 1 \<noteq> 0 \<longleftrightarrow> bit w k" by (simp only: bit_iff_and_push_bit_not_eq_0)
  also have "\<dots> \<longleftrightarrow> bit v k" using assms(1,2) by (simp add: w_def bit_simps)
  finally have top: "w AND push_bit k 1 \<noteq> 0 \<longleftrightarrow> bit v k" .
  have "bit (if bit v k then w OR push_bit bits (- 1) else w AND NOT (push_bit bits (- 1))) n = bit v (min k n)" if "n < 64" for n
    using that assms(1,2) by (cases "n \<le> k") (auto simp: w_def bit_simps min_def less_Suc_eq_le)
  then have "(if w AND push_bit k 1 \<noteq> 0 then w OR push_bit bits (- 1) else w AND NOT (push_bit bits (- 1))) = word_of_int (signed_take_bit k v)"
    unfolding top by (intro bit_word_eqI) (simp add: bit_simps)
  moreover have "- (2 ^ k) \<le> signed_take_bit k v" "signed_take_bit k v < 2 ^ k"
    by (simp_all add: signed_take_bit_int_greater_eq_minus_exp signed_take_bit_int_less_exp)
  moreover have "(2 :: int) ^ k \<le> 2 ^ 63" using assms(1,2) by (intro power_increasing) simp_all
  ultimately have e: "(if w AND push_bit k 1 \<noteq> 0 then w OR push_bit bits (- 1) else w AND NOT (push_bit bits (- 1))) = word_of_int (signed_take_bit k v)"
    and "- (2 ^ 63) \<le> signed_take_bit k v" "signed_take_bit k v < 2 ^ 63" by (blast, linarith, linarith)
  then show ?thesis unfolding e by (intro sint_word_of_int)
qed

lemma getSigned_bits:
  assumes g: "getUnsignedBitfield p off bits = Some (take_bit bits (of_int v))" and b: "0 < bits" "bits \<le> 64"
    and v: "- (2 ^ (bits - 1)) \<le> v" "v < 2 ^ (bits - 1)"
  shows "getSignedBitfield p off bits = (if bits = 64 \<and> v < 0 then None else Some v)"
proof (cases "bits = 64")
  case False
  then have "bits < 64" using b(2) by simp
  from sign_extended [OF b(1) this v] show ?thesis using g False b
    by (auto simp: getSignedBitfield_def shl64_def split: if_splits)
next
  case True
  have t: "take_bit 64 (word_of_int v :: 64 word) = word_of_int v" by (rule take_bit_length_eq [where 'a = 64, simplified])
  have "(word_of_int v :: 64 word) AND push_bit 63 1 \<noteq> 0 \<longleftrightarrow> bit (word_of_int v :: 64 word) 63"
    by (simp only: bit_iff_and_push_bit_not_eq_0)
  also have "\<dots> \<longleftrightarrow> v < 0"
  proof -
    have "signed_take_bit 63 v = v" using v True by (intro signed_take_bit_int_eq_self) simp_all
    then have "bit v 63 \<longleftrightarrow> v < 0" by (metis signed_take_bit_negative_iff)
    then show ?thesis by (simp add: bit_simps)
  qed
  finally have m: "(word_of_int v :: 64 word) AND push_bit 63 1 \<noteq> 0 \<longleftrightarrow> v < 0" .
  have "sint (word_of_int v :: 64 word) = v" using v True by (intro sint_word_of_int) simp_all
  then show ?thesis using g m t unfolding True getSignedBitfield_def shl64_def by (simp del: push_bit_numeral)
qed

section \<open>Overflow of an addition\<close>

text \<open>The result of an addition that the comment of the two checks describes: 0 within the range, 1 on overflow and
  -1 on underflow, and the value to store by the overflow type.\<close>

definition overflow_documented :: "bfoverflow \<Rightarrow> int \<Rightarrow> int \<Rightarrow> int \<Rightarrow> int \<Rightarrow> int \<times> int option" where
  "overflow_documented owtype s lo hi wrapped =
     (if s < lo then - 1 else if hi < s then 1 else 0,
      if lo \<le> s \<and> s \<le> hi then None
      else case owtype of
        BFOVERFLOW_WRAP \<Rightarrow> Some wrapped
      | BFOVERFLOW_SAT \<Rightarrow> Some (if s < lo then lo else hi)
      | BFOVERFLOW_FAIL \<Rightarrow> None)"

lemma unsigned_check:
  assumes b: "bits < 64" and v: "uint value < 2 ^ bits" and i: "- (2 ^ 63) \<le> incr" "incr < 2 ^ 63"
  shows "checkUnsignedBitfieldOverflow value incr bits owtype =
    Some (map_prod (\<lambda>c. c) (map_option word_of_int)
      (if owtype = BFOVERFLOW_WRAP \<and> uint value + incr < 0 then (1, Some ((uint value + incr) mod 2 ^ bits))
       else overflow_documented owtype (uint value + incr) 0 (2 ^ bits - 1) ((uint value + incr) mod 2 ^ bits)))"
proof -
  define hi where "hi = (2 :: int) ^ bits - 1"
  have p: "(2 :: int) ^ bits \<le> 2 ^ 63" using b by (intro power_increasing) simp_all
  have vb: "0 \<le> uint value" "uint value \<le> hi" using v by (simp_all add: hi_def)
  have hi: "hi < 2 ^ 63" "0 \<le> hi" using p by (simp_all add: hi_def)
  have mx: "push_bit bits 1 - 1 = (word_of_int hi :: 64 word)" by (simp add: hi_def push_bit_of_1)
  have val: "value = word_of_int (uint value)" by simp
  have mi: "sint (word_of_int hi - value) = hi - uint value"
  proof -
    have "word_of_int hi - value = word_of_int (hi - uint value)" by (simp add: of_int_diff [symmetric])
    moreover have "- (2 ^ 63) \<le> hi - uint value" "hi - uint value < 2 ^ 63" using vb hi by linarith+
    ultimately show ?thesis by (simp only: sint_word_of_int)
  qed
  have ni: "sint (- value) = - uint value"
  proof -
    have "- value = word_of_int (- uint value)" by (simp add: of_int_minus [symmetric])
    moreover have "- (2 ^ 63) \<le> - uint value" "- uint value < 2 ^ 63" using vb hi by linarith+
    ultimately show ?thesis by (simp only: sint_word_of_int)
  qed
  have gt: "\<not> value > word_of_int hi"
  proof -
    have "uint (word_of_int hi :: 64 word) = hi" using hi by (simp add: uint_word_of_int_eq take_bit_int_eq_self)
    then show ?thesis using vb by (simp add: word_less_def)
  qed
  have w: "(value + of_int incr) AND NOT (push_bit bits (- 1)) = word_of_int ((uint value + incr) mod 2 ^ bits)"
  proof -
    have low: "word_of_int s AND NOT (push_bit bits (- 1)) = (word_of_int (take_bit bits s) :: 64 word)" for s
      using b by (intro bit_word_eqI) (auto simp: bit_simps)
    have "value + of_int incr = word_of_int (uint value + incr)" by simp
    then show ?thesis by (simp only: low take_bit_eq_mod)
  qed
  have c: "incr > 0 \<and> incr > hi - uint value \<longleftrightarrow> uint value + incr > hi" "incr < 0 \<and> incr < - uint value \<longleftrightarrow> uint value + incr < 0"
    using vb by linarith+
  have "checkUnsignedBitfieldOverflow value incr bits owtype =
     (if uint value + incr > hi
      then (case owtype of BFOVERFLOW_WRAP \<Rightarrow> Some (1, Some (word_of_int ((uint value + incr) mod 2 ^ bits)))
              | BFOVERFLOW_SAT \<Rightarrow> Some (1, Some (word_of_int hi)) | BFOVERFLOW_FAIL \<Rightarrow> Some (1, None))
      else if uint value + incr < 0
      then (case owtype of BFOVERFLOW_WRAP \<Rightarrow> Some (1, Some (word_of_int ((uint value + incr) mod 2 ^ bits)))
              | BFOVERFLOW_SAT \<Rightarrow> Some (- 1, Some 0) | BFOVERFLOW_FAIL \<Rightarrow> Some (- 1, None))
      else Some (0, None))"
  proof -
    have sh: "shl64 x bits = Some (push_bit bits x)" for x using b by (simp add: shl64_def)
    have nb: "bits \<noteq> 64" using b by simp
    show ?thesis unfolding checkUnsignedBitfieldOverflow_def if_not_P [OF nb] sh option.map mx bind.bind_lunit Let_def mi ni w c
      by (simp only: gt simp_thms)
  qed
  then show ?thesis using hi(2) by (cases owtype) (simp_all add: overflow_documented_def hi_def [symmetric])
qed

lemma signed_check:
  assumes b: "0 < bits" "bits \<le> 64" and v: "- (2 ^ (bits - 1)) \<le> value" "value < 2 ^ (bits - 1)" and i: "- (2 ^ 63) \<le> incr" "incr < 2 ^ 63"
  shows "checkSignedBitfieldOverflow value incr bits owtype =
    (if owtype = BFOVERFLOW_WRAP \<and> bits = 64 \<and> (value + incr < - (2 ^ 63) \<or> 2 ^ 63 \<le> value + incr) then None
     else if owtype = BFOVERFLOW_WRAP \<and> value + incr < - (2 ^ (bits - 1)) then Some (1, Some (signed_take_bit (bits - 1) (value + incr)))
     else Some (overflow_documented owtype (value + incr) (- (2 ^ (bits - 1))) (2 ^ (bits - 1) - 1)
       (signed_take_bit (bits - 1) (value + incr))))"
proof -
  obtain k where k: "bits = Suc k" using b(1) gr0_conv_Suc by blast
  define hi where "hi = (2 :: int) ^ k - 1"
  have p: "(2 :: int) ^ k \<le> 2 ^ 63" using b k by (intro power_increasing) simp_all
  have vb: "- hi - 1 \<le> value" "value \<le> hi" using v by (simp_all add: hi_def k)
  have mx: "(if bits = 64 then Some (2 ^ 63 - 1) else map_option (\<lambda>x. sint x - 1) (shl64 1 (bits - 1))) = Some hi"
  proof (cases "bits = 64")
    case False
    then have "k < 63" using b(2) k by simp
    then have "(2 :: int) ^ k \<le> 2 ^ 62" by (intro power_increasing) simp_all
    then have "- (2 ^ 63) \<le> (2 :: int) ^ k" "(2 :: int) ^ k < 2 ^ 63" by simp_all (use zero_le_power [of "2 :: int" k] in linarith)
    then have "sint (word_of_int (2 ^ k) :: 64 word) = 2 ^ k" by (rule sint_word_of_int)
    then show ?thesis using False \<open>k < 63\<close> by (simp add: k shl64_def hi_def push_bit_of_1)
  qed (use k in \<open>simp add: hi_def\<close>)
  have over: "value > hi \<or> bits \<noteq> 64 \<and> incr > s64 (hi - value) \<or> value \<ge> 0 \<and> incr > 0 \<and> incr > s64 (hi - value) \<longleftrightarrow> value + incr > hi"
  proof (cases "bits \<noteq> 64 \<or> value \<ge> 0")
    case True
    have "hi - value < 2 ^ 63"
    proof (cases "bits = 64")
      case False
      then have "k \<le> 62" using b(2) k by simp
      then have "(2 :: int) ^ k \<le> 2 ^ 62" by (intro power_increasing) simp_all
      then show ?thesis using vb by (simp add: hi_def)
    qed (use True p in \<open>simp add: hi_def\<close>)
    then have "s64 (hi - value) = hi - value" using vb by (intro s64_id) simp_all
    then show ?thesis using True vb by auto
  next
    case False
    then have "hi = 2 ^ 63 - 1" using k by (simp add: hi_def)
    then show ?thesis using False vb i by auto
  qed
  have under: "value < - hi - 1 \<or> bits \<noteq> 64 \<and> incr < s64 (- hi - 1 - value) \<or> value < 0 \<and> incr < 0 \<and> incr < s64 (- hi - 1 - value) \<longleftrightarrow>
      value + incr < - hi - 1"
  proof (cases "bits \<noteq> 64 \<or> value < 0")
    case True
    have "- (2 ^ 63) \<le> - hi - 1 - value"
    proof (cases "bits = 64")
      case False
      then have "k \<le> 62" using b(2) k by simp
      then have "(2 :: int) ^ k \<le> 2 ^ 62" by (intro power_increasing) simp_all
      then show ?thesis using vb by (simp add: hi_def)
    qed (use True p in \<open>simp add: hi_def\<close>)
    then have "s64 (- hi - 1 - value) = - hi - 1 - value" using vb by (intro s64_id) simp_all
    then show ?thesis using True vb by auto
  next
    case False
    then have "hi = 2 ^ 63 - 1" using k by (simp add: hi_def)
    then show ?thesis using False vb i by auto
  qed
  define wrap where "wrap = do { mask \<leftarrow> shl64 (- 1) bits; msb \<leftarrow> shl64 1 (bits - 1); let c = (of_int value + of_int incr :: 64 word);
      Some (1 :: int, Some (sint (if c AND msb \<noteq> 0 then c OR mask else c AND NOT mask))) }"
  have wr: "wrap = Some (1, Some (signed_take_bit k (value + incr)))" if "bits < 64"
  proof -
    have sh: "shl64 x bits = Some (push_bit bits x)" "shl64 x (bits - 1) = Some (push_bit k x)" for x using that k by (simp_all add: shl64_def)
    have e: "of_int value + of_int incr = (word_of_int (value + incr) :: 64 word)" by simp
    show ?thesis unfolding wrap_def sh bind.bind_lunit Let_def e sign_wrapped [OF that k] ..
  qed
  have w64: "wrap = None" "hi = 2 ^ 63 - 1" if "bits = 64" using that k by (simp_all add: wrap_def shl64_def hi_def)
  have "checkSignedBitfieldOverflow value incr bits owtype =
     (if value + incr > hi
      then (case owtype of BFOVERFLOW_WRAP \<Rightarrow> wrap | BFOVERFLOW_SAT \<Rightarrow> Some (1, Some hi) | BFOVERFLOW_FAIL \<Rightarrow> Some (1, None))
      else if value + incr < - hi - 1
      then (case owtype of BFOVERFLOW_WRAP \<Rightarrow> wrap | BFOVERFLOW_SAT \<Rightarrow> Some (- 1, Some (- hi - 1)) | BFOVERFLOW_FAIL \<Rightarrow> Some (- 1, None))
      else Some (0, None))"
    unfolding checkSignedBitfieldOverflow_def mx bind.bind_lunit Let_def over under wrap_def ..
  moreover have "- (2 ^ k) = - hi - 1" "2 ^ k - 1 = hi" by (simp_all add: hi_def)
  moreover have "0 \<le> hi" by (simp add: hi_def)
  ultimately show ?thesis using b(2) wr w64 unfolding k diff_Suc_1
    by (cases owtype; cases "Suc k = 64") (auto simp add: overflow_documented_def)
qed

section \<open>The properties\<close>

text \<open>C15: \<open>redisPopcount\<close> returns the number of set bits of the bitmap, whatever its address and length.\<close>

theorem redisPopcount_counts: "redisPopcount addr s = sum_list (map (\<lambda>b. length (filter (bit b) [0..<8])) s)"
  unfolding redisPopcount_correct popcount_def pop_def ..

text \<open>C14: \<open>redisBitpos\<close> returns the position of the first bit with the value asked for; the position behind the
  bitmap when a zero is asked for and there is none, and -1 when a one is asked for and there is none. The
  panic at its end is never reached.\<close>

theorem redisBitpos_first: "redisBitpos addr s v = Some (first_bit s v)"
  by (rule redisBitpos_correct)

text \<open>C27: Writing a signed integer of up to 64 bits at any bit position leaves all other bits as they were. An
  integer of up to 63 bits and a non-negative one of 64 bits is read back; reading back a negative integer of 64 bits
  is undefined, because its sign extension shifts by the width of the operand.\<close>

theorem signed_bitfield_roundtrip:
  assumes b: "0 < bits" "bits \<le> 64" and fit: "off + bits \<le> 8 * length p" and v: "- (2 ^ (bits - 1)) \<le> v" "v < 2 ^ (bits - 1)"
  shows "\<exists>p'. setSignedBitfield p off bits v = Some p' \<and> length p' = length p \<and>
    (\<forall>i < 8 * length p. \<not> (off \<le> i \<and> i < off + bits) \<longrightarrow> bm p' i = bm p i) \<and>
    getSignedBitfield p' off bits = (if bits = 64 \<and> v < 0 then None else Some v)"
proof -
  obtain p' where "setUnsignedBitfield p off bits (of_int v) = Some p'" "length p' = length p"
    "\<And>i. i < 8 * length p \<Longrightarrow> \<not> (off \<le> i \<and> i < off + bits) \<Longrightarrow> bm p' i = bm p i"
    "getUnsignedBitfield p' off bits = Some (take_bit bits (of_int v))"
    using bitfield_set [OF b fit, of "of_int v"] by blast
  then show ?thesis using getSigned_bits [OF _ b v] by (intro exI [of _ p']) (simp add: setSignedBitfield_def)
qed

theorem signed_bitfield_roundtrip_witness:
  "\<exists>p'. setSignedBitfield [0xFF, 0] 7 5 (- 9) = Some p' \<and> length p' = 2 \<and>
    (\<forall>i < 8 * 2. \<not> (7 \<le> i \<and> i < 7 + 5) \<longrightarrow> bm p' i = bm [0xFF, 0] i) \<and> getSignedBitfield p' 7 5 = Some (- 9)"
  using signed_bitfield_roundtrip [of 5 7 "[0xFF, 0]" "- 9"] by (simp add: numeral_2_eq_2)

text \<open>C33: The check for unsigned integers of up to 63 bits returns what its comment says, 0 within the range, 1 on
  overflow and -1 on underflow, with the sum modulo the range or the bound that was crossed as the value to store. One
  case differs from the comment: an underflow that wraps returns 1.\<close>

theorem unsigned_overflow:
  assumes "bits < 64" and "uint val < 2 ^ bits" and "- (2 ^ 63) \<le> incr" and "incr < 2 ^ 63"
  shows "checkUnsignedBitfieldOverflow val incr bits owtype =
    Some (map_prod (\<lambda>c. c) (map_option word_of_int)
      (if owtype = BFOVERFLOW_WRAP \<and> uint val + incr < 0 then (1, Some ((uint val + incr) mod 2 ^ bits))
       else overflow_documented owtype (uint val + incr) 0 (2 ^ bits - 1) ((uint val + incr) mod 2 ^ bits)))"
  by (rule unsigned_check [OF assms])

theorem unsigned_overflow_witness:
  "checkUnsignedBitfieldOverflow 250 10 8 BFOVERFLOW_WRAP = Some (1, Some 4) \<and>
   checkUnsignedBitfieldOverflow 0 (- 1) 8 BFOVERFLOW_WRAP = Some (1, Some 255) \<and>
   checkUnsignedBitfieldOverflow 0 (- 1) 8 BFOVERFLOW_SAT = Some (- 1, Some 0)"
  using unsigned_overflow [of 8 250 10 BFOVERFLOW_WRAP] unsigned_overflow [of 8 0 "- 1"]
  by (simp add: overflow_documented_def)

text \<open>C34: The check for signed integers of up to 64 bits returns what its comment says, 0 within the range, 1 on
  overflow and -1 on underflow, with the sum in two's complement or the bound that was crossed as the value to store.
  Two cases differ from the comment: an underflow that wraps returns 1, and wrapping an integer of 64 bits is
  undefined, because the mask is shifted by the width of the operand.\<close>

theorem signed_overflow:
  assumes "0 < bits" and "bits \<le> 64" and "- (2 ^ (bits - 1)) \<le> val" and "val < 2 ^ (bits - 1)" and "- (2 ^ 63) \<le> incr" and "incr < 2 ^ 63"
  shows "checkSignedBitfieldOverflow val incr bits owtype =
    (if owtype = BFOVERFLOW_WRAP \<and> bits = 64 \<and> (val + incr < - (2 ^ 63) \<or> 2 ^ 63 \<le> val + incr) then None
     else if owtype = BFOVERFLOW_WRAP \<and> val + incr < - (2 ^ (bits - 1)) then Some (1, Some (signed_take_bit (bits - 1) (val + incr)))
     else Some (overflow_documented owtype (val + incr) (- (2 ^ (bits - 1))) (2 ^ (bits - 1) - 1)
       (signed_take_bit (bits - 1) (val + incr))))"
  by (rule signed_check [OF assms])

theorem signed_overflow_witness:
  "checkSignedBitfieldOverflow 100 100 8 BFOVERFLOW_SAT = Some (1, Some 127) \<and>
   checkSignedBitfieldOverflow (- 100) (- 100) 8 BFOVERFLOW_FAIL = Some (- 1, None) \<and>
   checkSignedBitfieldOverflow (- 100) (- 100) 8 BFOVERFLOW_WRAP = Some (1, Some 56) \<and>
   checkSignedBitfieldOverflow (2 ^ 63 - 1) 1 64 BFOVERFLOW_WRAP = None"
proof -
  have "signed_take_bit 7 (- 200) = (56 :: int)" by code_simp
  then show ?thesis
    using signed_overflow [of 8 100 100 BFOVERFLOW_SAT] signed_overflow [of 8 "- 100" "- 100"]
      signed_overflow [of 64 "2 ^ 63 - 1" 1 BFOVERFLOW_WRAP]
    by (simp add: overflow_documented_def)
qed

end
