(* ===== verification/Lzf.thy ===== *)
theory Lzf
  imports Prelude
begin

text \<open>
  The compressor of \<open>lzf_c.c\<close> and the decompressor of \<open>lzf_d.c\<close> in the configuration of \<open>lzfP.h\<close>: a
  hash table of \<open>2^16\<close> offsets that is not initialised (a parameter of the model), \<open>VERY_FAST\<close>, and
  \<open>CHECK_INPUT\<close>. Buffers are lists of bytes, pointers into them are positions. An access outside a
  buffer is the value \<open>None\<close>. The development shows that neither routine makes one, and that
  decompression is the inverse of compression.
\<close>

unbundle bit_operations_syntax

type_synonym bytes = "8 word list"

section \<open>The compressor\<close>

definition HSIZE :: "32 word" where "HSIZE = 2 ^ 16"
definition MAX_LIT :: nat where "MAX_LIT = 2 ^ 5"
definition MAX_OFF :: "64 word" where "MAX_OFF = 2 ^ 13"
definition MAX_REF :: nat where "MAX_REF = 2 ^ 8 + 2 ^ 3"

text \<open>The byte at a position, and a store.\<close>

definition rd :: "bytes \<Rightarrow> nat \<Rightarrow> 8 word option" where
  "rd b i = (if i < length b then Some (b ! i) else None)"

definition st :: "bytes \<Rightarrow> nat \<Rightarrow> 8 word \<Rightarrow> bytes option" where
  "st b i v = (if i < length b then Some (b[i := v]) else None)"

definition FRST :: "bytes \<Rightarrow> nat \<Rightarrow> 32 word option" where
  "FRST p i = do { a \<leftarrow> rd p i; b \<leftarrow> rd p (i + 1); Some (push_bit 8 (ucast a) OR ucast b) }"

definition NEXT :: "32 word \<Rightarrow> bytes \<Rightarrow> nat \<Rightarrow> 32 word option" where
  "NEXT v p i = do { b \<leftarrow> rd p (i + 2); Some (push_bit 8 v OR ucast b) }"

definition IDX :: "32 word \<Rightarrow> 32 word" where
  "IDX h = (drop_bit (3 * 8 - 16) h - h * 5) AND (HSIZE - 1)"

text \<open>The condition for a match of the three bytes at \<open>ip\<close> with those at \<open>ref\<close>; \<open>off\<close> is an unsigned difference.\<close>

definition ref_off :: "nat \<Rightarrow> nat \<Rightarrow> 64 word" where
  "ref_off ip ref = of_nat ip - of_nat ref - 1"

definition matches :: "bytes \<Rightarrow> nat \<Rightarrow> nat \<Rightarrow> bool option" where
  "matches p ip ref =
     (if ref_off ip ref < MAX_OFF \<and> ref > 0
      then do { r0 \<leftarrow> rd p ref; r1 \<leftarrow> rd p (ref + 1); r2 \<leftarrow> rd p (ref + 2);
                i0 \<leftarrow> rd p ip; i1 \<leftarrow> rd p (ip + 1); i2 \<leftarrow> rd p (ip + 2);
                Some (r2 = i2 \<and> r0 = i0 \<and> r1 = i1) }
      else Some False)"

text \<open>The unrolled comparisons: \<open>n\<close> times \<open>len++; if (ref[len] != ip[len]) break;\<close>. The second component tells
  whether the end was reached without a difference.\<close>

primrec match_unrolled :: "nat \<Rightarrow> bytes \<Rightarrow> nat \<Rightarrow> nat \<Rightarrow> nat \<Rightarrow> (nat \<times> bool) option" where
  "match_unrolled 0 p ip ref len = Some (len, True)"
| "match_unrolled (Suc n) p ip ref len =
     (let len = len + 1
      in do { a \<leftarrow> rd p (ref + len); b \<leftarrow> rd p (ip + len);
              if a \<noteq> b then Some (len, False) else match_unrolled n p ip ref len })"

function match_loop :: "bytes \<Rightarrow> nat \<Rightarrow> nat \<Rightarrow> nat \<Rightarrow> nat \<Rightarrow> nat option" where
  "match_loop p ip ref maxlen len =
     (let len = len + 1
      in if len < maxlen
         then do { a \<leftarrow> rd p (ref + len); b \<leftarrow> rd p (ip + len);
                   if a = b then match_loop p ip ref maxlen len else Some len }
         else Some len)"
  by auto
termination by (relation "measure (\<lambda>(p, ip, ref, maxlen, len). maxlen - len)") auto

declare match_loop.simps [simp del]

definition match_len :: "bytes \<Rightarrow> nat \<Rightarrow> nat \<Rightarrow> nat \<Rightarrow> nat option" where
  "match_len p ip ref maxlen =
     (if maxlen > 16
      then do { (len, go) \<leftarrow> match_unrolled 16 p ip ref 2;
                if go then match_loop p ip ref maxlen len else Some len }
      else match_loop p ip ref maxlen 2)"

text \<open>The bytes of a back reference; \<open>len\<close> is the number of bytes less 2.\<close>

definition put_ref :: "bytes \<Rightarrow> nat \<Rightarrow> nat \<Rightarrow> nat \<Rightarrow> (bytes \<times> nat) option" where
  "put_ref out op off len =
     do { (out, op) \<leftarrow> (if len < 7
                        then do { out \<leftarrow> st out op (of_nat (off div 2 ^ 8 + len * 2 ^ 5)); Some (out, op + 1) }
                        else do { out \<leftarrow> st out op (of_nat (off div 2 ^ 8 + 7 * 2 ^ 5));
                                  out \<leftarrow> st out (op + 1) (of_nat (len - 7));
                                  Some (out, op + 2) });
          out \<leftarrow> st out op (of_nat off);
          Some (out, op + 1) }"

text \<open>\<open>op[-lit-1] = lit - 1\<close>, converted to a byte; then a byte of a run of literals, with the end of a full run.\<close>

definition stop_run :: "bytes \<Rightarrow> nat \<Rightarrow> nat \<Rightarrow> bytes option" where
  "stop_run out op lit = (if lit + 1 \<le> op then st out (op - (lit + 1)) (of_nat lit - 1) else None)"

definition put_lit :: "bytes \<Rightarrow> nat \<Rightarrow> nat \<Rightarrow> 8 word \<Rightarrow> (bytes \<times> nat \<times> nat) option" where
  "put_lit out op lit b =
     do { out \<leftarrow> st out op b;
          let lit = lit + 1;
          let op = op + 1;
          if lit = MAX_LIT
          then do { out \<leftarrow> stop_run out op lit; Some (out, op + 1, 0) }
          else Some (out, op, lit) }"

function lits_loop :: "bytes \<Rightarrow> nat \<Rightarrow> bytes \<Rightarrow> nat \<Rightarrow> nat \<Rightarrow> (bytes \<times> nat \<times> nat) option" where
  "lits_loop p ip out op lit =
     (if ip < length p
      then do { (out, op, lit) \<leftarrow> put_lit out op lit (p ! ip); lits_loop p (ip + 1) out op lit }
      else Some (out, op, lit))"
  by auto
termination by (relation "measure (\<lambda>(p, ip, out, op, lit). length p - ip)") auto

declare lits_loop.simps [simp del]

text \<open>The end of the routine: the number of bytes written, 0 when they do not fit.\<close>

definition lzf_finish :: "bytes \<Rightarrow> nat \<Rightarrow> bytes \<Rightarrow> nat \<Rightarrow> nat \<Rightarrow> (nat \<times> bytes) option" where
  "lzf_finish p ip out op lit =
     (if op + 3 > length out then Some (0, out)
      else do { (out, op, lit) \<leftarrow> lits_loop p ip out op lit;
                out \<leftarrow> stop_run out op lit;
                Some (if lit = 0 then op - 1 else op, out) })"

text \<open>The two entries of the table after a match.\<close>

definition rehash :: "(32 word \<Rightarrow> 32 word) \<Rightarrow> bytes \<Rightarrow> nat \<Rightarrow> ((32 word \<Rightarrow> 32 word) \<times> 32 word) option" where
  "rehash htab p ip =
     do { let ip = ip - 2;
          hval \<leftarrow> FRST p ip;
          hval \<leftarrow> NEXT hval p ip;
          let htab = htab(IDX hval := of_nat ip);
          let ip = ip + 1;
          hval \<leftarrow> NEXT hval p ip;
          Some (htab(IDX hval := of_nat ip), hval) }"

text \<open>A match at \<open>ref\<close>: the run before it is stopped, and the reference written. \<open>None\<close> if it does not fit.\<close>

definition put_match ::
  "bytes \<Rightarrow> nat \<Rightarrow> nat \<Rightarrow> bytes \<Rightarrow> nat \<Rightarrow> nat \<Rightarrow> (bytes \<times> nat \<times> nat) option option" where
  "put_match p ip ref out op lit =
     (let maxlen = min (length p - ip - 2) MAX_REF
      in if op + 3 + 1 \<ge> length out \<and> op - (if lit = 0 then 1 else 0) + 3 + 1 \<ge> length out then Some None
         else do {
           out \<leftarrow> stop_run out op lit;
           let op = op - (if lit = 0 then 1 else 0);
           len \<leftarrow> match_len p ip ref maxlen;
           let len = len - 2;
           (out, op) \<leftarrow> put_ref out op (unat (ref_off ip ref)) len;
           Some (Some (out, op + 1, ip + 1 + (len + 1))) })"

partial_function (option) lzf_c_loop ::
  "bytes \<Rightarrow> (32 word \<Rightarrow> 32 word) \<Rightarrow> 32 word \<Rightarrow> nat \<Rightarrow> bytes \<Rightarrow> nat \<Rightarrow> nat \<Rightarrow> (nat \<times> bytes) option" where
  "lzf_c_loop p htab hval ip out op lit =
     (if ip + 2 < length p
      then do {
        hval \<leftarrow> NEXT hval p ip;
        let ref = unat (htab (IDX hval));
        let htab = htab(IDX hval := of_nat ip);
        m \<leftarrow> matches p ip ref;
        if m then do {
          r \<leftarrow> put_match p ip ref out op lit;
          case r of
            None \<Rightarrow> Some (0, out)
          | Some (out, op, ip) \<Rightarrow>
              if ip + 2 \<ge> length p then lzf_finish p ip out op 0
              else do { (htab, hval) \<leftarrow> rehash htab p ip; lzf_c_loop p htab hval ip out op 0 } }
        else if op \<ge> length out then Some (0, out)
        else do {
          (out, op, lit) \<leftarrow> put_lit out op lit (p ! ip);
          lzf_c_loop p htab hval (ip + 1) out op lit } }
      else lzf_finish p ip out op lit)"

definition lzf_compress :: "(32 word \<Rightarrow> 32 word) \<Rightarrow> bytes \<Rightarrow> bytes \<Rightarrow> (nat \<times> bytes) option" where
  "lzf_compress htab p out =
     (if length p = 0 \<or> length out = 0 then Some (0, out)
      else do { hval \<leftarrow> FRST p 0; lzf_c_loop p htab hval 0 out 1 0 })"

section \<open>The decompressor\<close>

datatype lzf_error = E2BIG | EINVAL

primrec copy_bytes :: "nat \<Rightarrow> bytes \<Rightarrow> nat \<Rightarrow> nat \<Rightarrow> bytes option" where
  "copy_bytes 0 out op ref = Some out"
| "copy_bytes (Suc n) out op ref =
     do { b \<leftarrow> rd out ref; out \<leftarrow> st out op b; copy_bytes n out (op + 1) (ref + 1) }"

definition mem_copy :: "bytes \<Rightarrow> nat \<Rightarrow> bytes \<Rightarrow> nat \<Rightarrow> nat \<Rightarrow> bytes option" where
  "mem_copy out op src s n =
     (if op + n \<le> length out \<and> s + n \<le> length src
      then Some (take op out @ take n (drop s src) @ drop (op + n) out) else None)"

text \<open>The copy of \<open>len + 2\<close> bytes: one by one for short ones, at once if the areas are disjoint.\<close>

definition copy_ref :: "bytes \<Rightarrow> nat \<Rightarrow> nat \<Rightarrow> nat \<Rightarrow> bytes option" where
  "copy_ref out op ref len =
     (if len \<le> 9 then copy_bytes (len + 2) out op ref
      else
        (let len = len + 2
         in if op \<ge> ref + len then mem_copy out op out ref len else copy_bytes len out op ref))"

text \<open>The length and the offset of a back reference, and the position behind it.\<close>

definition get_ref :: "bytes \<Rightarrow> nat \<Rightarrow> nat \<Rightarrow> (nat \<times> nat \<times> nat) option option" where
  "get_ref p ip ctrl =
     (let len = ctrl div 2 ^ 5; off = (ctrl mod 2 ^ 5) * 2 ^ 8 + 1
      in if ip \<ge> length p then Some None
         else if len = 7
         then do { l \<leftarrow> rd p ip;
                   if ip + 1 \<ge> length p then Some None
                   else do { o' \<leftarrow> rd p (ip + 1); Some (Some (len + unat l, off + unat o', ip + 2)) } }
         else do { o' \<leftarrow> rd p ip; Some (Some (len, off + unat o', ip + 1)) })"

partial_function (option) lzf_d_loop :: "bytes \<Rightarrow> nat \<Rightarrow> bytes \<Rightarrow> nat \<Rightarrow> (lzf_error + nat \<times> bytes) option" where
  "lzf_d_loop p ip out op =
     do {
       c \<leftarrow> rd p ip;
       let ctrl = unat c;
       let ip = ip + 1;
       if ctrl < 2 ^ 5
       then
         (let ctrl = ctrl + 1
          in if op + ctrl > length out then Some (Inl E2BIG)
             else if ip + ctrl > length p then Some (Inl EINVAL)
             else do { out \<leftarrow> mem_copy out op p ip ctrl;
                       if ip + ctrl < length p then lzf_d_loop p (ip + ctrl) out (op + ctrl) else Some (Inr (op + ctrl, out)) })
       else do {
         r \<leftarrow> get_ref p ip ctrl;
         case r of
           None \<Rightarrow> Some (Inl EINVAL)
         | Some (len, off, ip) \<Rightarrow>
             if op + len + 2 > length out then Some (Inl E2BIG)
             else if op < off then Some (Inl EINVAL)
             else do { out \<leftarrow> copy_ref out op (op - off) len;
                       if ip < length p then lzf_d_loop p ip out (op + (len + 2)) else Some (Inr (op + (len + 2), out)) } } }"

definition lzf_decompress :: "bytes \<Rightarrow> bytes \<Rightarrow> (lzf_error + nat \<times> bytes) option" where
  "lzf_decompress p out = lzf_d_loop p 0 out 0"

declare lzf_c_loop.simps [code] lzf_d_loop.simps [code]

section \<open>The format\<close>

text \<open>The data a back reference stands for: \<open>n\<close> bytes, each the one \<open>off\<close> positions back.\<close>

primrec backref :: "nat \<Rightarrow> bytes \<Rightarrow> nat \<Rightarrow> bytes" where
  "backref 0 d off = d"
| "backref (Suc n) d off = backref n (d @ [d ! (length d - off)]) off"

definition ref_bytes :: "nat \<Rightarrow> nat \<Rightarrow> bytes" where
  "ref_bytes o' len =
     (if len < 7 then [of_nat (o' div 2 ^ 8 + len * 2 ^ 5)]
      else [of_nat (o' div 2 ^ 8 + 7 * 2 ^ 5), of_nat (len - 7)]) @ [of_nat o']"

text \<open>The words of the format and the data they stand for.\<close>

inductive decodes :: "bytes \<Rightarrow> bytes \<Rightarrow> bool" where
  nothing: "decodes [] []"
| literals: "decodes (e @ of_nat (length ls - 1) # ls) (d @ ls)"
    if "decodes e d" "0 < length ls" "length ls \<le> 32"
| reference: "decodes (e @ ref_bytes o' len) (backref (len + 2) d (o' + 1))"
    if "decodes e d" "o' < length d" "o' < 2 ^ 13" "1 \<le> len" "len \<le> 262"

lemma length_backref [simp]: "length (backref n d off) = length d + n"
  by (induction n arbitrary: d) simp_all

lemma rd_Some: "i < length b \<Longrightarrow> rd b i = Some (b ! i)"
  unfolding rd_def by simp

lemma st_Some: "i < length b \<Longrightarrow> st b i v = Some (b[i := v])"
  unfolding st_def by simp

section \<open>The decompressor undoes the format\<close>

lemma copy_bytes_backref:
  assumes "0 < off" "off \<le> length d" "n \<le> length r"
  shows "copy_bytes n (d @ r) (length d) (length d - off) = Some (backref n d off @ drop n r)"
  using assms
proof (induction n arbitrary: d r)
  case (Suc n)
  obtain x r' where r: "r = x # r'" using Suc.prems(3) by (cases r) auto
  let ?d = "d @ [d ! (length d - off)]"
  have lt: "length d - off < length d" using Suc.prems by linarith
  have "copy_bytes (Suc n) (d @ r) (length d) (length d - off)
      = copy_bytes n (?d @ r') (length ?d) (length ?d - off)"
    using lt Suc.prems by (simp add: r rd_def st_def nth_append Suc_diff_le)
  also have "\<dots> = Some (backref n ?d off @ drop n r')"
    using Suc.prems by (intro Suc.IH) (simp_all add: r)
  finally show ?case by (simp add: r)
qed simp

lemma backref_disjoint:
  assumes "n \<le> off" "off \<le> length d"
  shows "backref n d off = d @ take n (drop (length d - off) d)"
  using assms
proof (induction n arbitrary: d)
  case (Suc n)
  let ?k = "length d - off"
  have k: "?k < length d" using Suc.prems by linarith
  have "drop (Suc ?k) (d @ [d ! ?k]) = drop (Suc ?k) d @ [d ! ?k]" using k by simp
  moreover have "n \<le> length (drop (Suc ?k) d)" using Suc.prems by simp
  ultimately have "take n (drop (Suc ?k) (d @ [d ! ?k])) = take n (drop (Suc ?k) d)" by simp
  moreover have "drop ?k d = d ! ?k # drop (Suc ?k) d" using k by (rule Cons_nth_drop_Suc [symmetric])
  ultimately show ?case using Suc.prems by (simp add: Suc.IH Suc_diff_le)
qed simp

lemma copy_ref_backref:
  assumes "0 < off" "off \<le> length d" "len + 2 \<le> length r"
  shows "copy_ref (d @ r) (length d) (length d - off) len = Some (backref (len + 2) d off @ drop (len + 2) r)"
proof (cases "9 < len \<and> length d - off + (len + 2) \<le> length d")
  case True
  define n where "n = len + 2"
  have n: "n \<le> off" "n \<le> length r" "length d - off + n \<le> length d" using True assms unfolding n_def by linarith+
  have "mem_copy (d @ r) (length d) (d @ r) (length d - off) n = Some (backref n d off @ drop n r)"
    using n backref_disjoint [OF n(1) assms(2)] unfolding mem_copy_def by simp
  then show ?thesis using True unfolding copy_ref_def n_def Let_def by simp
next
  case False
  then have "len \<le> 9 \<or> \<not> length d \<ge> length d - off + (len + 2)" by linarith
  then show ?thesis unfolding copy_ref_def Let_def copy_bytes_backref [OF assms]
    by (elim disjE) (simp_all only: if_True if_False if_cancel)
qed

text \<open>The loop's condition with the value returned behind it.\<close>

definition lzf_d_from :: "bytes \<Rightarrow> nat \<Rightarrow> bytes \<Rightarrow> nat \<Rightarrow> (lzf_error + nat \<times> bytes) option" where
  "lzf_d_from p ip out op = (if ip < length p then lzf_d_loop p ip out op else Some (Inr (op, out)))"

lemma lzf_d_literals:
  assumes p: "p = e @ (c # ls) @ s" and c: "unat c + 1 = length ls" and l: "length ls \<le> 32" "length ls \<le> length r"
  shows "lzf_d_loop p (length e) (d @ r) (length d)
       = lzf_d_from p (length e + length (c # ls)) ((d @ ls) @ drop (length ls) r) (length (d @ ls))"
proof -
  have r: "rd p (length e) = Some c" unfolding rd_def p by simp
  have u: "unat c < 2 ^ 5" using c l(1) by simp
  have o: "\<not> length d + length ls > length (d @ r)" using l(2) by simp
  have i: "\<not> length e + 1 + length ls > length p" unfolding p by simp
  have m: "mem_copy (d @ r) (length d) p (length e + 1) (length ls) = Some ((d @ ls) @ drop (length ls) r)"
    using l unfolding mem_copy_def p by simp
  have e: "length e + length (c # ls) = length e + 1 + length ls" "length (d @ ls) = length d + length ls" by simp_all
  show ?thesis unfolding lzf_d_from_def e
    by (subst lzf_d_loop.simps) (simp only: r bind.bind_lunit Let_def u if_True c o i if_False m)
qed

lemma get_ref_short:
  assumes "p = e @ [c, o'] @ s" "l < 7" "q < 32"
  shows "get_ref p (length e + 1) (q + l * 32) = Some (Some (l, q * 256 + 1 + unat o', length e + 2))"
  using assms unfolding get_ref_def Let_def by (simp add: rd_def nth_append)

lemma get_ref_long:
  assumes p: "p = e @ [c, l, o'] @ s" and q: "q < 32"
  shows "get_ref p (length e + 1) (q + 7 * 32) = Some (Some (7 + unat l, q * 256 + 1 + unat o', length e + 3))"
proof -
  have d: "(q + 7 * 32) div 2 ^ 5 = 7" "(q + 7 * 32) mod 2 ^ 5 = q"
    using q mod_mult_self1 [of q 7 "2 ^ 5"] by simp_all
  have "\<not> length p \<le> length e + 1" "\<not> length p \<le> length e + 1 + 1"
    "rd p (length e + 1) = Some l" "rd p (length e + 1 + 1) = Some o'"
    unfolding p rd_def by (simp_all add: nth_append)
  then show ?thesis unfolding get_ref_def d Let_def by simp
qed

lemma get_ref_bytes:
  assumes "o' < 2 ^ 13" "1 \<le> len" "len \<le> 262"
  shows "2 ^ 5 \<le> unat (hd (ref_bytes o' len))"
    "get_ref (e @ ref_bytes o' len @ s) (length e + 1) (unat (hd (ref_bytes o' len)))
       = Some (Some (len, o' + 1, length e + length (ref_bytes o' len)))"
proof -
  have q: "o' div 256 < 32" using assms(1) by simp
  have o: "unat (of_nat o' :: 8 word) = o' mod 256" by (simp add: unat_of_nat)
  have a: "unat (of_nat (o' div 2 ^ 8 + k * 2 ^ 5) :: 8 word) = o' div 256 + k * 32" if "k \<le> 7" for k
    using q that by (simp only: unat_of_nat) simp
  have b: "unat (of_nat (len - 7) :: 8 word) = len - 7" if "7 \<le> len"
    using assms(3) that by (simp only: unat_of_nat) simp
  have m: "o' div 256 * 256 + 1 + o' mod 256 = o' + 1" using div_mult_mod_eq [of o' 256] by linarith
  show "2 ^ 5 \<le> unat (hd (ref_bytes o' len))"
    using assms(2) a [of len] a [of 7] unfolding ref_bytes_def by (cases "len < 7") simp_all
  show "get_ref (e @ ref_bytes o' len @ s) (length e + 1) (unat (hd (ref_bytes o' len)))
       = Some (Some (len, o' + 1, length e + length (ref_bytes o' len)))"
  proof (cases "len < 7")
    case True
    have h: "ref_bytes o' len = [of_nat (o' div 2 ^ 8 + len * 2 ^ 5), of_nat o']"
      using True unfolding ref_bytes_def by simp
    show ?thesis unfolding h list.sel a [OF less_imp_le [OF True]]
      unfolding get_ref_short [OF refl True q] o m by simp
  next
    case False
    have h: "ref_bytes o' len = [of_nat (o' div 2 ^ 8 + 7 * 2 ^ 5), of_nat (len - 7), of_nat o']"
      using False unfolding ref_bytes_def by simp
    have l: "7 + unat (of_nat (len - 7) :: 8 word) = len" using b False by simp
    show ?thesis unfolding h list.sel a [OF order_refl]
      unfolding get_ref_long [OF refl q] l o m by simp
  qed
qed

lemma lzf_d_reference:
  assumes p: "p = e @ ref_bytes o' len @ s" and o: "o' < length d" "o' < 2 ^ 13"
    and l: "1 \<le> len" "len \<le> 262" "len + 2 \<le> length r"
  shows "lzf_d_loop p (length e) (d @ r) (length d)
       = lzf_d_from p (length e + length (ref_bytes o' len))
           (backref (len + 2) d (o' + 1) @ drop (len + 2) r) (length (backref (len + 2) d (o' + 1)))"
proof -
  define c where "c = hd (ref_bytes o' len)"
  have "ref_bytes o' len \<noteq> []" unfolding ref_bytes_def by simp
  then have r: "rd p (length e) = Some c" unfolding rd_def p c_def by (simp add: nth_append hd_conv_nth)
  have c: "\<not> unat c < 2 ^ 5" using get_ref_bytes(1) [OF o(2) l(1,2)] unfolding c_def by linarith
  have g: "get_ref p (length e + 1) (unat c) = Some (Some (len, o' + 1, length e + length (ref_bytes o' len)))"
    unfolding p c_def by (rule get_ref_bytes(2) [OF o(2) l(1,2)])
  have b: "\<not> length d + len + 2 > length (d @ r)" "\<not> length d < o' + 1" using l o by simp_all
  have "copy_ref (d @ r) (length d) (length d - (o' + 1)) len = Some (backref (len + 2) d (o' + 1) @ drop (len + 2) r)"
    using o l by (intro copy_ref_backref) simp_all
  then show ?thesis unfolding lzf_d_from_def length_backref
    by (subst lzf_d_loop.simps) (simp only: r bind.bind_lunit Let_def c if_False g option.case prod.case b)
qed

lemma lzf_d_decodes:
  assumes "decodes e d" "length d \<le> length out" "e @ s \<noteq> []"
  shows "lzf_d_loop (e @ s) 0 out 0 = lzf_d_from (e @ s) (length e) (d @ drop (length d) out) (length d)"
  using assms
proof (induction arbitrary: s)
  case nothing
  then show ?case unfolding lzf_d_from_def by simp
next
  case (literals e d ls)
  define c :: "8 word" where "c = of_nat (length ls - 1)"
  have c: "unat c + 1 = length ls"
    using literals.hyps unfolding c_def by (simp only: unat_of_nat) simp
  have "lzf_d_loop (e @ (c # ls) @ s) 0 out 0
      = lzf_d_loop (e @ (c # ls) @ s) (length e) (d @ drop (length d) out) (length d)"
    using literals.IH [of "(c # ls) @ s"] literals.prems by (simp add: lzf_d_from_def)
  also have "\<dots> = lzf_d_from (e @ (c # ls) @ s) (length e + length (c # ls))
      ((d @ ls) @ drop (length ls) (drop (length d) out)) (length (d @ ls))"
    using literals.hyps literals.prems c by (intro lzf_d_literals [OF refl]) simp_all
  finally show ?case unfolding c_def [symmetric] by (simp add: add.commute)
next
  case (reference e d o' len)
  define t where "t = ref_bytes o' len"
  have "t \<noteq> []" unfolding t_def ref_bytes_def by simp
  then have "lzf_d_loop (e @ t @ s) 0 out 0
      = lzf_d_loop (e @ t @ s) (length e) (d @ drop (length d) out) (length d)"
    using reference.IH [of "t @ s"] reference.prems by (simp add: lzf_d_from_def)
  also have "\<dots> = lzf_d_from (e @ t @ s) (length e + length t)
      (backref (len + 2) d (o' + 1) @ drop (len + 2) (drop (length d) out)) (length (backref (len + 2) d (o' + 1)))"
    using reference.hyps reference.prems unfolding t_def by (intro lzf_d_reference [OF refl]) simp_all
  also have "drop (len + 2) (drop (length d) out) = drop (length (backref (len + 2) d (o' + 1))) out"
    by (simp add: add.commute)
  finally show ?case unfolding t_def by (simp only: append_assoc length_append)
qed

section \<open>The decompressor on every input\<close>

lemma copy_bytes_total:
  assumes "op + n \<le> length out" "ref < op"
  obtains out' where "copy_bytes n out op ref = Some out'" "length out' = length out"
proof -
  have "\<exists>out'. copy_bytes n out op ref = Some out' \<and> length out' = length out"
    using assms
  proof (induction n arbitrary: out op ref)
    case (Suc n)
    then show ?case using Suc.IH [of "op + 1" "out[op := out ! ref]" "ref + 1"] by (simp add: rd_Some st_Some)
  qed simp
  then show thesis using that by blast
qed

lemma mem_copy_total:
  assumes "op + n \<le> length out" "s + n \<le> length src"
  obtains out' where "mem_copy out op src s n = Some out'" "length out' = length out"
  using assms unfolding mem_copy_def by simp

lemma copy_ref_total:
  assumes "op + len + 2 \<le> length out" "ref < op"
  obtains out' where "copy_ref out op ref len = Some out'" "length out' = length out"
proof (cases "9 < len \<and> ref + (len + 2) \<le> op")
  case True
  obtain out' where "mem_copy out op out ref (len + 2) = Some out'" "length out' = length out"
    by (rule mem_copy_total [of op "len + 2" out ref out]) (use True assms in linarith)+
  then show thesis using that True unfolding copy_ref_def Let_def by simp
next
  case False
  obtain out' where o: "copy_bytes (len + 2) out op ref = Some out'" "length out' = length out"
    by (rule copy_bytes_total [of op "len + 2" out ref]) (use assms in linarith)+
  have "len \<le> 9 \<or> \<not> op \<ge> ref + (len + 2)" using False by linarith
  then have "copy_ref out op ref len = Some out'" unfolding copy_ref_def Let_def o(1)
    by (elim disjE) (simp_all only: if_True if_False if_cancel)
  then show thesis using that o(2) by blast
qed

lemma get_ref_total:
  obtains "get_ref p ip ctrl = Some None"
  | len off ip' where "get_ref p ip ctrl = Some (Some (len, off, ip'))" "ip < ip'" "ip' \<le> length p" "0 < off"
proof (cases "ip < length p \<and> (ctrl div 2 ^ 5 = 7 \<longrightarrow> ip + 1 < length p)")
  case True
  then show thesis using that(2) unfolding get_ref_def Let_def
    by (cases "ctrl div 2 ^ 5 = 7") (simp_all add: rd_Some not_le)
next
  case False
  then show thesis using that(1) unfolding get_ref_def Let_def
    by (cases "ip < length p") (simp_all add: rd_Some not_le)
qed

lemma lzf_d_loop_total:
  assumes "ip < length p" "op \<le> length out"
  shows "\<exists>r. lzf_d_loop p ip out op = Some r \<and> (\<forall>n o'. r = Inr (n, o') \<longrightarrow> n \<le> length out \<and> length o' = length out)"
    (is "?safe ip out op")
  using assms
proof (induction "length p - ip" arbitrary: ip out op rule: less_induct)
  case less
  define c where "c = unat (p ! ip)"
  note u = lzf_d_loop.simps [of p ip out op, unfolded rd_Some [OF less.prems(1)] bind.bind_lunit Let_def, folded c_def]
  have step: "?safe ip' out' op'" if "ip < ip'" "ip' < length p" "op' \<le> length out'" for ip' out' op'
    using that by (intro less.hyps) linarith+
  show ?case
  proof (cases "c < 2 ^ 5")
    case True
    show ?thesis
    proof (cases "op + (c + 1) \<le> length out \<and> ip + 1 + (c + 1) \<le> length p")
      case fits: True
      obtain o' where o: "mem_copy out op p (ip + 1) (c + 1) = Some o'" "length o' = length out"
        by (rule mem_copy_total [of op "c + 1" out "ip + 1" p]) (use fits in linarith)+
      show ?thesis using step [of "ip + 1 + (c + 1)" "op + (c + 1)" o'] fits
        unfolding u if_P [OF True] o(1) bind.bind_lunit o(2) [symmetric] by (simp add: not_le)
    qed (use True u in \<open>auto simp: not_le\<close>)
  next
    case False
    show ?thesis
    proof (rule get_ref_total [of p "ip + 1" c])
      fix len off ip'
      assume g: "get_ref p (ip + 1) c = Some (Some (len, off, ip'))" "ip + 1 < ip'" "ip' \<le> length p" "0 < off"
      show ?thesis
      proof (cases "op + len + 2 \<le> length out \<and> off \<le> op")
        case fits: True
        obtain o' where o: "copy_ref out op (op - off) len = Some o'" "length o' = length out"
          by (rule copy_ref_total [of op len out "op - off"]) (use fits g in linarith)+
        show ?thesis using step [of ip' "op + (len + 2)" o'] fits g
          unfolding u if_not_P [OF False] g(1) o(1) bind.bind_lunit o(2) [symmetric] option.case prod.case
          by (simp add: not_le)
      qed (use False g u in \<open>auto simp: not_le\<close>)
    qed (use False u in simp)
  qed
qed

section \<open>The compressor writes the format\<close>

lemma backref_take:
  assumes "ref < ip" "ip + n \<le> length p" "\<forall>k<n. p ! (ref + k) = p ! (ip + k)"
  shows "backref n (take ip p) (ip - ref) = take (ip + n) p"
  using assms
proof (induction n arbitrary: ip ref)
  case (Suc n)
  have ip: "ip < length p" using Suc.prems by simp
  have "take ip p ! (length (take ip p) - (ip - ref)) = p ! ref"
    using Suc.prems ip by simp
  also have "\<dots> = p ! ip" using Suc.prems(3) [rule_format, of 0] by simp
  finally have "backref (Suc n) (take ip p) (ip - ref) = backref n (take (Suc ip) p) (Suc ip - Suc ref)"
    using ip by (simp add: take_Suc_conv_app_nth)
  also have "\<dots> = take (Suc ip + n) p"
    using Suc.prems by (intro Suc.IH) auto
  finally show ?case by simp
qed simp

text \<open>The bytes compared equal so far.\<close>

abbreviation same :: "bytes \<Rightarrow> nat \<Rightarrow> nat \<Rightarrow> nat \<Rightarrow> bool" where
  "same p ip ref len \<equiv> \<forall>k<len. p ! (ref + k) = p ! (ip + k)"

lemma match_unrolled_same:
  assumes "ref < ip" "ip + len + n < length p" "same p ip ref (len + 1)"
  obtains len' go where "match_unrolled n p ip ref len = Some (len', go)" "len \<le> len'" "len' \<le> len + n"
    "same p ip ref len'" "n > 0 \<Longrightarrow> len < len'" "go \<Longrightarrow> len' = len + n \<and> same p ip ref (len' + 1)"
proof -
  have "\<exists>len' go. match_unrolled n p ip ref len = Some (len', go) \<and> len \<le> len' \<and> len' \<le> len + n
      \<and> same p ip ref len' \<and> (n > 0 \<longrightarrow> len < len') \<and> (go \<longrightarrow> len' = len + n \<and> same p ip ref (len' + 1))"
    using assms
  proof (induction n arbitrary: len)
    case (Suc n)
    have r: "rd p (ref + (len + 1)) = Some (p ! (ref + (len + 1)))" "rd p (ip + (len + 1)) = Some (p ! (ip + (len + 1)))"
      using Suc.prems by (simp_all add: rd_Some)
    show ?case
    proof (cases "p ! (ref + (len + 1)) = p ! (ip + (len + 1))")
      case True
      then have "same p ip ref (len + 1 + 1)" using Suc.prems(3) less_Suc_eq by auto
      then obtain len' go where "match_unrolled n p ip ref (len + 1) = Some (len', go)" "len + 1 \<le> len'" "len' \<le> len + 1 + n"
          "same p ip ref len'" "go \<longrightarrow> len' = len + 1 + n \<and> same p ip ref (len' + 1)"
        using Suc.IH [of "len + 1"] Suc.prems by auto
      then show ?thesis using True unfolding match_unrolled.simps Let_def r bind.bind_lunit by auto
    next
      case False
      then show ?thesis using Suc.prems(3) unfolding match_unrolled.simps Let_def r bind.bind_lunit by auto
    qed
  qed (use assms(3) in auto)
  then show thesis using that by blast
qed

lemma match_loop_same:
  assumes "ref < ip" "ip + len < length p" "ip + maxlen \<le> length p" "same p ip ref (len + 1)"
  obtains len' where "match_loop p ip ref maxlen len = Some len'" "len < len'" "len' \<le> max maxlen (len + 1)"
    "same p ip ref len'"
proof -
  have "\<exists>len'. match_loop p ip ref maxlen len = Some len' \<and> len < len' \<and> len' \<le> max maxlen (len + 1) \<and> same p ip ref len'"
    using assms
  proof (induction p ip ref maxlen len rule: match_loop.induct)
    case (1 p ip ref maxlen len)
    show ?case
    proof (cases "len + 1 < maxlen")
      case True
      have r: "rd p (ref + (len + 1)) = Some (p ! (ref + (len + 1)))" "rd p (ip + (len + 1)) = Some (p ! (ip + (len + 1)))"
        using "1.prems" True by (simp_all add: rd_Some)
      note u = match_loop.simps [of p ip ref maxlen len, unfolded Let_def r bind.bind_lunit]
      show ?thesis
      proof (cases "p ! (ref + (len + 1)) = p ! (ip + (len + 1))")
        case eq: True
        then have "same p ip ref (len + 1 + 1)" using "1.prems"(4) less_Suc_eq by auto
        then obtain len' where "match_loop p ip ref maxlen (len + 1) = Some len'" "len + 1 < len'"
            "len' \<le> max maxlen (len + 1 + 1)" "same p ip ref len'"
          using "1.IH" [OF refl True r eq] "1.prems" True by auto
        then show ?thesis using True unfolding u if_P [OF True] if_P [OF eq] by auto
      next
        case False
        then show ?thesis using True "1.prems"(4) unfolding u if_P [OF True] if_not_P [OF False] by auto
      qed
    next
      case False
      then show ?thesis using "1.prems"(4) by (subst match_loop.simps) (auto simp: Let_def)
    qed
  qed
  then show thesis using that by blast
qed

lemma match_len_same:
  assumes "ref < ip" "ip + 2 < length p" "maxlen = min (length p - ip - 2) MAX_REF" "same p ip ref 3"
  obtains len where "match_len p ip ref maxlen = Some len" "3 \<le> len" "len \<le> MAX_REF" "ip + len \<le> length p"
    "same p ip ref len"
proof (cases "maxlen > 16")
  have m: "ip + maxlen + 2 \<le> length p" "maxlen \<le> MAX_REF" using assms(2,3) by simp_all
  case True
  obtain l go where l: "match_unrolled 16 p ip ref 2 = Some (l, go)" "l \<le> 2 + 16"
      "same p ip ref l" "(16 :: nat) > 0 \<Longrightarrow> 2 < l" "go \<Longrightarrow> l = 2 + 16 \<and> same p ip ref (l + 1)"
    by (rule match_unrolled_same [of ref ip 2 16 p]) (use True m assms(1,4) in simp_all)
  show thesis
  proof (cases go)
    case go: True
    have "ip + l < length p" "ip + maxlen \<le> length p" using l(2) m(1) True by linarith+
    from match_loop_same [OF assms(1) this conjunct2 [OF l(5) [OF go]]]
    obtain len where len: "match_loop p ip ref maxlen l = Some len" "l < len" "len \<le> max maxlen (l + 1)" "same p ip ref len"
      by blast
    then show thesis using that [of len] l(1,2,4) go True m unfolding match_len_def MAX_REF_def by simp
  next
    case False
    then show thesis using that [of l] l(1-4) True m unfolding match_len_def MAX_REF_def by simp
  qed
next
  have m: "ip + maxlen + 2 \<le> length p" "maxlen \<le> MAX_REF" "ip + maxlen \<le> length p" using assms(2,3) by simp_all
  case False
  have "same p ip ref (2 + 1)" using assms(4) by simp
  from match_loop_same [OF assms(1,2) m(3) this]
  obtain len where "match_loop p ip ref maxlen 2 = Some len" "2 < len" "len \<le> max maxlen (2 + 1)" "same p ip ref len"
    by blast
  then show thesis using that [of len] False m assms(2) unfolding match_len_def MAX_REF_def by simp
qed

text \<open>An offset below the bound belongs to a position before \<open>ip\<close>, whatever was in the table.\<close>

lemma ref_off_less:
  assumes "ref_off ip ref < MAX_OFF" "ip < 2 ^ 32" "ref < 2 ^ 32"
  shows "ref < ip" "unat (ref_off ip ref) = ip - ref - 1" "unat (ref_off ip ref) < 2 ^ 13"
proof -
  have small: "unat (ref_off ip ref) < 2 ^ 13" using assms(1) unfolding MAX_OFF_def word_less_nat_alt by simp
  have "of_nat (unat (ref_off ip ref) + ref + 1) = (of_nat ip :: 64 word)" unfolding ref_off_def by simp
  then have "(unat (ref_off ip ref) + ref + 1) mod 2 ^ 64 = ip mod 2 ^ 64"
    using unat_of_nat [where 'a = 64, of "unat (ref_off ip ref) + ref + 1"] unat_of_nat [where 'a = 64, of ip] by simp
  then have "unat (ref_off ip ref) + ref + 1 = ip" using small assms(2,3) by simp
  then show "ref < ip" "unat (ref_off ip ref) = ip - ref - 1" "unat (ref_off ip ref) < 2 ^ 13" using small by simp_all
qed

text \<open>The state of the compressor: the words written so far stand for the input before the run of \<open>lit\<close> bytes, and
  the run itself is in the output, behind the byte reserved for its length.\<close>

definition cinv :: "bytes \<Rightarrow> nat \<Rightarrow> bytes \<Rightarrow> nat \<Rightarrow> nat \<Rightarrow> bool" where
  "cinv p ip out op lit \<longleftrightarrow>
     lit \<le> 32 \<and> lit + 1 \<le> op \<and> op \<le> length out + (if lit = 0 then 1 else 0) \<and> lit \<le> ip \<and> ip \<le> length p \<and>
     decodes (take (op - (lit + 1)) out) (take (ip - lit) p) \<and>
     take lit (drop (op - lit) out) = take lit (drop (ip - lit) p)"

lemma stop_run_ok:
  assumes "cinv p ip out op lit" "op \<le> length out"
  obtains out' where "stop_run out op lit = Some out'" "length out' = length out"
    "decodes (take (op - (if lit = 0 then 1 else 0)) out') (take ip p)"
proof -
  define k where "k = op - (lit + 1)"
  define v :: "8 word" where "v = of_nat lit - 1"
  have c: "lit \<le> 32" "lit + 1 \<le> op" "lit \<le> ip" "ip \<le> length p" "decodes (take k out) (take (ip - lit) p)"
      "take lit (drop (op - lit) out) = take lit (drop (ip - lit) p)"
    using assms(1) unfolding cinv_def k_def by simp_all
  have k: "k < length out" "op = Suc k + lit" using c(2) assms(2) unfolding k_def by simp_all
  have s: "stop_run out op lit = Some (out[k := v])"
    using c(2) k(1) unfolding stop_run_def k_def v_def st_def by simp
  show thesis
  proof (cases "lit = 0")
    case True
    then show thesis using that [OF s] c(5) k by simp
  next
    case False
    define ls where "ls = take lit (drop (ip - lit) p)"
    have l: "length ls = lit" using c(3,4) unfolding ls_def by simp
    have v: "v = of_nat (length ls - 1)" using False unfolding v_def l by (simp add: of_nat_diff)
    have "take op (out[k := v]) = take k out @ v # ls"
      using k c(6) unfolding ls_def by (simp add: upd_conv_take_nth_drop take_Cons')
    moreover have "take ip p = take (ip - lit) p @ ls"
      using c(3) take_add [of "ip - lit" lit p] unfolding ls_def by simp
    ultimately have "decodes (take op (out[k := v])) (take ip p)"
      using decodes.literals [OF c(5), of ls] False c(1) l v by simp
    then show thesis using that [OF s] False by simp
  qed
qed

lemma cinv_start:
  assumes "decodes (take op out) (take ip p)" "op \<le> length out" "ip \<le> length p"
  shows "cinv p ip out (op + 1) 0"
  using assms unfolding cinv_def by simp

lemma put_lit_ok:
  assumes c: "cinv p ip out op lit" and b: "lit < 32" "op < length out" "ip < length p"
  obtains out' op' lit' where "put_lit out op lit (p ! ip) = Some (out', op', lit')" "length out' = length out"
    "cinv p (ip + 1) out' op' lit'"
    "if lit + 1 = 32 then op' = op + 2 \<and> lit' = 0 else op' = op + 1 \<and> lit' = lit + 1"
proof -
  define o1 where "o1 = out[op := p ! ip]"
  have o: "st out op (p ! ip) = Some o1" "length o1 = length out" using b unfolding o1_def st_def by simp_all
  have le: "lit + 1 \<le> op" "lit \<le> ip" using c unfolding cinv_def by simp_all
  have d: "drop (op - lit) o1 = (drop (op - lit) out)[lit := p ! ip]"
    using le b unfolding o1_def by (simp add: drop_update_swap)
  have "take (lit + 1) (drop (op - lit) o1) = take lit (drop (op - lit) out) @ [p ! ip]"
    unfolding d using le b by (simp add: take_Suc_conv_app_nth)
  moreover have "take (lit + 1) (drop (ip - lit) p) = take lit (drop (ip - lit) p) @ [p ! ip]"
    using le b by (simp add: take_Suc_conv_app_nth)
  ultimately have c1: "cinv p (ip + 1) o1 (op + 1) (lit + 1)"
    using c b o(2) unfolding cinv_def o1_def by simp
  show thesis
  proof (cases "lit + 1 = 32")
    case True
    obtain o2 where s: "stop_run o1 (op + 1) (lit + 1) = Some o2" "length o2 = length o1"
        "decodes (take (op + 1 - (if lit + 1 = 0 then 1 else 0)) o2) (take (ip + 1) p)"
      by (rule stop_run_ok [OF c1]) (use b o in simp)
    have "cinv p (ip + 1) o2 (op + 1 + 1) 0" using s b o by (intro cinv_start) simp_all
    then show thesis using that True s o unfolding put_lit_def MAX_LIT_def by simp
  next
    case False
    then show thesis using that c1 o unfolding put_lit_def MAX_LIT_def by simp
  qed
qed

lemma lits_loop_ok:
  assumes "cinv p ip out op lit" "lit < 32" "length p - ip < 32"
    "op + (length p - ip) + (if lit + (length p - ip) \<ge> 32 then 1 else 0) \<le> length out"
  shows "\<exists>out' op' lit'. lits_loop p ip out op lit = Some (out', op', lit') \<and> length out' = length out
           \<and> cinv p (length p) out' op' lit' \<and> op' \<le> length out"
  using assms
proof (induction "length p - ip" arbitrary: ip out op lit rule: less_induct)
  case less
  show ?case
  proof (cases "ip < length p")
    case True
    have "op < length out" using less.prems(4) True by linarith
    from put_lit_ok [OF less.prems(1,2) this True]
    obtain o1 op1 lit1 where o: "put_lit out op lit (p ! ip) = Some (o1, op1, lit1)" "length o1 = length out"
        "cinv p (ip + 1) o1 op1 lit1"
        "if lit + 1 = 32 then op1 = op + 2 \<and> lit1 = 0 else op1 = op + 1 \<and> lit1 = lit + 1" by blast
    have l: "lit1 < 32" using o(4) less.prems(2) by (auto split: if_splits)
    have e: "length p - ip = length p - (ip + 1) + 1" using True by simp
    have "op1 + (length p - (ip + 1)) + (if lit1 + (length p - (ip + 1)) \<ge> 32 then 1 else 0) \<le> length o1"
      using less.prems(3,4) o(2,4) unfolding e by (simp split: if_splits)
    then show ?thesis using less.hyps [of "ip + 1" o1 op1 lit1] True o l less.prems(3)
      by (subst lits_loop.simps) simp
  next
    case False
    then have "ip = length p" using less.prems(1) unfolding cinv_def by simp
    then show ?thesis using less.prems by (subst lits_loop.simps) simp
  qed
qed

text \<open>What the compressor promises: a count of bytes of the output, which are 0 or a text of the format for the input.\<close>

definition good :: "bytes \<Rightarrow> nat \<Rightarrow> (nat \<times> bytes) option \<Rightarrow> bool" where
  "good p m r \<longleftrightarrow> (\<exists>n out. r = Some (n, out) \<and> length out = m \<and> n \<le> m \<and> (n \<noteq> 0 \<longrightarrow> decodes (take n out) p))"

lemma good_none [simp]: "length out = m \<Longrightarrow> good p m (Some (0, out))"
  unfolding good_def by simp

lemma lzf_finish_ok:
  assumes "cinv p ip out op lit" "lit < 32" "length p \<le> ip + 2"
  shows "good p (length out) (lzf_finish p ip out op lit)"
proof (cases "op + 3 > length out")
  case True
  then show ?thesis unfolding lzf_finish_def by simp
next
  case False
  have "length p - ip < 32" "op + (length p - ip) + (if lit + (length p - ip) \<ge> 32 then 1 else 0) \<le> length out"
    using assms(3) False by auto
  from lits_loop_ok [OF assms(1,2) this]
  obtain o1 op1 lit1 where o: "lits_loop p ip out op lit = Some (o1, op1, lit1)" "length o1 = length out"
      "cinv p (length p) o1 op1 lit1" "op1 \<le> length out" by blast
  obtain o2 where s: "stop_run o1 op1 lit1 = Some o2" "length o2 = length o1"
      "decodes (take (op1 - (if lit1 = 0 then 1 else 0)) o2) (take (length p) p)"
    by (rule stop_run_ok [OF o(3)]) (use o in simp)
  have "lzf_finish p ip out op lit = Some (op1 - (if lit1 = 0 then 1 else 0), o2)"
    using False o(1) s(1) unfolding lzf_finish_def by simp
  then show ?thesis using o(2,4) s(2,3) unfolding good_def by simp
qed

lemma take_st:
  assumes "i < length out"
  shows "take (i + 1) (out[i := v]) = take i out @ [v]"
  using assms by (simp add: take_Suc_conv_app_nth)

lemma put_ref_ok:
  assumes "op + 3 \<le> length out"
  obtains out' op' where "put_ref out op off len = Some (out', op')" "length out' = length out"
    "op' \<le> op + 3" "take op' out' = take op out @ ref_bytes off len"
proof (cases "len < 7")
  case True
  define a :: "8 word" where "a = of_nat (off div 2 ^ 8 + len * 2 ^ 5)"
  have "put_ref out op off len = Some (out[op := a, op + 1 := of_nat off], op + 1 + 1)"
    using True assms unfolding put_ref_def a_def by (simp only: if_True st_def) simp
  moreover have "take (op + 1 + 1) (out[op := a, op + 1 := of_nat off]) = take op out @ ref_bytes off len"
    using True assms take_st [of "op + 1" "out[op := a]" "of_nat off"] take_st [of op out a]
    unfolding ref_bytes_def a_def by simp
  ultimately show thesis using that by simp
next
  case False
  define a b :: "8 word" where "a = of_nat (off div 2 ^ 8 + 7 * 2 ^ 5)" and "b = of_nat (len - 7)"
  have "put_ref out op off len = Some (out[op := a, op + 1 := b, op + 2 := of_nat off], op + 2 + 1)"
    using False assms unfolding put_ref_def a_def b_def by (simp only: if_False st_def) simp
  moreover have "take (op + 2 + 1) (out[op := a, op + 1 := b, op + 2 := of_nat off]) = take op out @ ref_bytes off len"
    using False assms take_st [of "op + 2" "out[op := a, op + 1 := b]" "of_nat off"]
      take_st [of "op + 1" "out[op := a]" b] take_st [of op out a]
    unfolding ref_bytes_def a_def b_def by simp
  ultimately show thesis using that by simp
qed

lemma matches_same:
  assumes "ip + 2 < length p" "length p < 2 ^ 32" "ref < 2 ^ 32"
  obtains "matches p ip ref = Some False"
  | "matches p ip ref = Some True" "ref < ip" "unat (ref_off ip ref) = ip - ref - 1" "unat (ref_off ip ref) < 2 ^ 13" "0 < ref"
    "same p ip ref 3"
proof (cases "ref_off ip ref < MAX_OFF \<and> ref > 0")
  case True
  have r: "ref < ip" "unat (ref_off ip ref) = ip - ref - 1" "unat (ref_off ip ref) < 2 ^ 13"
    using ref_off_less [of ip ref] True assms by simp_all
  have "matches p ip ref = Some (p ! (ref + 2) = p ! (ip + 2) \<and> p ! ref = p ! ip \<and> p ! (ref + 1) = p ! (ip + 1))"
    using True r(1) assms(1) unfolding matches_def by (simp add: rd_Some)
  moreover have "same p ip ref 3"
    if "p ! (ref + 2) = p ! (ip + 2) \<and> p ! ref = p ! ip \<and> p ! (ref + 1) = p ! (ip + 1)"
    using that by (simp add: numeral_3_eq_3 numeral_2_eq_2 less_Suc_eq)
  ultimately show thesis using that r True
    by (cases "p ! (ref + 2) = p ! (ip + 2) \<and> p ! ref = p ! ip \<and> p ! (ref + 1) = p ! (ip + 1)") simp_all
next
  case False
  show thesis by (rule that(1)) (unfold matches_def if_not_P [OF False], rule refl)
qed

lemma rehash_total:
  assumes "2 \<le> ip" "ip + 2 < length p"
  obtains htab' hval where "rehash htab p ip = Some (htab', hval)"
proof -
  have "ip - 2 < length p" "ip - 2 + 1 < length p" "ip - 2 + 2 < length p" "ip - 2 + 1 + 2 < length p"
    using assms by linarith+
  then show thesis using that unfolding rehash_def FRST_def NEXT_def Let_def by (simp add: rd_Some)
qed

text \<open>A match: the reference stands for the bytes it replaces.\<close>

lemma decodes_match:
  assumes d: "decodes (take op out) (take ip p)" and t: "take op' out' = take op out @ ref_bytes (unat (ref_off ip ref)) (len - 2)"
    and r: "ref < ip" "unat (ref_off ip ref) = ip - ref - 1" "unat (ref_off ip ref) < 2 ^ 13"
    and l: "3 \<le> len" "len \<le> MAX_REF" "ip + len \<le> length p" "same p ip ref len"
  shows "decodes (take op' out') (take (ip + len) p)"
proof -
  have e: "len - 2 + 2 = len" "ip - ref - 1 + 1 = ip - ref" using l r by simp_all
  have "backref len (take ip p) (ip - ref) = take (ip + len) p" by (rule backref_take) fact+
  moreover have "decodes (take op out @ ref_bytes (ip - ref - 1) (len - 2)) (backref (len - 2 + 2) (take ip p) (ip - ref - 1 + 1))"
    using d r l unfolding MAX_REF_def by (intro decodes.reference) simp_all
  ultimately show ?thesis unfolding t r(2) e by simp
qed

lemma put_match_ok:
  assumes c: "cinv p ip out op lit" and i: "ip + 2 < length p"
    and r: "ref < ip" "unat (ref_off ip ref) = ip - ref - 1" "unat (ref_off ip ref) < 2 ^ 13" "same p ip ref 3"
  obtains "put_match p ip ref out op lit = Some None"
  | out' op' ip' where "put_match p ip ref out op lit = Some (Some (out', op', ip'))" "length out' = length out"
    "cinv p ip' out' op' 0" "ip + 2 \<le> ip'"
proof -
  define op1 where "op1 = op - (if lit = 0 then 1 else 0)"
  define fits where "fits \<longleftrightarrow> \<not> (op + 3 + 1 \<ge> length out \<and> op1 + 3 + 1 \<ge> length out)"
  show thesis
  proof (cases fits)
    case True
    then have f: "op1 + 3 \<le> length out" "op \<le> length out" unfolding fits_def op1_def by (auto split: if_splits)
    obtain o1 where s: "stop_run out op lit = Some o1" "length o1 = length out" "decodes (take op1 o1) (take ip p)"
      using stop_run_ok [OF c f(2)] unfolding op1_def by blast
    obtain len where len: "match_len p ip ref (min (length p - ip - 2) MAX_REF) = Some len" "3 \<le> len" "len \<le> MAX_REF"
        "ip + len \<le> length p" "same p ip ref len"
      using match_len_same [OF r(1) i refl r(4)] by blast
    have "op1 + 3 \<le> length o1" using f(1) s(2) by simp
    from put_ref_ok [OF this, of "unat (ref_off ip ref)" "len - 2"]
    obtain o2 op2 where o: "put_ref o1 op1 (unat (ref_off ip ref)) (len - 2) = Some (o2, op2)" "length o2 = length o1"
        "op2 \<le> op1 + 3" "take op2 o2 = take op1 o1 @ ref_bytes (unat (ref_off ip ref)) (len - 2)" by blast
    have e: "ip + 1 + (len - 2 + 1) = ip + len" using len(2) by simp
    have "put_match p ip ref out op lit = Some (Some (o2, op2 + 1, ip + len))"
      using True unfolding put_match_def Let_def op1_def [symmetric] fits_def
      by (simp only: if_False s(1) len(1) o(1) e bind.bind_lunit prod.case)
    moreover have "cinv p (ip + len) o2 (op2 + 1) 0"
      using decodes_match [OF s(3) o(4) r(1-3) len(2-5)] o f s(2) len(4) by (intro cinv_start) simp_all
    ultimately show thesis using that(2) s(2) o(2) len(2) by simp
  next
    case False
    then show thesis using that(1) unfolding put_match_def Let_def op1_def [symmetric] fits_def by simp
  qed
qed

lemma lzf_c_loop_ok:
  assumes "cinv p ip out op lit" "lit < 32" "length p < 2 ^ 32"
  shows "good p (length out) (lzf_c_loop p htab hval ip out op lit)"
  using assms
proof (induction "length p - ip" arbitrary: htab hval ip out op lit rule: less_induct)
  case less
  note u = lzf_c_loop.simps [of p htab hval ip out op lit]
  show ?case
  proof (cases "ip + 2 < length p")
    case False
    then show ?thesis using lzf_finish_ok [OF less.prems(1,2)] unfolding u by simp
  next
    case True
    obtain h where h: "NEXT hval p ip = Some h" using True unfolding NEXT_def by (simp add: rd_Some)
    define ref where "ref = unat (htab (IDX h))"
    define ht where "ht = htab(IDX h := of_nat ip)"
    have rb: "ref < 2 ^ 32" using unsigned_less [of "htab (IDX h)"] unfolding ref_def by simp
    note u = u [unfolded if_P [OF True] h bind.bind_lunit Let_def, folded ref_def ht_def]
    from True less.prems(3) rb show ?thesis
    proof (cases rule: matches_same)
      case 1
      show ?thesis
      proof (cases "op < length out")
        case op: True
        have "ip < length p" using True by simp
        from put_lit_ok [OF less.prems(1,2) op this]
        obtain o1 op1 lit1 where o: "put_lit out op lit (p ! ip) = Some (o1, op1, lit1)" "length o1 = length out"
            "cinv p (ip + 1) o1 op1 lit1"
            "if lit + 1 = 32 then op1 = op + 2 \<and> lit1 = 0 else op1 = op + 1 \<and> lit1 = lit + 1" by blast
        have "lit1 < 32" using o(4) less.prems(2) by (simp split: if_splits)
        then have "good p (length o1) (lzf_c_loop p ht h (ip + 1) o1 op1 lit1)"
          using True o(3) less.prems(3) by (intro less.hyps) simp_all
        then show ?thesis using op unfolding u 1 by (simp add: o)
      qed (simp add: u 1)
    next
      case m: 2
      from put_match_ok [OF less.prems(1) True m(2,3,4,6)] show ?thesis
      proof cases
        case 1
        then show ?thesis unfolding u m(1) by simp
      next
        case (2 o1 op1 ip1)
        show ?thesis
        proof (cases "ip1 + 2 < length p")
          case more: True
          obtain ht1 h1 where "rehash ht p ip1 = Some (ht1, h1)" using rehash_total [of ip1 p ht] 2(4) more by auto
          moreover have "good p (length o1) (lzf_c_loop p ht1 h1 ip1 o1 op1 0)"
            using True 2(3,4) less.prems(3) by (intro less.hyps) simp_all
          ultimately show ?thesis using more 2(2) unfolding u m(1) by (simp add: 2(1))
        next
          case False
          then show ?thesis using lzf_finish_ok [OF 2(3)] 2(2) unfolding u m(1) by (simp add: 2(1))
        qed
      qed
    qed
  qed
qed

section \<open>The properties\<close>

text \<open>The hash of the first two bytes is computed before the length is looked at: on an input of one byte the
  compressor reads the byte behind it.\<close>

lemma lzf_compress_one_byte:
  assumes "out \<noteq> []"
  shows "lzf_compress htab [b] out = None"
  using assms unfolding lzf_compress_def FRST_def rd_def by simp

lemma lzf_compress_good:
  assumes "length p \<noteq> 1" "length p < 2 ^ 32"
  shows "good p (length out) (lzf_compress htab p out)"
proof (cases "p = [] \<or> out = []")
  case True
  then show ?thesis unfolding lzf_compress_def by auto
next
  case False
  then have "2 \<le> length p" using assms(1) by (cases p) (auto simp: Suc_le_eq)
  then have "0 < length p" "0 + 1 < length p" by linarith+
  then obtain h where h: "FRST p 0 = Some h" unfolding FRST_def by (simp add: rd_Some)
  have "cinv p 0 out (0 + 1) 0" using decodes.nothing by (intro cinv_start) simp_all
  then have "good p (length out) (lzf_c_loop p htab h 0 out 1 0)"
    using lzf_c_loop_ok [of p 0 out 1 0] assms(2) by simp
  then show ?thesis using False h unfolding lzf_compress_def by simp
qed

text \<open>C6: decompression is the inverse of compression. For every input but one of one byte, every output buffer and
  every content of the hash table that the compressor leaves uninitialised, \<open>lzf_compress\<close> returns without an access
  outside its buffers, and writes at most as many bytes as the output has. If it does not return 0, then
  \<open>lzf_decompress\<close> of the bytes written gives the input back, in every buffer that is large enough.\<close>

theorem lzf_roundtrip:
  assumes "length p \<noteq> 1" "length p < 2 ^ 32"
  shows "\<exists>n out'. lzf_compress htab p out = Some (n, out') \<and> length out' = length out \<and> n \<le> length out \<and>
    (n \<noteq> 0 \<longrightarrow> (\<forall>buf. length p \<le> length buf \<longrightarrow>
       lzf_decompress (take n out') buf = Some (Inr (length p, p @ drop (length p) buf))))"
proof -
  obtain n out' where o: "lzf_compress htab p out = Some (n, out')" "length out' = length out" "n \<le> length out"
      "n \<noteq> 0 \<longrightarrow> decodes (take n out') p"
    using lzf_compress_good [OF assms, of out htab] unfolding good_def by blast
  have "lzf_decompress (take n out') buf = Some (Inr (length p, p @ drop (length p) buf))"
    if "n \<noteq> 0" "length p \<le> length buf" for buf
  proof -
    have "take n out' @ [] \<noteq> []" using o(2,3) that(1) by auto
    then show ?thesis using lzf_d_decodes [of "take n out'" p buf "[]"] o(4) that
      unfolding lzf_decompress_def lzf_d_from_def by simp
  qed
  then show ?thesis using o by blast
qed

theorem lzf_roundtrip_witness:
  "\<exists>n out'. lzf_compress (\<lambda>_. 5) (replicate 24 97) (replicate 12 0) = Some (n, out') \<and> n = 9 \<and>
     lzf_decompress (take n out') (replicate 24 0) = Some (Inr (24, replicate 24 97))"
proof -
  have "map_option fst (lzf_compress (\<lambda>_. 5) (replicate 24 97) (replicate 12 0)) = Some 9" by code_simp
  moreover obtain n out' where o: "lzf_compress (\<lambda>_. 5) (replicate 24 97) (replicate 12 0) = Some (n, out')"
      "n \<noteq> 0 \<longrightarrow> (\<forall>buf. 24 \<le> length buf \<longrightarrow>
         lzf_decompress (take n out') buf = Some (Inr (24, replicate 24 97 @ drop 24 buf)))"
    using lzf_roundtrip [of "replicate 24 97" "\<lambda>_. 5" "replicate 12 0"] by auto
  ultimately have "n = 9" by (simp only: option.map option.inject fst_conv)
  moreover have "lzf_decompress (take n out') (replicate 24 0) = Some (Inr (24, replicate 24 97))"
    using o(2) [rule_format, of "replicate 24 0"] \<open>n = 9\<close> by simp
  ultimately show ?thesis using o(1) by blast
qed

text \<open>C26: the decompressor on every input. It makes no access outside its buffers and returns, unless the input is
  empty (the first byte is read without a test); a value other than an error is a count of bytes that the output has.\<close>

theorem lzf_decompress_safe:
  "case lzf_decompress p out of
     None \<Rightarrow> p = []
   | Some (Inl e) \<Rightarrow> p \<noteq> []
   | Some (Inr (n, out')) \<Rightarrow> p \<noteq> [] \<and> n \<le> length out \<and> length out' = length out"
proof (cases "p = []")
  case True
  then have "lzf_decompress p out = None"
    unfolding lzf_decompress_def by (subst lzf_d_loop.simps) (simp add: rd_def)
  then show ?thesis using True by simp
next
  case False
  then show ?thesis using lzf_d_loop_total [of 0 p 0 out] unfolding lzf_decompress_def
    by (auto split: sum.split)
qed

end
