(* ===== verification/Spec2Isabelle.thy ===== *)
theory Spec2Isabelle
  imports Intset Util Sds Dict_Scan Client_Pipeline T_Set Crc Bitops Lzf
begin

text \<open>
  A verification of parts of the Redis 5.0.2 server that the repository carries under
  \<open>src/redis/src/redis-5.0.2/src\<close> (file names below are relative to it).

  \<^bold>\<open>The program.\<close> A client's bytes are read from its socket into a query buffer, cut into
  commands (\<open>networking.c\<close>), and executed on a key space of hash tables (\<open>dict.c\<close>) over dynamic
  strings (\<open>sds.c\<close>), integer sets (\<open>intset.c\<close>) and further objects; replies are queued and written
  back. Numbers in text are read and written by \<open>util.c\<close>, keys are hashed by \<open>siphash.c\<close>, the slot of a
  key in a cluster is a checksum (\<open>crc16.c\<close>), and snapshots are compressed (\<open>lzf_c.c\<close>, \<open>lzf_d.c\<close>) and
  summed (\<open>crc64.c\<close>).

  \<^bold>\<open>Conventions.\<close> The models are pure functions in the order of the code. The value \<open>None\<close> of an
  operation stands for what C leaves undefined or the server does not survive: an access outside a
  block, a signed overflow or an oversized shift, a use of released memory, a failed assertion, a
  panic, and, for loops defined by \<open>partial_function (option)\<close>, a run that does not end. A theorem
  that an operation is \<open>Some y\<close> thus says that it is safe and returns. The host is a 64 bit
  little-endian machine. The contents of fresh memory, the allocator's rounding, the clock, the
  hash seed and the kernel's answers to \<open>read\<close> and \<open>write\<close> are parameters of the definitions and
  arbitrary in the theorems (the allocator gives at least what was asked for). The execution of a
  command is a parameter too, but not an arbitrary one: in \<open>any_input_is_safe\<close> it is \<open>well_behaved\<close> (the
  client stays alive and neither becomes a master or replica nor is blocked in a module, its query
  buffer is untouched, its output keeps the invariant and the bound, and a result other than \<open>C_OK\<close>
  marks it to be closed); in \<open>requests_are_executed\<close> it \<open>executes\<close> (the same on an open connection, which
  stays open; the result is \<open>C_OK\<close> and the command is recorded).

  \<^bold>\<open>Shared theories.\<close> \<open>Prelude\<close>: bytes, memory blocks with checked access, the layout and
  conversions of C integers. \<open>Interfaces\<close>: the contracts as locales. \<open>set_impl\<close> (a mutable set) is
  interpreted on integer sets and on set objects, \<open>string_builder\<close> (a growing string) on dynamic strings,
  \<open>dict_type\<close> (the key functions of a table) on the two kinds of string keys of the server.

  \<^bold>\<open>Intset\<close> models \<open>intset.c\<close> on the bytes of the block: \<open>intsetAdd\<close>, \<open>intsetRemove\<close>, \<open>intsetFind\<close>, \<open>intsetGet\<close>
  with the widening of the array in place. They implement a set of 64 bit integers; the array stays
  strictly sorted at one width.

  \<^bold>\<open>Util\<close> models \<open>string2ll\<close>, \<open>ll2string\<close>, \<open>memtoll\<close> and \<open>stringmatchlen\<close> of \<open>util.c\<close>: the number conversions are
  inverse to each other on exactly the canonical forms, and the pattern matcher decides a reference
  semantics of patterns.

  \<^bold>\<open>Sds\<close> models \<open>sds.c\<close> and \<open>sds.h\<close> with the five header widths: growth, appending, slicing, trimming,
  comparison, splitting, quoting and \<open>sdscatfmt\<close>. The invariant is kept, no byte outside the block is
  touched, and \<open>sdssplitargs\<close> undoes \<open>sdscatrepr\<close>.

  \<^bold>\<open>Siphash\<close>, \<^bold>\<open>Dict\<close>, \<^bold>\<open>Dict_Map\<close>, \<^bold>\<open>Dict_Scan\<close> model \<open>siphash.c\<close>, the key functions of \<open>server.c\<close> and
  \<open>dict.c\<close>: two tables with incremental rehashing. Any history of operations and rehashing steps is
  the same history on a finite map; rehashing ends; a scan reports every key that is present during
  the whole scan, whatever resizes happen in between, and each entry exactly once when the dictionary
  does not change; an iterator visits each entry once.

  \<^bold>\<open>Client\<close>, \<^bold>\<open>Client_Output\<close>, \<^bold>\<open>Client_Input\<close>, \<^bold>\<open>Client_Pipeline\<close> model the client of \<open>server.h\<close> and
  \<open>networking.c\<close>. \<open>Client_Output\<close>: the reply functions, the two stores of pending output, deferred
  lengths, buffer limits and \<open>writeToClient\<close>; what is queued is what reaches the socket, in order.
  \<open>Client_Input\<close>: \<open>readQueryFromClient\<close>, \<open>processInputBuffer\<close> and both request parsers; for arbitrary bytes in
  arbitrary pieces parsing stays inside its buffers and returns, and the invariant of the connection holds.
  \<open>Client_Pipeline\<close>: a stream of well-formed commands in pieces of any size is executed command by
  command; a malformed header is answered with the protocol error and ends the parsing; an error reply
  to a client in monitor mode is shown to stop the server.

  \<^bold>\<open>T_Set\<close> models the set objects of \<open>t_set.c\<close> on top of \<open>Intset\<close>, \<open>Dict\<close>, \<open>Util\<close> and \<open>Sds\<close>: any history of
  operations is the same history on a set of strings through all changes of the encoding, and the
  encoding describes the members.

  \<^bold>\<open>Crc\<close> models \<open>crc16.c\<close>, \<open>crc64.c\<close> and \<open>keyHashSlot\<close> of \<open>cluster.c\<close>: the tables implement the division by
  the polynomials bit by bit, and the slot of a key depends on its hash tag only.

  \<^bold>\<open>Bitops\<close> models the bit routines of \<open>bitops.c\<close>: the population count over words of 32 bits, the search
  of a bit over words of 64 bits, bit fields, and their overflow rules, each against a specification
  on single bits or on integers.

  \<^bold>\<open>Lzf\<close> models \<open>lzf_c.c\<close> and \<open>lzf_d.c\<close>: decompression is the inverse of compression for every content of the
  uninitialised hash table, and the decompressor is safe on every non-empty input.

  \<^bold>\<open>Bounds.\<close> The theorems bound sizes only where the code does not detect an overflow: integer sets
  have less than \<open>2^29\<close> members (the product of length and width is a \<open>uint32_t\<close>), strings less than
  \<open>2^62\<close> bytes and keys less than \<open>2^31\<close> bytes, texts to split less than \<open>2^30\<close> bytes (the token
  counters are \<open>int\<close>s), tables less than \<open>2^59\<close> entries (the byte size of a table of twice as many
  buckets, rounded up to a power of two, fits \<open>size_t\<close>), inputs of the compressor less than \<open>2^32\<close>
  bytes. No model uses fuel: loops are recursive functions with a
  termination proof, or \<open>partial_function (option)\<close> with a proof that they return.

  \<^bold>\<open>Not modelled.\<close> System calls, files, threads and timers (\<open>ae.c\<close>, \<open>anet.c\<close>, \<open>aof.c\<close>, \<open>rdb.c\<close>, \<open>rio.c\<close>,
  \<open>bio.c\<close>, \<open>replication.c\<close>, the rest of \<open>cluster.c\<close>, \<open>sentinel.c\<close>), since their behaviour is that of the operating
  system; the commands over the key space (\<open>db.c\<close>, \<open>t_*.c\<close> beyond set objects, \<open>sort.c\<close>, \<open>geo.c\<close>, ...),
  which enter as the parameter that executes a command; floating point (\<open>hyperloglog.c\<close>, \<open>geohash.c\<close>);
  the other encodings (\<open>ziplist.c\<close>, \<open>quicklist.c\<close>, \<open>rax.c\<close>, \<open>listpack.c\<close>); Lua, modules, the bundled
  libraries and the Node.js service under \<open>src/app\<close>, which runs on packages that are not part of the
  repository. Within the modelled files, random sampling, statistics, self tests, logging and the
  variadic formatting through \<open>vsnprintf\<close> are left out.
\<close>

end
